(* ===== verification/Prelude.thy ===== *)
theory Prelude
  imports Main "HOL-Library.Word"
begin

text \<open>
  What every component of the development shares.

  \<^item> Results. A C or C++ operation returns a value, runs into undefined behaviour, or throws.
    The type \<open>'a res\<close> is \<open>fault + 'a\<close>: \<open>Inl\<close> carries the reason why the operation does not return
    normally, \<open>Inr\<close> its value (and, for an operation with side effects, the new state).
    \<open>bind_res\<close> runs one operation after another and stops at the first fault.
  \<^item> C scalars. \<open>c_rem\<close> is the C remainder, which takes the sign of the dividend; \<open>schar\<close> is the
    value of a byte read through a plain \<open>char\<close>, which is signed on the x86-64 Linux targets of
    this program; \<open>NUL\<close> is the terminating byte of a C string.
  \<^item> Sequences of requests (\<open>run_steps\<close>) with the locale \<open>simulation\<close>, and the runs of a labelled
    transition system (\<open>run\<close>) with the locale \<open>inductive_invariant\<close>, by which a component lifts a
    property of single steps to all its histories.
  \<^item> Facts on lists, sums and maps used by several components.
\<close>

named_theorems res_simps \<open>rewrite rules of the result type\<close>
named_theorems c_simps \<open>rewrite rules for C scalars and constants\<close>

section \<open>Results of C and C++ operations\<close>

datatype cpp_exception = Invalid_argument | Out_of_range | Runtime_error | Length_error

datatype fault =
    Bad_pointer       \<comment> \<open>a null, freed or wild pointer is dereferenced\<close>
  | Bad_free          \<comment> \<open>free of an address that is not a live block\<close>
  | Out_of_bounds     \<comment> \<open>an array is read or written outside its elements\<close>
  | Uninit_read       \<comment> \<open>an object is read before it is written\<close>
  | Overflow_write    \<comment> \<open>more bytes are stored than the destination holds\<close>
  | Int_overflow      \<comment> \<open>the result of signed arithmetic does not fit its type\<close>
  | Diverges          \<comment> \<open>the loop never ends\<close>
  | Assert_failed     \<comment> \<open>\<open>assert(0)\<close>\<close>
  | Blocks            \<comment> \<open>a system call or a condition variable waits for ever\<close>
  | Exits             \<comment> \<open>\<open>exit(1)\<close>\<close>
  | Throws cpp_exception

type_synonym 'a res = "fault + 'a"

definition bind_res :: "'a res \<Rightarrow> ('a \<Rightarrow> 'b res) \<Rightarrow> 'b res" where
  "bind_res m f = (case m of Inl e \<Rightarrow> Inl e | Inr x \<Rightarrow> f x)"

lemma bind_res_Inl [simp, res_simps]: "bind_res (Inl e) f = Inl e"
  by (simp add: bind_res_def)

lemma bind_res_Inr [simp, res_simps]: "bind_res (Inr x) f = f x"
  by (simp add: bind_res_def)

lemma bind_res_eq_Inr: "bind_res m f = Inr y \<longleftrightarrow> (\<exists>x. m = Inr x \<and> f x = Inr y)"
  by (cases m) simp_all

lemma bind_res_eq_Inl: "bind_res m f = Inl e \<longleftrightarrow> m = Inl e \<or> (\<exists>x. m = Inr x \<and> f x = Inl e)"
  by (cases m) simp_all

lemma bind_res_assoc: "bind_res (bind_res m f) g = bind_res m (\<lambda>x. bind_res (f x) g)"
  by (cases m) simp_all

definition returns :: "'a res \<Rightarrow> bool" where
  "returns m = (case m of Inl _ \<Rightarrow> False | Inr _ \<Rightarrow> True)"

lemma returns_simps [simp, res_simps]: "returns (Inr x)" "\<not> returns (Inl e)"
  by (simp_all add: returns_def)

lemma returns_iff: "returns m \<longleftrightarrow> (\<exists>x. m = Inr x)"
  by (cases m) simp_all

section \<open>C scalars\<close>

text \<open>The values of the C type \<open>int\<close>.\<close>

definition int32 :: "int \<Rightarrow> bool" where
  "int32 i = (- (2 ^ 31) \<le> i \<and> i < 2 ^ 31)"

definition c_rem :: "int \<Rightarrow> int \<Rightarrow> int" where
  "c_rem a b = (if a < 0 then - ((- a) mod b) else a mod b)"

lemma c_rem_nonneg: "0 \<le> a \<Longrightarrow> c_rem a b = a mod b"
  by (simp add: c_rem_def)

lemma c_rem_bounds:
  assumes "0 < b"
  shows "- b < c_rem a b" and "c_rem a b < b"
proof -
  have "0 \<le> a mod b" "a mod b < b" "0 \<le> - a mod b" "- a mod b < b" using assms by simp_all
  note b = this
  have "c_rem a b = a mod b \<or> c_rem a b = - (- a mod b)" by (simp add: c_rem_def)
  with b assms show "- b < c_rem a b" "c_rem a b < b" by linarith+
qed

lemma c_rem_sign:
  assumes "0 < b" shows "0 \<le> c_rem a b \<longleftrightarrow> 0 \<le> a \<or> c_rem a b = 0"
proof -
  have "0 \<le> x mod b" for x using assms by simp
  from this[of a] this[of "- a"] show ?thesis by (auto simp: c_rem_def)
qed

abbreviation NUL :: char where "NUL \<equiv> CHR 0x00"

definition schar :: "char \<Rightarrow> int" where
  "schar c = (let b = (of_char c :: int) in if b < 128 then b else b - 256)"

lemma of_char_int_bounds: "0 \<le> (of_char c :: int)" "(of_char c :: int) < 256"
  by (cases c; simp add: of_char_def horner_sum_simps of_bool_def)+

lemma schar_bounds: "- 128 \<le> schar c" "schar c < 128"
  using of_char_int_bounds[of c] by (auto simp: schar_def Let_def)

text \<open>The characters of the C string that starts at a position of a buffer.\<close>

definition c_str :: "char list \<Rightarrow> string" where
  "c_str bs = takeWhile (\<lambda>c. c \<noteq> NUL) bs"

lemma NUL_notin_c_str [simp]: "NUL \<notin> set (c_str bs)"
  by (auto simp: c_str_def dest: set_takeWhileD)

lemma c_str_id: "NUL \<notin> set s \<Longrightarrow> c_str (s @ NUL # t) = s"
  by (induction s) (auto simp: c_str_def)

lemma length_c_str: "length (c_str bs) \<le> length bs"
  by (simp add: c_str_def length_takeWhile_le)

section \<open>Sequences of requests\<close>

text \<open>
  Serving a list of requests one after the other, collecting the replies: by the code (\<open>run_steps\<close>)
  and by a specification (\<open>spec_run\<close>). The locale \<open>simulation\<close> lifts the agreement on one request to
  agreement on every sequence.
\<close>

fun run_steps :: "('c \<Rightarrow> 's \<Rightarrow> ('r \<times> 's) res) \<Rightarrow> 'c list \<Rightarrow> 's \<Rightarrow> ('r list \<times> 's) res" where
  "run_steps step [] s = Inr ([], s)"
| "run_steps step (c # cs) s =
     bind_res (step c s) (\<lambda>(r, s1). bind_res (run_steps step cs s1) (\<lambda>(rs, s2). Inr (r # rs, s2)))"

fun spec_run :: "('c \<Rightarrow> 'm \<Rightarrow> 'r \<times> 'm) \<Rightarrow> 'c list \<Rightarrow> 'm \<Rightarrow> 'r list \<times> 'm" where
  "spec_run spec [] m = ([], m)"
| "spec_run spec (c # cs) m =
     (let (r, m1) = spec c m; (rs, m2) = spec_run spec cs m1 in (r # rs, m2))"

lemma spec_run_length: "length (fst (spec_run spec cs m)) = length cs"
  by (induction cs arbitrary: m) (simp_all add: case_prod_unfold Let_def)

locale simulation =
  fixes step :: "'c \<Rightarrow> 's \<Rightarrow> ('r \<times> 's) res"
    and spec :: "'c \<Rightarrow> 'm \<Rightarrow> 'r \<times> 'm"
    and rel :: "'s \<Rightarrow> 'm \<Rightarrow> bool"
    and ok :: "'c \<Rightarrow> bool"
  assumes sim: "rel s m \<Longrightarrow> ok c \<Longrightarrow>
    \<exists>s'. step c s = Inr (fst (spec c m), s') \<and> rel s' (snd (spec c m))"
begin

lemma run_refines:
  "rel s m \<Longrightarrow> \<forall>c \<in> set cs. ok c \<Longrightarrow>
   \<exists>s'. run_steps step cs s = Inr (fst (spec_run spec cs m), s') \<and> rel s' (snd (spec_run spec cs m))"
proof (induction cs arbitrary: s m)
  case (Cons c cs)
  obtain s1 where s1: "step c s = Inr (fst (spec c m), s1)" "rel s1 (snd (spec c m))"
    using sim[OF Cons.prems(1), of c] Cons.prems(2) by auto
  with Cons.IH[OF s1(2)] Cons.prems(2) show ?case by (auto simp: case_prod_unfold Let_def)
qed simp

end

section \<open>Runs of a transition system\<close>

text \<open>
  A component whose threads interleave is a step relation labelled with events. \<open>run step s es t\<close>:
  from \<open>s\<close> the events \<open>es\<close> lead, in this order, to \<open>t\<close>.
\<close>

inductive run :: "('s \<Rightarrow> 'e \<Rightarrow> 's \<Rightarrow> bool) \<Rightarrow> 's \<Rightarrow> 'e list \<Rightarrow> 's \<Rightarrow> bool"
  for step s where
  run_start: "run step s [] s"
| run_event: "run step s es t \<Longrightarrow> step t e u \<Longrightarrow> run step s (es @ [e]) u"

lemma run_trans: "run step t es2 u \<Longrightarrow> run step s es1 t \<Longrightarrow> run step s (es1 @ es2) u"
proof (induction rule: run.induct)
  case (run_event es v e w)
  from run.run_event[OF run_event.IH[OF run_event.prems] run_event.hyps(2)] show ?case by simp
qed simp

lemma run_one: "step s e t \<Longrightarrow> run step s [e] t"
  using run_event[OF run_start, of step s e t] by simp

lemma run_Cons: "step s e t \<Longrightarrow> run step t es u \<Longrightarrow> run step s (e # es) u"
  using run_trans[OF _ run_one, of step t es u s e] by simp

locale inductive_invariant =
  fixes step :: "'s \<Rightarrow> 'e \<Rightarrow> 's \<Rightarrow> bool" and start :: 's and I :: "'e list \<Rightarrow> 's \<Rightarrow> bool"
  assumes start_I: "I [] start"
    and step_I: "I es s \<Longrightarrow> step s e t \<Longrightarrow> I (es @ [e]) t"
begin

lemma run_I: "run step start es s \<Longrightarrow> I es s"
  by (induction rule: run.induct) (rule start_I, rule step_I)

end

section \<open>Association lists\<close>

lemma map_of_concat_None:
  "(\<And>i. i \<in> set is \<Longrightarrow> map_of (g i) k = None) \<Longrightarrow> map_of (concat (map g is)) k = None"
  by (induction "is") (simp_all add: map_add_def)

text \<open>When only one of several lists can know a key, it decides the lookup.\<close>

lemma map_of_concat_unique:
  assumes "j \<in> set is" and "\<And>i. i \<in> set is \<Longrightarrow> i \<noteq> j \<Longrightarrow> map_of (g i) k = None"
  shows "map_of (concat (map g is)) k = map_of (g j) k"
  using assms
proof (induction "is")
  case (Cons i "is")
  show ?case
  proof (cases "j \<in> set is")
    case True
    with Cons have "map_of (concat (map g is)) k = map_of (g j) k" by simp
    with Cons.prems(2)[of i] show ?thesis
      by (cases "i = j") (auto simp: map_add_def split: option.splits)
  next
    case False
    then have j: "i = j" using Cons.prems(1) by simp
    have "map_of (concat (map g is)) k = None"
      using Cons.prems(2) j False by (intro map_of_concat_None) auto
    with j show ?thesis by (simp add: map_add_def split: option.splits)
  qed
qed simp

end
