(* ===== verification/RingBuffer.thy ===== *)
theory RingBuffer
  imports Prelude
begin

text \<open>
  The fixed-size buffer of a connection, \<open>network/connect_info/ring_buffer.{h,cpp}\<close>. The class only
  keeps the two indices; whoever writes or reads bytes does it through \<open>get_buffer\<close>. The promise of
  the class is a counter of unread bytes (\<open>count_step\<close>); the interpretation \<open>ring\<close> shows that the
  indices implement it for every sequence of calls with lengths that are not negative and leave the additions
  in range. The counter wraps: a buffer that is exactly full counts as empty.
\<close>

definition RING_BUFFER_SIZE :: int where
  "RING_BUFFER_SIZE = 1024"

lemma RING_BUFFER_SIZE_pos [simp]: "0 < RING_BUFFER_SIZE" "0 \<le> RING_BUFFER_SIZE"
  by (simp_all add: RING_BUFFER_SIZE_def)

record ring_buffer =
  rb_buffer :: "char list"
  rb_head :: int
  rb_tail :: int

section \<open>Operations\<close>

text \<open>The constructor sets the indices; the bytes are those of the memory the object is built in.\<close>

definition ring_buffer_new :: "char list \<Rightarrow> ring_buffer" where
  "ring_buffer_new bytes = \<lparr>rb_buffer = bytes, rb_head = 0, rb_tail = 0\<rparr>"

definition get_buffer :: "ring_buffer \<Rightarrow> char list" where
  "get_buffer b = rb_buffer b"

definition get_head :: "ring_buffer \<Rightarrow> int" where
  "get_head b = rb_head b"

definition get_tail :: "ring_buffer \<Rightarrow> int" where
  "get_tail b = rb_tail b"

definition not_useSize :: "ring_buffer \<Rightarrow> int" where
  "not_useSize b =
     (let used_szie = (if rb_tail b \<ge> rb_head b then rb_tail b - rb_head b
                       else RING_BUFFER_SIZE - rb_head b + rb_tail b)
      in RING_BUFFER_SIZE - used_szie)"

definition used_size :: "ring_buffer \<Rightarrow> int" where
  "used_size b = c_rem (rb_tail b - rb_head b + RING_BUFFER_SIZE) RING_BUFFER_SIZE"

definition writed :: "int \<Rightarrow> ring_buffer \<Rightarrow> bool \<times> ring_buffer" where
  "writed len b =
     (if not_useSize b < len then (False, b)
      else (True, b\<lparr>rb_tail := c_rem (rb_tail b + len) RING_BUFFER_SIZE\<rparr>))"

definition readed :: "int \<Rightarrow> ring_buffer \<Rightarrow> bool \<times> ring_buffer" where
  "readed len b =
     (if rb_head b = rb_tail b then (False, b)
      else (True, b\<lparr>rb_head := c_rem (rb_head b + len) RING_BUFFER_SIZE\<rparr>))"

lemmas ring_defs = get_buffer_def get_head_def get_tail_def not_useSize_def used_size_def
  writed_def readed_def

section \<open>The invariant of the indices\<close>

definition rb_ok :: "ring_buffer \<Rightarrow> bool" where
  "rb_ok b = (int (length (rb_buffer b)) = RING_BUFFER_SIZE \<and>
     0 \<le> rb_head b \<and> rb_head b < RING_BUFFER_SIZE \<and>
     0 \<le> rb_tail b \<and> rb_tail b < RING_BUFFER_SIZE)"

lemma rb_ok_new: "length bytes = 1024 \<Longrightarrow> rb_ok (ring_buffer_new bytes)"
  by (simp add: rb_ok_def ring_buffer_new_def RING_BUFFER_SIZE_def)

text \<open>The number of unread bytes, as far as the two indices can tell.\<close>

definition rb_count :: "ring_buffer \<Rightarrow> int" where
  "rb_count b = (rb_tail b - rb_head b) mod RING_BUFFER_SIZE"

lemma rb_count_bounds: "0 \<le> rb_count b" "rb_count b < RING_BUFFER_SIZE"
  by (simp_all add: rb_count_def)

lemma rb_count_cases:
  assumes "rb_ok b"
  shows "rb_count b =
    (if rb_head b \<le> rb_tail b then rb_tail b - rb_head b else rb_tail b - rb_head b + RING_BUFFER_SIZE)"
proof (cases "rb_head b \<le> rb_tail b")
  case True
  then show ?thesis using assms by (simp add: rb_count_def rb_ok_def)
next
  case False
  then have "(rb_tail b - rb_head b + RING_BUFFER_SIZE) mod RING_BUFFER_SIZE =
      rb_tail b - rb_head b + RING_BUFFER_SIZE"
    using assms by (intro mod_pos_pos_trivial) (simp_all add: rb_ok_def)
  with False show ?thesis by (simp add: rb_count_def)
qed

lemma used_size_count: "rb_ok b \<Longrightarrow> used_size b = rb_count b"
  by (simp add: used_size_def rb_count_def c_rem_nonneg rb_ok_def)

lemma not_useSize_count: "rb_ok b \<Longrightarrow> not_useSize b = RING_BUFFER_SIZE - rb_count b"
  by (simp add: rb_count_cases not_useSize_def)

lemma rb_count_zero: "rb_ok b \<Longrightarrow> rb_count b = 0 \<longleftrightarrow> rb_head b = rb_tail b"
  by (auto simp: rb_count_cases rb_ok_def)

lemma not_useSize_bounds:
  "rb_ok b \<Longrightarrow> 0 < not_useSize b" "rb_ok b \<Longrightarrow> not_useSize b \<le> RING_BUFFER_SIZE"
  using rb_count_bounds[of b] by (simp_all add: not_useSize_count)

lemma not_useSize_bytes [simp]: "not_useSize (b\<lparr>rb_buffer := x\<rparr>) = not_useSize b"
  by (simp add: not_useSize_def)

lemma not_useSize_length: "rb_ok b \<Longrightarrow> nat (not_useSize b) \<le> length (rb_buffer b)"
  using not_useSize_bounds[of b] by (simp add: rb_ok_def) linarith

lemma writed_ok:
  assumes "rb_ok b" and "0 \<le> len"
  shows "fst (writed len b) \<longleftrightarrow> len \<le> RING_BUFFER_SIZE - rb_count b"
    and "rb_ok (snd (writed len b))"
    and "rb_count (snd (writed len b)) =
      (if len \<le> RING_BUFFER_SIZE - rb_count b then (rb_count b + len) mod RING_BUFFER_SIZE else rb_count b)"
proof -
  have "(rb_tail b + len - rb_head b) mod RING_BUFFER_SIZE =
      (rb_tail b - rb_head b + len) mod RING_BUFFER_SIZE" by (simp add: algebra_simps)
  then have "((rb_tail b + len) mod RING_BUFFER_SIZE - rb_head b) mod RING_BUFFER_SIZE =
      ((rb_tail b - rb_head b) mod RING_BUFFER_SIZE + len) mod RING_BUFFER_SIZE"
    by (simp add: mod_simps)
  with assms show "rb_count (snd (writed len b)) =
      (if len \<le> RING_BUFFER_SIZE - rb_count b then (rb_count b + len) mod RING_BUFFER_SIZE else rb_count b)"
    by (simp add: writed_def not_useSize_count) (simp add: rb_count_def c_rem_nonneg rb_ok_def)
qed (use assms in \<open>auto simp: writed_def not_useSize_count rb_ok_def c_rem_nonneg\<close>)

lemma readed_ok:
  assumes "rb_ok b" and "0 \<le> len"
  shows "fst (readed len b) \<longleftrightarrow> rb_count b \<noteq> 0"
    and "rb_ok (snd (readed len b))"
    and "rb_count (snd (readed len b)) =
      (if rb_count b = 0 then 0 else (rb_count b - len) mod RING_BUFFER_SIZE)"
proof -
  have "(rb_tail b - (rb_head b + len)) mod RING_BUFFER_SIZE =
      (rb_tail b - rb_head b - len) mod RING_BUFFER_SIZE" by (simp add: algebra_simps)
  then have "(rb_tail b - (rb_head b + len) mod RING_BUFFER_SIZE) mod RING_BUFFER_SIZE =
      ((rb_tail b - rb_head b) mod RING_BUFFER_SIZE - len) mod RING_BUFFER_SIZE"
    by (simp add: mod_simps)
  with assms show "rb_count (snd (readed len b)) =
      (if rb_count b = 0 then 0 else (rb_count b - len) mod RING_BUFFER_SIZE)"
    by (simp add: readed_def rb_count_zero) (simp add: rb_count_def c_rem_nonneg rb_ok_def)
qed (use assms in \<open>auto simp: readed_def rb_count_zero rb_ok_def c_rem_nonneg\<close>)

section \<open>The counter it implements\<close>

datatype ring_call = Writed int | Readed int

text \<open>A call, with the signed addition it makes checked: an index plus the length is a C \<open>int\<close>.\<close>

fun ring_step :: "ring_call \<Rightarrow> ring_buffer \<Rightarrow> (bool \<times> ring_buffer) res" where
  "ring_step (Writed len) b =
     (if fst (writed len b) \<and> \<not> int32 (rb_tail b + len) then Inl Int_overflow else Inr (writed len b))"
| "ring_step (Readed len) b =
     (if fst (readed len b) \<and> \<not> int32 (rb_head b + len) then Inl Int_overflow else Inr (readed len b))"

fun count_step :: "ring_call \<Rightarrow> int \<Rightarrow> bool \<times> int" where
  "count_step (Writed len) c =
     (if len \<le> RING_BUFFER_SIZE - c then (True, (c + len) mod RING_BUFFER_SIZE) else (False, c))"
| "count_step (Readed len) c =
     (if c = 0 then (False, 0) else (True, (c - len) mod RING_BUFFER_SIZE))"

text \<open>Lengths that are not negative and leave room for an index in an \<open>int\<close>.\<close>

definition length_ok :: "int \<Rightarrow> bool" where
  "length_ok len = (0 \<le> len \<and> len \<le> 2 ^ 31 - RING_BUFFER_SIZE)"

fun call_ok :: "ring_call \<Rightarrow> bool" where
  "call_ok (Writed len) = length_ok len"
| "call_ok (Readed len) = length_ok len"

lemma length_ok_int32:
  assumes "rb_ok b" and "length_ok len"
  shows "0 \<le> len" and "int32 (rb_tail b + len)" and "int32 (rb_head b + len)"
  using assms by (auto simp: rb_ok_def length_ok_def int32_def)

interpretation ring: simulation ring_step count_step "\<lambda>b c. rb_ok b \<and> rb_count b = c" call_ok
proof unfold_locales
  fix b c call
  assume b: "rb_ok b \<and> rb_count b = c" and ok: "call_ok call"
  show "\<exists>b'. ring_step call b = Inr (fst (count_step call c), b') \<and>
      rb_ok b' \<and> rb_count b' = snd (count_step call c)"
  proof (cases call)
    case (Writed len)
    with b ok writed_ok[of b len] length_ok_int32[of b len] show ?thesis by (cases "writed len b") auto
  next
    case (Readed len)
    with b ok readed_ok[of b len] length_ok_int32[of b len] show ?thesis by (cases "readed len b") auto
  qed
qed

text \<open>The length of a failed \<open>send\<close>.\<close>

lemma readed_failed:
  assumes "rb_ok b"
  shows "readed (- 1) b = (if used_size b = 0 then (False, b) else (True, b\<lparr>rb_head := rb_head b - 1\<rparr>))"
proof -
  have "c_rem (rb_head b + - 1) RING_BUFFER_SIZE = rb_head b - 1"
    using assms by (cases "rb_head b = 0") (simp_all add: c_rem_def rb_ok_def RING_BUFFER_SIZE_def)
  then show ?thesis by (simp add: readed_def used_size_count[OF assms] rb_count_zero[OF assms])
qed

section \<open>Properties\<close>

text \<open>C28. Whatever sequence of \<open>writed\<close> and \<open>readed\<close> with lengths from 0 to 2 to the 31 less the buffer size is
  called, no addition overflows, the results are those of a counter modulo the buffer size, the indices stay inside the
  buffer, and the used and the free size are the counter and its complement. The length -1, the result of
  a failed \<open>send\<close>, which \<open>write\<close> of the connection passes on, then puts the head of a buffer that is not empty
  one back, in front of the buffer if it was at its start.\<close>

theorem ring_history:
  assumes "rb_ok b" and "\<forall>call \<in> set calls. call_ok call"
  shows "\<exists>b'. run_steps ring_step calls b = Inr (fst (spec_run count_step calls (rb_count b)), b') \<and>
    rb_ok b' \<and> used_size b' = snd (spec_run count_step calls (rb_count b)) \<and>
    not_useSize b' = RING_BUFFER_SIZE - used_size b' \<and>
    readed (- 1) b' = (if used_size b' = 0 then (False, b') else (True, b'\<lparr>rb_head := rb_head b' - 1\<rparr>))"
  using ring.run_refines[of b "rb_count b" calls] assms used_size_count not_useSize_count readed_failed by metis

theorem ring_history_witness:
  "\<exists>b'. run_steps ring_step [Writed 1000, Writed 25, Readed 990, Writed 500]
      (ring_buffer_new (replicate 1024 NUL)) = Inr ([True, False, True, True], b') \<and>
    rb_ok b' \<and> used_size b' = 510 \<and> not_useSize b' = RING_BUFFER_SIZE - used_size b'"
proof -
  have ok: "rb_ok (ring_buffer_new (replicate 1024 NUL))" by (intro rb_ok_new) simp
  have c: "rb_count (ring_buffer_new (replicate 1024 NUL)) = 0"
    by (simp add: rb_count_def ring_buffer_new_def)
  from ring_history[OF ok, of "[Writed 1000, Writed 25, Readed 990, Writed 500]"] show ?thesis
    unfolding c by (auto simp: RING_BUFFER_SIZE_def length_ok_def simp del: run_steps.simps ring_step.simps)
qed

text \<open>A full buffer cannot be told from an empty one: filling the free space completely makes the
  used size 0, offers the whole buffer for writing again, and makes \<open>readed\<close> refuse.\<close>

theorem ring_full_is_empty:
  assumes "rb_ok b"
  shows "\<exists>b'. writed (not_useSize b) b = (True, b') \<and> used_size b' = 0 \<and>
    not_useSize b' = RING_BUFFER_SIZE \<and> (\<forall>len. readed len b' = (False, b'))"
proof -
  have n: "0 \<le> not_useSize b" using not_useSize_bounds[OF assms] by simp
  obtain r b' where w: "writed (not_useSize b) b = (r, b')" by force
  from writed_ok[OF assms n] w have "r" "rb_ok b'" "rb_count b' = 0"
    by (auto simp: not_useSize_count[OF assms])
  with w show ?thesis
    by (auto simp: used_size_count not_useSize_count rb_count_zero readed_def)
qed

theorem ring_full_is_empty_witness:
  "\<exists>b'. writed 1024 (ring_buffer_new (replicate 1024 NUL)) = (True, b') \<and> used_size b' = 0"
  using ring_full_is_empty[OF rb_ok_new[of "replicate 1024 NUL"]]
  by (auto simp: ring_buffer_new_def not_useSize_def RING_BUFFER_SIZE_def)

text \<open>\<open>readed\<close> trusts its argument. On a buffer whose unread bytes start at index 0 the length
  \<open>-1\<close>, the result of a failed \<open>send\<close>, moves the head in front of the buffer; and a length beyond
  the unread bytes turns free space into unread bytes.\<close>

lemma readed_unchecked:
  assumes "rb_ok b" and "rb_head b = 0" and "rb_tail b \<noteq> 0"
  shows "rb_head (snd (readed (- 1) b)) = - 1 \<and> \<not> rb_ok (snd (readed (- 1) b)) \<and>
    (\<forall>len. used_size b < len \<and> len < RING_BUFFER_SIZE \<longrightarrow>
       used_size (snd (readed len b)) = RING_BUFFER_SIZE - (len - used_size b))"
proof -
  have "rb_head (snd (readed (- 1) b)) = - 1"
    using assms by (simp add: readed_def c_rem_def RING_BUFFER_SIZE_def)
  moreover have "used_size (snd (readed len b)) = RING_BUFFER_SIZE - (len - used_size b)"
    if "used_size b < len" "len < RING_BUFFER_SIZE" for len
  proof -
    have c: "rb_count b \<noteq> 0" using assms by (simp add: rb_count_zero)
    have l: "0 \<le> len" "rb_count b < len" using that rb_count_bounds(1)[of b] used_size_count[OF assms(1)] by simp_all
    have "(rb_count b - len) mod RING_BUFFER_SIZE = rb_count b - len + RING_BUFFER_SIZE"
      using l that(2) rb_count_bounds[of b] mod_pos_pos_trivial[of "rb_count b - len + RING_BUFFER_SIZE" RING_BUFFER_SIZE]
      by simp
    with readed_ok[OF assms(1) l(1)] c show ?thesis by (simp add: used_size_count assms(1))
  qed
  ultimately show ?thesis by (simp add: rb_ok_def)
qed

end
