(* ===== verification/StdMap.thy ===== *)
theory StdMap
  imports Prelude
begin

text \<open>
  \<open>std::map\<close> as its users see it: entries in the order of the keys, which are only ever compared
  with the comparison function. Two keys are the same when neither is less than the other. The
  locale \<open>map_order\<close> is what a comparison function has to satisfy (a strict total order); under it
  the entries behave as a function from keys to values. Each comparison function of the program is
  interpreted where it is defined.
\<close>

type_synonym ('k, 'v) std_map = "('k \<times> 'v) list"

text \<open>\<open>find\<close>: the value of the key, or \<open>end()\<close>.\<close>

fun map_find :: "('k \<Rightarrow> 'k \<Rightarrow> bool) \<Rightarrow> 'k \<Rightarrow> ('k, 'v) std_map \<Rightarrow> 'v option" where
  "map_find lt k [] = None"
| "map_find lt k ((k', v) # xs) =
     (if lt k' k then map_find lt k xs else if lt k k' then None else Some v)"

text \<open>\<open>m[k] = v\<close>: replaces the value, or adds an entry.\<close>

fun map_assign :: "('k \<Rightarrow> 'k \<Rightarrow> bool) \<Rightarrow> 'k \<Rightarrow> 'v \<Rightarrow> ('k, 'v) std_map \<Rightarrow> ('k, 'v) std_map" where
  "map_assign lt k v [] = [(k, v)]"
| "map_assign lt k v ((k', v') # xs) =
     (if lt k' k then (k', v') # map_assign lt k v xs
      else if lt k k' then (k, v) # (k', v') # xs
      else (k', v) # xs)"

text \<open>\<open>insert\<close>: adds an entry, and leaves an existing one as it is.\<close>

fun map_insert :: "('k \<Rightarrow> 'k \<Rightarrow> bool) \<Rightarrow> 'k \<Rightarrow> 'v \<Rightarrow> ('k, 'v) std_map \<Rightarrow> ('k, 'v) std_map" where
  "map_insert lt k v [] = [(k, v)]"
| "map_insert lt k v ((k', v') # xs) =
     (if lt k' k then (k', v') # map_insert lt k v xs
      else if lt k k' then (k, v) # (k', v') # xs
      else (k', v') # xs)"

definition map_ordered :: "('k \<Rightarrow> 'k \<Rightarrow> bool) \<Rightarrow> ('k, 'v) std_map \<Rightarrow> bool" where
  "map_ordered lt xs = sorted_wrt (\<lambda>p q. lt (fst p) (fst q)) xs"

lemma map_ordered_simps [simp]:
  "map_ordered lt []"
  "map_ordered lt (p # xs) \<longleftrightarrow> (\<forall>q \<in> set xs. lt (fst p) (fst q)) \<and> map_ordered lt xs"
  by (simp_all add: map_ordered_def)

locale map_order =
  fixes lt :: "'k \<Rightarrow> 'k \<Rightarrow> bool"
  assumes irrefl: "\<not> lt a a"
    and trans: "lt a b \<Longrightarrow> lt b c \<Longrightarrow> lt a c"
    and total: "\<not> lt a b \<Longrightarrow> \<not> lt b a \<Longrightarrow> a = b"
begin

lemma compare:
  obtains "lt a b" "\<not> lt b a" "a \<noteq> b" | "a = b" "\<not> lt a b" | "lt b a" "\<not> lt a b" "a \<noteq> b"
  using irrefl[of a] irrefl[of b] trans[of a b a] total[of a b] by blast

lemma find_beyond:
  assumes "\<forall>q \<in> set xs. lt k (fst q)" shows "map_find lt k xs = None"
proof (cases xs)
  case (Cons p ys)
  with assms have "lt k (fst p)" by simp
  with Cons show ?thesis by (cases p) (rule compare[of k "fst p"], simp_all)
qed simp

lemma keys_assign: "fst ` set (map_assign lt k v xs) = insert k (fst ` set xs)"
proof (induction xs)
  case (Cons p xs)
  show ?case by (cases p, rule compare[of "fst p" k]) (auto simp: Cons.IH)
qed simp

lemma keys_insert: "fst ` set (map_insert lt k v xs) = insert k (fst ` set xs)"
proof (induction xs)
  case (Cons p xs)
  show ?case by (cases p, rule compare[of "fst p" k]) (auto simp: Cons.IH)
qed simp

lemma assign_ordered: "map_ordered lt xs \<Longrightarrow> map_ordered lt (map_assign lt k v xs)"
proof (induction xs)
  case (Cons p xs)
  obtain a b where p: "p = (a, b)" by (cases p)
  from Cons.prems p have xs: "\<forall>q \<in> set xs. lt a (fst q)" "map_ordered lt xs" by auto
  show ?case
  proof (cases rule: compare[of a k])
    case 1
    have "lt a (fst q)" if "q \<in> set (map_assign lt k v xs)" for q
    proof -
      have "fst q \<in> insert k (fst ` set xs)" using that keys_assign[of k v xs] by (metis image_eqI)
      with 1 xs(1) show ?thesis by auto
    qed
    with 1 p Cons.IH[OF xs(2)] show ?thesis by simp
  next
    case 2
    with p xs show ?thesis by simp
  next
    case 3
    have "\<forall>q \<in> set xs. lt k (fst q)" using xs(1) trans[OF 3(1)] by blast
    with 3 p xs show ?thesis by simp
  qed
qed simp

lemma insert_ordered: "map_ordered lt xs \<Longrightarrow> map_ordered lt (map_insert lt k v xs)"
proof (induction xs)
  case (Cons p xs)
  obtain a b where p: "p = (a, b)" by (cases p)
  from Cons.prems p have xs: "\<forall>q \<in> set xs. lt a (fst q)" "map_ordered lt xs" by auto
  show ?case
  proof (cases rule: compare[of a k])
    case 1
    have "lt a (fst q)" if "q \<in> set (map_insert lt k v xs)" for q
    proof -
      have "fst q \<in> insert k (fst ` set xs)" using that keys_insert[of k v xs] by (metis image_eqI)
      with 1 xs(1) show ?thesis by auto
    qed
    with 1 p Cons.IH[OF xs(2)] show ?thesis by simp
  next
    case 2
    with p xs show ?thesis by simp
  next
    case 3
    have "\<forall>q \<in> set xs. lt k (fst q)" using xs(1) trans[OF 3(1)] by blast
    with 3 p xs show ?thesis by simp
  qed
qed simp

text \<open>The laws of a map.\<close>

lemma find_assign:
  assumes "map_ordered lt xs"
  shows "map_find lt j (map_assign lt k v xs) = (if j = k then Some v else map_find lt j xs)"
  using assms
proof (induction xs)
  case Nil
  show ?case by (cases rule: compare[of k j]) auto
next
  case (Cons p xs)
  obtain a b where p: "p = (a, b)" by (cases p)
  from Cons.prems p have xs: "\<forall>q \<in> set xs. lt a (fst q)" "map_ordered lt xs" by auto
  note IH = Cons.IH[OF xs(2)]
  show ?case
  proof (cases rule: compare[of a k])
    case 1
    with p IH show ?thesis by (cases rule: compare[of a j]) auto
  next
    case 2
    with p show ?thesis by (cases rule: compare[of a j]) auto
  next
    case 3
    then have k: "map_find lt k (p # xs) = None" using p by simp
    show ?thesis
    proof (cases rule: compare[of k j])
      case 1
      with 3 p k show ?thesis by simp
    next
      case 2
      with 3 p k show ?thesis by simp
    next
      case j: 3
      have "lt j a" by (rule trans[OF j(1) \<open>lt k a\<close>])
      then have "map_find lt j (p # xs) = None" using p by (cases rule: compare[of a j]) auto
      with 3 p j show ?thesis by simp
    qed
  qed
qed

lemma find_insert:
  assumes "map_ordered lt xs"
  shows "map_find lt j (map_insert lt k v xs) = (if j = k \<and> map_find lt k xs = None then Some v else map_find lt j xs)"
  using assms
proof (induction xs)
  case Nil
  show ?case by (cases rule: compare[of k j]) auto
next
  case (Cons p xs)
  obtain a b where p: "p = (a, b)" by (cases p)
  from Cons.prems p have xs: "\<forall>q \<in> set xs. lt a (fst q)" "map_ordered lt xs" by auto
  note IH = Cons.IH[OF xs(2)]
  show ?case
  proof (cases rule: compare[of a k])
    case 1
    with p IH show ?thesis by (cases rule: compare[of a j]) auto
  next
    case 2
    with p show ?thesis by (cases rule: compare[of a j]) auto
  next
    case 3
    then have k: "map_find lt k (p # xs) = None" using p by simp
    show ?thesis
    proof (cases rule: compare[of k j])
      case 1
      with 3 p k show ?thesis by simp
    next
      case 2
      with 3 p k show ?thesis by simp
    next
      case j: 3
      have "lt j a" by (rule trans[OF j(1) \<open>lt k a\<close>])
      then have "map_find lt j (p # xs) = None" using p by (cases rule: compare[of a j]) auto
      with 3 p j show ?thesis by simp
    qed
  qed
qed

text \<open>A map built by assignments answers with the last assignment to the key.\<close>

lemma assigns_ordered: "map_ordered lt (fold (\<lambda>(k, v). map_assign lt k v) kvs [])"
  by (rule fold_invariant[where Q = "\<lambda>_. True"]) (auto simp: assign_ordered split: prod.splits)

lemma find_assigns:
  "map_ordered lt xs \<Longrightarrow>
   map_find lt k (fold (\<lambda>(k, v). map_assign lt k v) kvs xs) =
     (case map_of (rev kvs) k of Some v \<Rightarrow> Some v | None \<Rightarrow> map_find lt k xs)"
proof (induction kvs arbitrary: xs)
  case (Cons p kvs)
  obtain a b where p: "p = (a, b)" by (cases p)
  from Cons.IH[OF assign_ordered[OF Cons.prems, of a b]] find_assign[OF Cons.prems, of k a b] p
  show ?case by (cases "map_of (rev kvs) k") (simp_all add: map_add_def)
qed simp

end

end
