(* ===== verification/CStrings.thy ===== *)
theory CStrings
  imports Prelude
begin

text \<open>
  The string functions of the C library that the engine calls, on C strings given as the list of
  their characters before the terminating zero: \<open>strtok\<close> with the delimiter \<open>" "\<close>, \<open>strchr\<close>,
  \<open>fgets\<close>, and the formats \<open>%s\<close> and \<open>%d\<close> of \<open>snprintf\<close>.
\<close>

section \<open>strtok\<close>

abbreviation SP :: char where "SP \<equiv> CHR '' ''"

abbreviation NL :: char where "NL \<equiv> CHR 0x0A"

text \<open>
  One call of \<open>strtok\<close> on the unread part \<open>s\<close> of the message: the bytes of the message it has passed
  over (the delimiter after the token is overwritten with a zero), the token, and the new unread
  part; \<open>None\<close> when only delimiters are left.
\<close>

definition c_strtok :: "string \<Rightarrow> (char list \<times> string \<times> string) option" where
  "c_strtok s =
     (let lead = takeWhile (\<lambda>c. c = SP) s; body = dropWhile (\<lambda>c. c = SP) s;
          tok = takeWhile (\<lambda>c. c \<noteq> SP) body; rest = dropWhile (\<lambda>c. c \<noteq> SP) body
      in if body = [] then None
         else if rest = [] then Some (lead @ tok, tok, [])
         else Some (lead @ tok @ [NUL], tok, tl rest))"

lemma c_strtok_cases:
  assumes "c_strtok s = Some (pre, tok, rest)"
  obtains b where "b = dropWhile (\<lambda>c. c = SP) s" and "b \<noteq> []" and "hd b \<noteq> SP"
    and "tok = takeWhile (\<lambda>c. c \<noteq> SP) b" and "rest = tl (dropWhile (\<lambda>c. c \<noteq> SP) b)"
proof -
  let ?b = "dropWhile (\<lambda>c. c = SP) s"
  have b: "?b \<noteq> []" using assms by (cases "?b = []") (simp_all add: c_strtok_def del: dropWhile_eq_Nil_conv)
  have "tok = takeWhile (\<lambda>c. c \<noteq> SP) ?b \<and> rest = tl (dropWhile (\<lambda>c. c \<noteq> SP) ?b)"
    using assms b
    by (cases "dropWhile (\<lambda>c. c \<noteq> SP) ?b = []")
      (simp_all add: c_strtok_def Let_def del: dropWhile_eq_Nil_conv)
  with b hd_dropWhile[OF b] show ?thesis by (intro that) (simp_all del: dropWhile_eq_Nil_conv)
qed

lemma c_strtok_shorter:
  assumes "c_strtok s = Some (pre, tok, rest)"
  shows "length rest < length s"
proof -
  from assms obtain b where b: "b = dropWhile (\<lambda>c. c = SP) s" "b \<noteq> []"
    and r: "rest = tl (dropWhile (\<lambda>c. c \<noteq> SP) b)" by (rule c_strtok_cases)
  have "length rest \<le> length b - 1" using r length_dropWhile_le[of "\<lambda>c. c \<noteq> SP" b] by simp
  moreover have "length b \<le> length s" unfolding b(1) by (rule length_dropWhile_le)
  moreover have "0 < length b" using b(2) by simp
  ultimately show ?thesis by linarith
qed

lemma c_strtok_nonempty:
  assumes "c_strtok s = Some (pre, tok, rest)"
  shows "tok \<noteq> []" and "SP \<notin> set tok"
proof -
  from assms obtain b where b: "b \<noteq> []" "hd b \<noteq> SP" and tok: "tok = takeWhile (\<lambda>c. c \<noteq> SP) b"
    by (rule c_strtok_cases)
  from b show "tok \<noteq> []" unfolding tok by (cases b) simp_all
  show "SP \<notin> set tok" using tok by (auto dest: set_takeWhileD)
qed

text \<open>The bytes passed over and the unread rest make up the message; its length never changes.\<close>

lemma c_strtok_length:
  assumes "c_strtok s = Some (pre, tok, rest)"
  shows "length s = length pre + length rest"
proof -
  let ?b = "dropWhile (\<lambda>c. c = SP) s" and ?l = "takeWhile (\<lambda>c. c = SP) s"
  let ?t = "takeWhile (\<lambda>c. c \<noteq> SP) ?b" and ?r = "dropWhile (\<lambda>c. c \<noteq> SP) ?b"
  have s: "length s = length ?l + length ?t + length ?r"
    by (metis append_assoc length_append takeWhile_dropWhile_id)
  have b: "?b \<noteq> []" using assms by (cases "?b = []") (simp_all add: c_strtok_def del: dropWhile_eq_Nil_conv)
  show ?thesis
  proof (cases "?r = []")
    case True
    with assms b s show ?thesis by (auto simp add: c_strtok_def Let_def simp del: dropWhile_eq_Nil_conv)
  next
    case False
    then have "0 < length ?r" by blast
    with False assms b s show ?thesis by (auto simp add: c_strtok_def Let_def simp del: dropWhile_eq_Nil_conv)
  qed
qed

text \<open>The words of a message: its maximal runs of characters other than the delimiter.\<close>

function c_words :: "string \<Rightarrow> string list" where
  "c_words s = (case c_strtok s of None \<Rightarrow> [] | Some (_, tok, rest) \<Rightarrow> tok # c_words rest)"
  by pat_completeness auto
termination by (relation "measure length") (auto simp: c_strtok_shorter)

declare c_words.simps [simp del]

lemma c_words_shorter: "t \<in> set (c_words s) \<Longrightarrow> length t \<le> length s"
proof (induction s rule: c_words.induct)
  case (1 s)
  show ?case
  proof (cases "c_strtok s")
    case None
    with "1.prems" show ?thesis by (simp add: c_words.simps[of s])
  next
    case (Some r)
    obtain pre tok rest where r: "r = (pre, tok, rest)" by (cases r)
    have "tok = takeWhile (\<lambda>c. c \<noteq> SP) (dropWhile (\<lambda>c. c = SP) s)"
      using Some r by (simp add: c_strtok_def Let_def del: dropWhile_eq_Nil_conv split: if_splits)
    then have "length tok \<le> length s"
      using order_trans[OF length_takeWhile_le length_dropWhile_le] by simp
    moreover have "length rest \<le> length s" using c_strtok_shorter[of s pre tok rest] Some r by simp
    moreover have "t = tok \<or> t \<in> set (c_words rest)" using "1.prems" Some r by (simp add: c_words.simps[of s])
    ultimately show ?thesis using "1.IH"[OF Some r[symmetric] refl] by auto
  qed
qed

lemma c_words_no_space: "t \<in> set (c_words s) \<Longrightarrow> t \<noteq> [] \<and> SP \<notin> set t"
proof (induction s rule: c_words.induct)
  case (1 s)
  show ?case
  proof (cases "c_strtok s")
    case None
    with "1.prems" show ?thesis by (simp add: c_words.simps[of s])
  next
    case (Some r)
    obtain pre tok rest where r: "r = (pre, tok, rest)" by (cases r)
    with "1.prems" Some have "t = tok \<or> t \<in> set (c_words rest)" by (simp add: c_words.simps[of s])
    with "1.IH"[OF Some r[symmetric] refl] c_strtok_nonempty[OF Some[unfolded r]] show ?thesis by blast
  qed
qed

text \<open>A word that is not empty and has no delimiter in it.\<close>

definition word_ok :: "string \<Rightarrow> bool" where
  "word_ok w = (w \<noteq> [] \<and> SP \<notin> set w)"

lemma c_strtok_word:
  assumes "word_ok w"
  shows "c_strtok w = Some (w, w, [])" and "c_strtok (w @ SP # s) = Some (w @ [NUL], w, s)"
proof -
  obtain c w' where w: "w = c # w'" "c \<noteq> SP" using assms by (cases w) (auto simp: word_ok_def)
  have all: "\<forall>c \<in> set w. c \<noteq> SP" using assms by (auto simp: word_ok_def)
  then have t: "takeWhile (\<lambda>c. c \<noteq> SP) w = w" "dropWhile (\<lambda>c. c \<noteq> SP) w = []"
    "takeWhile (\<lambda>c. c \<noteq> SP) (w @ SP # s) = w" "dropWhile (\<lambda>c. c \<noteq> SP) (w @ SP # s) = SP # s"
    by (simp_all add: takeWhile_append2 dropWhile_append2)
  have d: "dropWhile (\<lambda>c. c = SP) w = w" "takeWhile (\<lambda>c. c = SP) w = []"
    "dropWhile (\<lambda>c. c = SP) (w @ SP # s) = w @ SP # s" "takeWhile (\<lambda>c. c = SP) (w @ SP # s) = []"
    using w by auto
  show "c_strtok w = Some (w, w, [])" "c_strtok (w @ SP # s) = Some (w @ [NUL], w, s)"
    using assms by (simp_all only: c_strtok_def Let_def t d word_ok_def if_False append_Nil
        append_is_Nil_conv list.distinct list.sel simp_thms if_True append.assoc)
qed

text \<open>Words joined by single delimiters are read back as they were.\<close>

fun join_sp :: "string list \<Rightarrow> string" where
  "join_sp [] = []"
| "join_sp [w] = w"
| "join_sp (w # v # ws) = w @ SP # join_sp (v # ws)"

lemma c_words_join: "\<forall>w \<in> set ws. word_ok w \<Longrightarrow> c_words (join_sp ws) = ws"
proof (induction ws rule: join_sp.induct)
  case 1
  show ?case by (subst c_words.simps) (simp add: c_strtok_def)
next
  case (2 w)
  then have "c_strtok w = Some (w, w, [])" by (simp add: c_strtok_word)
  moreover have "c_words [] = []" by (subst c_words.simps) (simp add: c_strtok_def)
  ultimately show ?case by (subst c_words.simps) simp
next
  case (3 w v ws)
  then show ?case by (subst c_words.simps) (simp add: c_strtok_word)
qed

section \<open>strchr and fgets\<close>

text \<open>The part before and the part after the first occurrence of a character.\<close>

fun c_split_at :: "char \<Rightarrow> string \<Rightarrow> (string \<times> string) option" where
  "c_split_at c [] = None"
| "c_split_at c (x # xs) =
     (if x = c then Some ([], xs) else map_option (\<lambda>(a, b). (x # a, b)) (c_split_at c xs))"

lemma c_split_at_hit: "c \<notin> set a \<Longrightarrow> c_split_at c (a @ c # b) = Some (a, b)"
  by (induction a) auto

lemma c_split_at_miss: "c \<notin> set s \<Longrightarrow> c_split_at c s = None"
  by (induction s) auto

text \<open>
  \<open>fgets\<close> into a buffer of \<open>n\<close> bytes: at most \<open>n - 1\<close> characters, stopping after a newline. The
  result is the line and the unread rest of the file.
\<close>

fun take_line :: "nat \<Rightarrow> string \<Rightarrow> string \<times> string" where
  "take_line 0 s = ([], s)"
| "take_line (Suc n) [] = ([], [])"
| "take_line (Suc n) (c # s) =
     (if c = NL then ([NL], s) else (let (a, b) = take_line n s in (c # a, b)))"

definition c_fgets :: "nat \<Rightarrow> string \<Rightarrow> (string \<times> string) option" where
  "c_fgets n s = (if s = [] then None else Some (take_line (n - 1) s))"

lemma take_line_append: "take_line n s = (a, b) \<Longrightarrow> s = a @ b"
  by (induction n s arbitrary: a b rule: take_line.induct) (auto split: if_splits prod.splits)

lemma take_line_length: "length (fst (take_line n s)) \<le> n"
  by (induction n s rule: take_line.induct) (auto split: prod.splits)

lemma c_fgets_shorter:
  assumes "1 < n" and "c_fgets n s = Some (a, b)"
  shows "length b < length s"
proof -
  from assms have s: "s \<noteq> []" and t: "take_line (n - 1) s = (a, b)"
    by (auto simp: c_fgets_def split: if_splits)
  obtain m where m: "n - 1 = Suc m" using assms(1) by (cases "n - 1") auto
  obtain c s' where "s = c # s'" using s by (cases s) auto
  then have "a \<noteq> []" using t m by (auto split: if_splits prod.splits)
  with take_line_append[OF t] show ?thesis by simp
qed

lemma take_line_whole:
  "NL \<notin> set l \<Longrightarrow> length l < n \<Longrightarrow> take_line n (l @ NL # s) = (l @ [NL], s)"
proof (induction l arbitrary: n)
  case Nil
  then show ?case by (cases n) auto
next
  case (Cons c l)
  then obtain m where "n = Suc m" by (cases n) auto
  with Cons show ?case by auto
qed

lemma c_fgets_line:
  "NL \<notin> set l \<Longrightarrow> length l + 1 < n \<Longrightarrow> c_fgets n (l @ NL # s) = Some (l @ [NL], s)"
  by (simp add: c_fgets_def take_line_whole)

section \<open>Formatted output\<close>

definition digit_char :: "nat \<Rightarrow> char" where
  "digit_char d = char_of (48 + d)"

fun show_nat :: "nat \<Rightarrow> string" where
  "show_nat n = (if n < 10 then [digit_char n] else show_nat (n div 10) @ [digit_char (n mod 10)])"

declare show_nat.simps [simp del]

lemma length_show_nat: "n < 10 ^ Suc k \<Longrightarrow> length (show_nat n) \<le> Suc k"
proof (induction k arbitrary: n)
  case 0
  then show ?case by (subst show_nat.simps) simp
next
  case (Suc k)
  have "n div 10 < 10 ^ Suc k" using Suc.prems by (simp add: less_mult_imp_div_less)
  from Suc.IH[OF this] show ?case by (subst show_nat.simps) simp
qed

definition show_int :: "int \<Rightarrow> string" where
  "show_int i = (if i < 0 then CHR ''-'' # show_nat (nat (- i)) else show_nat (nat i))"

text \<open>\<open>snprintf\<close> into \<open>n\<close> bytes keeps the first \<open>n - 1\<close> characters.\<close>

definition c_snprintf :: "nat \<Rightarrow> string \<Rightarrow> string" where
  "c_snprintf n s = take (n - 1) s"

lemma c_snprintf_fits: "length s < n \<Longrightarrow> c_snprintf n s = s"
  by (simp add: c_snprintf_def)

lemma length_c_snprintf: "0 < n \<Longrightarrow> length (c_snprintf n s) < n"
  by (simp add: c_snprintf_def)

text \<open>Decimal output is read back by the usual evaluation of digits.\<close>

definition digit_val :: "char \<Rightarrow> nat" where
  "digit_val c = of_char c - 48"

lemma digit_val_char [simp]: "d < 10 \<Longrightarrow> digit_val (digit_char d) = d"
  by (simp add: digit_val_def digit_char_def)

lemma show_nat_value: "foldl (\<lambda>a c. 10 * a + digit_val c) 0 (show_nat n) = n"
proof (induction n rule: show_nat.induct)
  case (1 n)
  then show ?case by (subst show_nat.simps) (simp split: if_splits)
qed

lemma show_nat_inj: "show_nat m = show_nat n \<Longrightarrow> m = n"
  by (metis show_nat_value)

end
