(* ===== verification/StringView.thy ===== *)
theory StringView
  imports CStrings "HOL-Library.Sublist"
begin

text \<open>
  The operations of \<open>std::string\<close> and \<open>std::string_view\<close> that the protocol parser uses: a view of
  the first bytes of a buffer, \<open>find\<close> of a character or a string, the trimming idiom of
  \<open>HttpParser::is_complete_message\<close>, and \<open>std::stoul\<close>, which throws on text that is no number. A
  position is a natural number; \<open>npos\<close> is \<open>None\<close>.
\<close>

section \<open>Views and searching\<close>

text \<open>A view longer than the array it looks at reads outside its bounds.\<close>

definition string_view :: "char list \<Rightarrow> nat \<Rightarrow> string res" where
  "string_view buffer n = (if n \<le> length buffer then Inr (take n buffer) else Inl Out_of_bounds)"

lemma string_view_ok [simp]: "n \<le> length buffer \<Longrightarrow> string_view buffer n = Inr (take n buffer)"
  by (simp add: string_view_def)

fun find_sub :: "string \<Rightarrow> string \<Rightarrow> nat option" where
  "find_sub p [] = (if p = [] then Some 0 else None)"
| "find_sub p (c # s) = (if prefix p (c # s) then Some 0 else map_option Suc (find_sub p s))"

definition sv_find :: "string \<Rightarrow> string \<Rightarrow> nat \<Rightarrow> nat option" where
  "sv_find p s pos =
     (if pos \<le> length s then map_option (\<lambda>i. pos + i) (find_sub p (drop pos s)) else None)"

lemma sv_find_0: "sv_find p s 0 = find_sub p s"
  by (cases "find_sub p s") (simp_all add: sv_find_def)

lemma find_sub_prefix: "find_sub p s = Some i \<Longrightarrow> i \<le> length s \<and> prefix p (drop i s)"
  by (induction p s arbitrary: i rule: find_sub.induct) (auto split: if_splits)

lemma find_sub_first: "find_sub p s = Some i \<Longrightarrow> j < i \<Longrightarrow> \<not> prefix p (drop j s)"
proof (induction p s arbitrary: i j rule: find_sub.induct)
  case (2 p c s)
  then show ?case by (cases j) (auto split: if_splits)
qed (simp split: if_splits)

lemma find_sub_bound: "find_sub p s = Some i \<Longrightarrow> i + length p \<le> length s"
  using find_sub_prefix[of p s i] prefix_length_le[of p "drop i s"] by auto

lemma sv_find_bound:
  assumes "sv_find p s pos = Some i" shows "pos \<le> i" and "i + length p \<le> length s" and "prefix p (drop i s)"
proof -
  obtain j where j: "find_sub p (drop pos s) = Some j" "i = pos + j" "pos \<le> length s"
    using assms by (auto simp: sv_find_def split: if_splits)
  show "pos \<le> i" using j by simp
  show "i + length p \<le> length s" using find_sub_bound[OF j(1)] j by simp
  show "prefix p (drop i s)" using find_sub_prefix[OF j(1)] j by (simp add: add.commute)
qed

lemma find_sub_None: "find_sub p s = None \<longleftrightarrow> \<not> sublist p s"
  by (induction p s rule: find_sub.induct) (auto simp: sublist_Cons_right)

lemma find_sub_here: "prefix p s \<Longrightarrow> find_sub p s = Some 0"
  by (cases s) auto

text \<open>A character is found after the part that does not contain it.\<close>

lemma find_char_hit: "c \<notin> set a \<Longrightarrow> find_sub [c] (a @ c # b) = Some (length a)"
  by (induction a) auto

lemma find_char_miss: "c \<notin> set s \<Longrightarrow> find_sub [c] s = None"
  by (simp add: find_sub_None sublist_def) auto

text \<open>Passing over text: nothing starts in \<open>a\<close>.\<close>

lemma find_sub_skip:
  "\<forall>j < length a. \<not> prefix p (drop j (a @ s)) \<Longrightarrow>
   find_sub p (a @ s) = map_option (\<lambda>i. length a + i) (find_sub p s)"
proof (induction a)
  case Nil
  then show ?case by (cases "find_sub p s") auto
next
  case (Cons c a)
  have "\<not> prefix p (c # a @ s)" using Cons.prems by (auto dest: spec[of _ 0])
  moreover have "\<not> prefix p (drop j (a @ s))" if "j < length a" for j
    using Cons.prems that by (auto dest: spec[of _ "Suc j"])
  ultimately show ?case using Cons.IH by (cases "find_sub p s") auto
qed

section \<open>Lines\<close>

abbreviation CR :: char where "CR \<equiv> CHR 0x0D"

definition CRLF :: string where "CRLF = [CR, NL]"

lemma length_CRLF [simp]: "length CRLF = 2"
  by (simp add: CRLF_def)

lemma prefix_start: "prefix (c # p) (drop j s) \<Longrightarrow> c \<in> set s"
  by (metis in_set_dropD list.set_intros(1) set_mono_prefix subsetD)

text \<open>A pattern that starts with a carriage return is not met before the end of a line.\<close>

lemma find_after_line:
  assumes "CR \<notin> set l" and "\<not> prefix p (p0 @ rest)" and "p = CR # NL # q" and "p0 = CRLF"
  shows "find_sub p (l @ CRLF @ rest) = map_option (\<lambda>i. length l + 2 + i) (find_sub p rest)"
proof -
  have "find_sub p (l @ CRLF @ rest) = map_option (\<lambda>i. length l + i) (find_sub p (CRLF @ rest))"
  proof (rule find_sub_skip, intro allI impI)
    fix j assume j: "j < length l"
    then obtain c t where t: "drop j l = c # t" by (cases "drop j l") auto
    with j have "c \<in> set l" by (metis in_set_dropD list.set_intros(1))
    with assms(1) have "c \<noteq> CR" by auto
    with t j assms(3) show "\<not> prefix p (drop j (l @ CRLF @ rest))" by simp
  qed
  also have "find_sub p (CRLF @ rest) = map_option (\<lambda>i. 2 + i) (find_sub p rest)"
    using assms(2-4) by (cases "find_sub p rest") (simp_all add: CRLF_def)
  finally show ?thesis by (cases "find_sub p rest") simp_all
qed

text \<open>A pattern without a carriage return lies within one line.\<close>

lemma prefix_within_line:
  assumes "CR \<notin> set p" and "prefix p (a @ CR # b)"
  shows "prefix p a"
  using assms
proof (induction a arbitrary: p)
  case Nil
  then show ?case by (cases p) auto
next
  case (Cons c a)
  then show ?case by (cases p) auto
qed

lemma find_within_line:
  assumes "CR \<notin> set p" and "p \<noteq> []" and "\<not> sublist p l" and "hd p \<noteq> NL"
  shows "find_sub p (l @ CRLF @ rest) = map_option (\<lambda>i. length l + 2 + i) (find_sub p rest)"
proof -
  have "find_sub p ((l @ CRLF) @ rest) = map_option (\<lambda>i. length (l @ CRLF) + i) (find_sub p rest)"
  proof (rule find_sub_skip, intro allI impI notI)
    fix j assume j: "j < length (l @ CRLF)" and p: "prefix p (drop j ((l @ CRLF) @ rest))"
    consider "j \<le> length l" | "j = Suc (length l)" using j by fastforce
    then show False
    proof cases
      case 1
      then have "prefix p (drop j l @ CR # NL # rest)" using p by (simp add: CRLF_def)
      then have "prefix p (drop j l)" by (rule prefix_within_line[OF assms(1)])
      then have "sublist p (take j l @ drop j l)" by (metis prefix_imp_sublist sublist_append)
      with assms(3) show False by simp
    next
      case 2
      then have "prefix p (NL # rest)" using p by (simp add: CRLF_def)
      with assms(2,4) show False by (cases p) auto
    qed
  qed
  then show ?thesis by simp
qed

section \<open>Trimming and std::stoul\<close>

definition is_blank :: "char \<Rightarrow> bool" where
  "is_blank c = (c = SP \<or> c = CHR 0x09)"

text \<open>
  \<open>s.erase(0, s.find_first_not_of(" \t"))\<close> followed by \<open>s.erase(s.find_last_not_of(" \t") + 1)\<close>.
  When nothing but blanks is left, \<open>find_last_not_of\<close> is \<open>npos\<close>, \<open>npos + 1\<close> is 0, and everything goes.
\<close>

definition trim_blanks :: "string \<Rightarrow> string" where
  "trim_blanks s = rev (dropWhile is_blank (rev (dropWhile is_blank s)))"

lemma dropWhile_keep: "s \<noteq> [] \<Longrightarrow> \<not> P (hd s) \<Longrightarrow> dropWhile P s = s"
  by (cases s) simp_all

lemma trim_blanks_id:
  assumes "s \<noteq> []" and "\<not> is_blank (hd s)" and "\<not> is_blank (last s)"
  shows "trim_blanks s = s"
  using assms dropWhile_keep[of s is_blank] dropWhile_keep[of "rev s" is_blank]
  by (simp add: trim_blanks_def hd_rev)

lemma trim_blanks_lead: "is_blank c \<Longrightarrow> trim_blanks (c # s) = trim_blanks s"
  by (simp add: trim_blanks_def)

definition c_isspace :: "char \<Rightarrow> bool" where
  "c_isspace c = (c = SP \<or> (9 \<le> (of_char c :: nat) \<and> (of_char c :: nat) \<le> 13))"

definition c_isdigit :: "char \<Rightarrow> bool" where
  "c_isdigit c = (48 \<le> (of_char c :: nat) \<and> (of_char c :: nat) \<le> 57)"

definition digits_val :: "string \<Rightarrow> nat" where
  "digits_val ds = foldl (\<lambda>a c. 10 * a + digit_val c) 0 ds"

text \<open>
  Base 10: white space, an optional sign, digits, and anything after them. A minus sign negates the
  value modulo 2 to the 64.
\<close>

definition c_stoul :: "string \<Rightarrow> 64 word res" where
  "c_stoul s =
     (let s1 = dropWhile c_isspace s;
          neg = (s1 \<noteq> [] \<and> hd s1 = CHR ''-'');
          s2 = (if s1 \<noteq> [] \<and> (hd s1 = CHR ''-'' \<or> hd s1 = CHR ''+'') then tl s1 else s1);
          ds = takeWhile c_isdigit s2
      in if ds = [] then Inl (Throws Invalid_argument)
         else if 2 ^ 64 \<le> digits_val ds then Inl (Throws Out_of_range)
         else Inr (if neg then - word_of_nat (digits_val ds) else word_of_nat (digits_val ds)))"

lemma digit_char_isdigit: "d < 10 \<Longrightarrow> c_isdigit (digit_char d)"
  by (simp add: c_isdigit_def digit_char_def)

lemma show_nat_digits: "show_nat n \<noteq> [] \<and> (\<forall>c \<in> set (show_nat n). c_isdigit c)"
proof (induction n rule: show_nat.induct)
  case (1 n)
  then show ?case by (subst (1 2) show_nat.simps) (auto simp: digit_char_isdigit)
qed

lemma isdigit_other:
  assumes "c_isdigit c"
  shows "\<not> c_isspace c" "\<not> is_blank c" "c \<noteq> CHR ''-''" "c \<noteq> CHR ''+''" "c \<noteq> CR" "c \<noteq> NL" "c \<noteq> SP"
  using assms by (auto simp: c_isdigit_def c_isspace_def is_blank_def)

lemma stoul_show_nat: "n < 2 ^ 64 \<Longrightarrow> c_stoul (show_nat n) = Inr (word_of_nat n)"
proof -
  assume n: "n < 2 ^ 64"
  note ds = show_nat_digits[of n]
  have h: "c_isdigit (hd (show_nat n))" using ds by simp
  have "takeWhile c_isdigit (show_nat n) = show_nat n" using ds by (simp add: takeWhile_eq_all_conv)
  moreover have "dropWhile c_isspace (show_nat n) = show_nat n"
    using ds isdigit_other(1)[OF h] by (cases "show_nat n") auto
  ultimately show "c_stoul (show_nat n) = Inr (word_of_nat n)"
    using ds n isdigit_other(3,4)[OF h] by (simp add: c_stoul_def digits_val_def show_nat_value Let_def del: takeWhile_eq_all_conv)
qed

lemma trim_show_nat: "trim_blanks (SP # show_nat n) = show_nat n"
proof -
  note ds = show_nat_digits[of n]
  then have "\<not> is_blank (hd (show_nat n))" "\<not> is_blank (last (show_nat n))"
    using isdigit_other(2) by simp_all
  with ds show ?thesis by (simp add: trim_blanks_lead trim_blanks_id is_blank_def[of SP])
qed

end
