(* ===== verification/HttpParser.thy ===== *)
theory HttpParser
  imports StringView
begin

text \<open>
  The HTTP parser, \<open>network/protocol_parser/protocol_parser.{h,cpp}\<close>, and the request object it
  builds, \<open>network/connect_info/Request.h\<close>. A \<open>char *\<close> into the read buffer is the offset into the
  buffer, null is \<open>None\<close>. Sizes are compared as the 64-bit \<open>size_t\<close> they are. The locale
  \<open>protocol_parser\<close> is the interface \<open>ProtocolParser\<close> with what \<open>ConnectionInfo\<close> relies on; it is
  interpreted on \<open>HttpParser\<close>. The last section relates the parser to rendered requests.
\<close>

section \<open>Requests\<close>

record REquest =
  rq_data :: "nat option"
  rq_method :: string
  rq_base_version :: string

text \<open>\<open>HttpRequest\<close> declares a second \<open>_version\<close>, which hides the one of its base class.\<close>

record HttpRequest = REquest +
  http_url :: string
  http_version :: string
  http_headers :: "(string \<times> string) list"

definition get_key_URL :: "HttpRequest \<Rightarrow> string" where
  "get_key_URL r = rq_method r @ http_url r"

section \<open>The member functions of HttpParser\<close>

datatype ParseResult = NEEED_MORE_DATA | COMPLETE

definition CRLF2 :: string where "CRLF2 = CRLF @ CRLF"

definition CONTENT_LENGTH :: string where "CONTENT_LENGTH = ''Content-Length:''"

definition is_complete_message :: "char list \<Rightarrow> nat \<Rightarrow> ParseResult res" where
  "is_complete_message buffer buffer_size =
     (if buffer_size = 0 then Inr NEEED_MORE_DATA
      else bind_res (string_view buffer buffer_size) (\<lambda>request.
        case sv_find CRLF2 request 0 of
          None \<Rightarrow> Inr NEEED_MORE_DATA
        | Some headers_end \<Rightarrow>
            (case sv_find CONTENT_LENGTH request 0 of
               None \<Rightarrow> Inr COMPLETE
             | Some content_length_pos \<Rightarrow>
                 if \<not> content_length_pos < headers_end then Inr COMPLETE
                 else case sv_find CRLF request content_length_pos of
                   None \<Rightarrow> Inr COMPLETE
                 | Some content_length_end \<Rightarrow>
                     bind_res (c_stoul (trim_blanks
                         (take (content_length_end - (content_length_pos + 15))
                           (drop (content_length_pos + 15) request)))) (\<lambda>content_len.
                       if (word_of_nat buffer_size :: 64 word) \<ge> word_of_nat headers_end + 4 + content_len
                       then Inr COMPLETE else Inr NEEED_MORE_DATA))))"

definition Head :: "char list \<Rightarrow> nat \<Rightarrow> nat option res" where
  "Head buffer bufferSize =
     bind_res (string_view buffer bufferSize) (\<lambda>request.
       Inr (case sv_find CRLF2 request 0 of Some _ \<Rightarrow> Some 0 | None \<Rightarrow> None))"

definition Data :: "char list \<Rightarrow> nat \<Rightarrow> nat option res" where
  "Data buffer bufferSize =
     bind_res (string_view buffer bufferSize) (\<lambda>request.
       Inr (case sv_find CRLF2 request 0 of Some headers_end \<Rightarrow> Some (headers_end + 4) | None \<Rightarrow> None))"

definition Method :: "char list \<Rightarrow> nat \<Rightarrow> string res" where
  "Method buffer bufferSize =
     bind_res (string_view buffer bufferSize) (\<lambda>request.
       Inr (case sv_find [SP] request 0 of Some method_end \<Rightarrow> take method_end request | None \<Rightarrow> []))"

definition URL :: "char list \<Rightarrow> nat \<Rightarrow> string res" where
  "URL buffer bufferSize =
     bind_res (string_view buffer bufferSize) (\<lambda>request.
       Inr (case sv_find [SP] request 0 of
              None \<Rightarrow> []
            | Some method_end \<Rightarrow>
                (case sv_find [SP] request (method_end + 1) of
                   None \<Rightarrow> []
                 | Some url_end \<Rightarrow> take (url_end - method_end - 1) (drop (method_end + 1) request))))"

definition HttpParser_parse :: "char list \<Rightarrow> nat \<Rightarrow> bool res" where
  "HttpParser_parse buffer bufferSize =
     bind_res (is_complete_message buffer bufferSize) (\<lambda>result.
       if result = NEEED_MORE_DATA then Inr False else Inr True)"

definition HttpParser_handle :: "char list \<Rightarrow> nat \<Rightarrow> HttpRequest res" where
  "HttpParser_handle buffer bufferSize =
     bind_res (Method buffer bufferSize) (\<lambda>method.
       bind_res (URL buffer bufferSize) (\<lambda>url.
         bind_res (Data buffer bufferSize) (\<lambda>data.
           Inr \<lparr>rq_data = data, rq_method = method, rq_base_version = [],
                http_url = url, http_version = ''HTTP/1.1'', http_headers = []\<rparr>)))"

lemmas member_defs = Head_def Data_def Method_def URL_def HttpParser_handle_def

text \<open>
  The length field is never cut at a negative length, and \<open>substr\<close> never starts past the end: the
  name of the field contains no carriage return, so the line ends after it.
\<close>

lemma content_length_span:
  assumes "sv_find CONTENT_LENGTH s 0 = Some p" and "sv_find CRLF s p = Some e"
  shows "p + 15 \<le> e" and "p + 15 \<le> length s"
proof -
  have "length CONTENT_LENGTH = 15" by (simp add: CONTENT_LENGTH_def)
  with sv_find_bound(2)[OF assms(1)] show "p + 15 \<le> length s" by simp
  have pe: "p \<le> e" by (rule sv_find_bound(1)[OF assms(2)])
  have "prefix CONTENT_LENGTH (drop p s)" by (rule sv_find_bound(3)[OF assms(1)])
  then obtain t where t: "drop p s = CONTENT_LENGTH @ t" by (auto simp: prefix_def)
  have "prefix CRLF (drop e s)" by (rule sv_find_bound(3)[OF assms(2)])
  moreover have "drop e s = drop (e - p) (drop p s)" using pe by simp
  ultimately have c: "prefix CRLF (drop (e - p) (CONTENT_LENGTH @ t))" by (simp add: t)
  show "p + 15 \<le> e"
  proof (rule ccontr)
    assume "\<not> p + 15 \<le> e"
    then have lt: "e - p < length CONTENT_LENGTH" by (simp add: CONTENT_LENGTH_def)
    then have "drop (e - p) (CONTENT_LENGTH @ t) = CONTENT_LENGTH ! (e - p) # drop (Suc (e - p)) CONTENT_LENGTH @ t"
      by (simp add: Cons_nth_drop_Suc)
    with c have "CONTENT_LENGTH ! (e - p) = CR" by (simp add: CRLF_def)
    with nth_mem[OF lt] have "CR \<in> set CONTENT_LENGTH" by simp
    then show False by (simp add: CONTENT_LENGTH_def)
  qed
qed

section \<open>The interface of protocol parsers\<close>

text \<open>
  What \<open>ConnectionInfo::convert_request\<close> relies on: a parser looks at no more than the bytes it is
  told of; \<open>handle\<close> does not throw; and after a successful \<open>parse\<close> the request that \<open>handle\<close> builds
  points into the message.
\<close>

locale protocol_parser =
  fixes parse :: "char list \<Rightarrow> nat \<Rightarrow> bool res"
    and handle :: "char list \<Rightarrow> nat \<Rightarrow> 'r res"
    and data :: "'r \<Rightarrow> nat option"
  assumes parse_view: "n \<le> length b \<Longrightarrow> parse b n = parse (take n b) n"
    and handle_view: "n \<le> length b \<Longrightarrow> handle b n = handle (take n b) n"
    and handle_returns: "n \<le> length b \<Longrightarrow> returns (handle b n)"
    and handle_data: "n \<le> length b \<Longrightarrow> parse b n = Inr True \<Longrightarrow> handle b n = Inr r \<Longrightarrow>
      \<exists>d \<le> n. data r = Some d"
begin

text \<open>Two buffers that agree on the bytes of the message give the same request.\<close>

lemma same_message:
  assumes "n \<le> length b" and "n \<le> length c" and "take n b = take n c"
  shows "parse b n = parse c n" and "handle b n = handle c n"
  using assms parse_view[of n b] parse_view[of n c] handle_view[of n b] handle_view[of n c] by simp_all

lemma parsed_request:
  assumes "n \<le> length b" and "parse b n = Inr True"
  shows "\<exists>r d. handle b n = Inr r \<and> data r = Some d \<and> d \<le> n"
proof -
  obtain r where "handle b n = Inr r" using handle_returns[OF assms(1)] by (auto simp: returns_iff)
  with handle_data[OF assms this] show ?thesis by blast
qed

end

lemma complete_has_end:
  assumes "n \<le> length b" and "is_complete_message b n = Inr COMPLETE"
  shows "\<exists>e. sv_find CRLF2 (take n b) 0 = Some e"
  using assms by (cases "sv_find CRLF2 (take n b) 0") (auto simp: is_complete_message_def split: if_splits)

interpretation http: protocol_parser HttpParser_parse HttpParser_handle rq_data
proof unfold_locales
  fix n and b :: "char list"
  assume n: "n \<le> length b"
  show "HttpParser_parse b n = HttpParser_parse (take n b) n"
    using n by (simp add: HttpParser_parse_def is_complete_message_def)
  show "HttpParser_handle b n = HttpParser_handle (take n b) n"
    using n by (simp add: member_defs)
  show "returns (HttpParser_handle b n)"
    using n by (simp add: member_defs)
  fix r assume "HttpParser_parse b n = Inr True" and r: "HttpParser_handle b n = Inr r"
  then have "is_complete_message b n = Inr COMPLETE"
    by (auto simp: HttpParser_parse_def bind_res_eq_Inr split: if_splits) (metis ParseResult.exhaust)
  then obtain e where e: "sv_find CRLF2 (take n b) 0 = Some e" using complete_has_end[OF n] by blast
  have "e + 4 \<le> n" using sv_find_bound(2)[OF e] n by (simp add: CRLF2_def)
  with r e n show "\<exists>d \<le> n. rq_data r = Some d" by (auto simp: member_defs)
qed

end
