(* ===== verification/RouterMap.thy ===== *)
theory RouterMap
  imports StdMap HttpParser "HOL-Library.List_Lexorder" "HOL-Library.Char_ord"
begin

text \<open>
  The three tables of the server that are \<open>std::map\<close>s: the routes of \<open>task_and_router/Router.h\<close>, the
  parser registry of \<open>network/protocol_parser\<close>, and the pair \<open>http_method_Url\<close> declared for routing.
  The comparison functions of the source become instances of \<open>linorder\<close>, and the locale \<open>map_order\<close>
  is interpreted on each. Strings compare byte by byte as unsigned characters.
\<close>

section \<open>The comparison functions\<close>

datatype router = Router (router_key: string)

definition router_lt :: "router \<Rightarrow> router \<Rightarrow> bool" where
  "router_lt a b = (if router_key a \<noteq> router_key b then router_key a < router_key b else False)"

instantiation router :: linorder
begin

definition less_router :: "router \<Rightarrow> router \<Rightarrow> bool" where
  "less_router a b = router_lt a b"

definition less_eq_router :: "router \<Rightarrow> router \<Rightarrow> bool" where
  "less_eq_router a b = (a = b \<or> a < b)"

instance
  by standard (auto simp: less_router_def router_lt_def less_eq_router_def intro: router.expand split: if_splits)

end

datatype http_method_Url = Http_method_Url (mu_method: string) (mu_url: string)

definition http_method_Url_lt :: "http_method_Url \<Rightarrow> http_method_Url \<Rightarrow> bool" where
  "http_method_Url_lt a b =
     (if mu_method a \<noteq> mu_method b then mu_method a < mu_method b else mu_url a < mu_url b)"

instantiation http_method_Url :: linorder
begin

definition less_http_method_Url :: "http_method_Url \<Rightarrow> http_method_Url \<Rightarrow> bool" where
  "less_http_method_Url a b = http_method_Url_lt a b"

definition less_eq_http_method_Url :: "http_method_Url \<Rightarrow> http_method_Url \<Rightarrow> bool" where
  "less_eq_http_method_Url a b = (a = b \<or> a < b)"

instance
  by standard
    (auto simp: less_http_method_Url_def http_method_Url_lt_def less_eq_http_method_Url_def intro: http_method_Url.expand split: if_splits)

end

interpretation router_map: map_order "(<) :: router \<Rightarrow> router \<Rightarrow> bool"
  by unfold_locales auto

interpretation method_url_map: map_order "(<) :: http_method_Url \<Rightarrow> http_method_Url \<Rightarrow> bool"
  by unfold_locales auto

interpretation string_map: map_order "(<) :: string \<Rightarrow> string \<Rightarrow> bool"
  by unfold_locales auto

section \<open>Router\<close>

text \<open>A \<open>std::function\<close> value is a handler, or empty (\<open>nullptr\<close>).\<close>

definition register_router ::
  "string \<Rightarrow> 'h \<Rightarrow> (router, 'h) std_map \<Rightarrow> (router, 'h) std_map" where
  "register_router key_URL conn router_map = map_assign (<) (Router key_URL) conn router_map"

definition get_handler :: "string \<Rightarrow> (router, 'h) std_map \<Rightarrow> 'h option" where
  "get_handler key_URL router_map = map_find (<) (Router key_URL) router_map"

section \<open>parserFactory\<close>

text \<open>The classes that can be registered, and the calls through the base class.\<close>

datatype parser_class = HttpParser_class

fun parser_parse :: "parser_class \<Rightarrow> char list \<Rightarrow> nat \<Rightarrow> bool res" where
  "parser_parse HttpParser_class = HttpParser_parse"

fun parser_handle :: "parser_class \<Rightarrow> char list \<Rightarrow> nat \<Rightarrow> HttpRequest res" where
  "parser_handle HttpParser_class = HttpParser_handle"

interpretation parsers: protocol_parser "parser_parse p" "parser_handle p" rq_data for p
  by (cases p) (simp add: http.protocol_parser_axioms)

definition max_signature_length :: nat where
  "max_signature_length = 20"

definition register_parser ::
  "string \<Rightarrow> 'p \<Rightarrow> (string, 'p) std_map \<Rightarrow> (string, 'p) std_map" where
  "register_parser protocol_name creator registry_map = map_assign (<) protocol_name creator registry_map"

fun match_prefix :: "(string, 'p) std_map \<Rightarrow> char list \<Rightarrow> nat \<Rightarrow> 'p option res" where
  "match_prefix registry_map buffer 0 = Inr None"
| "match_prefix registry_map buffer (Suc n) =
     bind_res (string_view buffer (Suc n)) (\<lambda>prefix.
       case map_find (<) prefix registry_map of
         Some creator \<Rightarrow> Inr (Some creator)
       | None \<Rightarrow> match_prefix registry_map buffer n)"

definition get_parser :: "(string, 'p) std_map \<Rightarrow> char list \<Rightarrow> nat \<Rightarrow> 'p option res" where
  "get_parser registry_map buffer bufferSize =
     (if bufferSize = 0 then Inr None
      else match_prefix registry_map buffer (min bufferSize max_signature_length))"

text \<open>
  The macros declare a static object whose constructor registers. These objects are built before
  \<open>main\<close>, in the order of their declarations.
\<close>

definition REGISTER_PARSER :: "string \<Rightarrow> 'p \<Rightarrow> (string, 'p) std_map \<Rightarrow> (string, 'p) std_map" where
  [simp]: "REGISTER_PARSER name creator registry = register_parser name creator registry"

definition REGISTER_HTTP_TASK :: "string \<Rightarrow> 'h \<Rightarrow> (router, 'h) std_map \<Rightarrow> (router, 'h) std_map" where
  [simp]: "REGISTER_HTTP_TASK key_URL handler routes = register_router key_URL handler routes"

definition registered_parsers :: "(string, parser_class) std_map" where
  "registered_parsers =
     REGISTER_PARSER ''GET'' HttpParser_class (REGISTER_PARSER ''POST'' HttpParser_class [])"

lemma registered_parsers_eq:
  "registered_parsers = [(''GET'', HttpParser_class), (''POST'', HttpParser_class)]"
  by (simp add: registered_parsers_def register_parser_def less_char_def)

lemma match_prefix_spec:
  assumes "n \<le> length b"
  shows "\<exists>r. match_prefix reg b n = Inr r \<and>
    (case r of
       None \<Rightarrow> \<forall>k. 0 < k \<and> k \<le> n \<longrightarrow> map_find (<) (take k b) reg = None
     | Some p \<Rightarrow> \<exists>k. 0 < k \<and> k \<le> n \<and> map_find (<) (take k b) reg = Some p \<and>
         (\<forall>j. k < j \<and> j \<le> n \<longrightarrow> map_find (<) (take j b) reg = None))"
  using assms
proof (induction n)
  case (Suc n)
  show ?case
  proof (cases "map_find (<) (take (Suc n) b) reg")
    case (Some p)
    with Suc.prems show ?thesis by (intro exI[of _ "Some p"]) (auto intro!: exI[of _ "Suc n"])
  next
    case None
    obtain r where r: "match_prefix reg b n = Inr r"
      "case r of
         None \<Rightarrow> \<forall>k. 0 < k \<and> k \<le> n \<longrightarrow> map_find (<) (take k b) reg = None
       | Some p \<Rightarrow> \<exists>k. 0 < k \<and> k \<le> n \<and> map_find (<) (take k b) reg = Some p \<and>
           (\<forall>j. k < j \<and> j \<le> n \<longrightarrow> map_find (<) (take j b) reg = None)"
      using Suc by auto
    show ?thesis
    proof (intro exI[of _ r] conjI)
      show "match_prefix reg b (Suc n) = Inr r" using None r(1) Suc.prems by simp
      show "case r of
         None \<Rightarrow> \<forall>k. 0 < k \<and> k \<le> Suc n \<longrightarrow> map_find (<) (take k b) reg = None
       | Some p \<Rightarrow> \<exists>k. 0 < k \<and> k \<le> Suc n \<and> map_find (<) (take k b) reg = Some p \<and>
           (\<forall>j. k < j \<and> j \<le> Suc n \<longrightarrow> map_find (<) (take j b) reg = None)"
        using r(2) None by (cases r) (auto simp: le_Suc_eq)
    qed
  qed
qed simp

text \<open>A registered name at the start of the message is found, and only then a parser is.\<close>

lemma get_parser_registered:
  assumes "n \<le> length b"
  shows "get_parser registered_parsers b n =
    Inr (if prefix ''GET'' (take n b) \<or> prefix ''POST'' (take n b) then Some HttpParser_class else None)"
proof -
  let ?m = "min n max_signature_length"
  have find: "map_find (<) k registered_parsers =
      (if k = ''GET'' \<or> k = ''POST'' then Some HttpParser_class else None)" for k
    using string_map.find_assigns[of "[]" k "[(''POST'', HttpParser_class), (''GET'', HttpParser_class)]"]
    by (simp add: registered_parsers_def register_parser_def)
  have pre: "(\<exists>k. 0 < k \<and> k \<le> ?m \<and> take k b = p) \<longleftrightarrow> prefix p (take n b)"
    if "p = ''GET'' \<or> p = ''POST''" for p
  proof
    assume "\<exists>k. 0 < k \<and> k \<le> ?m \<and> take k b = p"
    then show "prefix p (take n b)" by (metis min.bounded_iff take_is_prefix take_take min.absorb1)
  next
    assume pr: "prefix p (take n b)"
    then have "take (length p) b = p" "length p \<le> n"
      by (metis append_eq_conv_conj prefix_def take_take min.absorb1 prefix_length_le length_take min.bounded_iff)
        (metis pr prefix_length_le length_take min.bounded_iff)
    moreover have "0 < length p" "length p \<le> max_signature_length" using that by (auto simp: max_signature_length_def)
    ultimately show "\<exists>k. 0 < k \<and> k \<le> ?m \<and> take k b = p" by (intro exI[of _ "length p"]) simp
  qed
  have m: "?m \<le> length b" using assms by simp
  from match_prefix_spec[OF m, of registered_parsers] obtain r where r:
    "match_prefix registered_parsers b ?m = Inr r"
    "case r of
       None \<Rightarrow> \<forall>k. 0 < k \<and> k \<le> ?m \<longrightarrow> map_find (<) (take k b) registered_parsers = None
     | Some p \<Rightarrow> \<exists>k. 0 < k \<and> k \<le> ?m \<and> map_find (<) (take k b) registered_parsers = Some p \<and>
         (\<forall>j. k < j \<and> j \<le> ?m \<longrightarrow> map_find (<) (take j b) registered_parsers = None)" by blast
  show ?thesis
  proof (cases r)
    case None
    with r(2) find pre[of "''GET''"] pre[of "''POST''"] have
      "\<not> prefix ''GET'' (take n b)" "\<not> prefix ''POST'' (take n b)" by fastforce+
    with None r(1) show ?thesis by (simp add: get_parser_def)
  next
    case (Some p)
    with r(2) obtain k where k: "0 < k" "k \<le> ?m" "map_find (<) (take k b) registered_parsers = Some p" by auto
    then have "take k b = ''GET'' \<or> take k b = ''POST''" using find by (metis option.distinct(1))
    with k pre[of "''GET''"] pre[of "''POST''"] have "prefix ''GET'' (take n b) \<or> prefix ''POST'' (take n b)" by blast
    moreover have "n \<noteq> 0" using k by simp
    moreover have "p = HttpParser_class" by (cases p)
    ultimately show ?thesis using Some r(1) by (simp add: get_parser_def)
  qed
qed

section \<open>Properties\<close>

text \<open>C27. Whatever has been registered in whatever order, \<open>get_parser\<close> returns the latest registration
  of the longest prefix of the message, among those of 1 to 20 bytes, that is a registered name, and
  no parser when none is.\<close>

theorem parser_longest_prefix:
  assumes "n \<le> length b" and "reg = fold (\<lambda>(name, p). register_parser name p) regs []"
  shows "\<exists>r. get_parser reg b n = Inr r \<and>
    (case r of
       None \<Rightarrow> \<forall>k. 0 < k \<and> k \<le> min n 20 \<longrightarrow> map_of (rev regs) (take k b) = None
     | Some p \<Rightarrow> \<exists>k. 0 < k \<and> k \<le> min n 20 \<and> map_of (rev regs) (take k b) = Some p \<and>
         (\<forall>j. k < j \<and> j \<le> min n 20 \<longrightarrow> map_of (rev regs) (take j b) = None))"
proof -
  have find: "map_find (<) k reg = map_of (rev regs) k" for k
    using string_map.find_assigns[of "[]" k regs] unfolding assms(2) register_parser_def
    by (cases "map_of (rev regs) k") simp_all
  show ?thesis
  proof (cases "n = 0")
    case True
    then show ?thesis by (intro exI[of _ None]) (simp add: get_parser_def)
  next
    case False
    have "min n 20 \<le> length b" using assms(1) by simp
    with False match_prefix_spec[of "min n 20" b reg, unfolded find] show ?thesis
      by (simp add: get_parser_def max_signature_length_def)
  qed
qed

theorem parser_longest_prefix_witness:
  "get_parser (fold (\<lambda>(name, p). register_parser name p) [(''POST'', 3 :: nat), (''GET'', 2), (''GE'', 1)] [])
     ''GET'' 3 = Inr (Some 2)"
proof -
  let ?regs = "[(''POST'', 3 :: nat), (''GET'', 2), (''GE'', 1)]" and ?b = "''GET''"
  let ?reg = "fold (\<lambda>(name, p). register_parser name p) ?regs []"
  have "3 \<le> length ?b" by simp
  from parser_longest_prefix[OF this refl, of ?regs] obtain r where r: "get_parser ?reg ?b 3 = Inr r"
    "case r of
       None \<Rightarrow> \<forall>k. 0 < k \<and> k \<le> min 3 20 \<longrightarrow> map_of (rev ?regs) (take k ?b) = None
     | Some p \<Rightarrow> \<exists>k. 0 < k \<and> k \<le> min 3 20 \<and> map_of (rev ?regs) (take k ?b) = Some p \<and>
         (\<forall>j. k < j \<and> j \<le> min 3 20 \<longrightarrow> map_of (rev ?regs) (take j ?b) = None)" by blast
  have g: "map_of (rev ?regs) (take 3 ?b) = Some 2" by simp
  have "r = Some 2"
  proof (cases r)
    case None
    with r(2) g show ?thesis by (auto dest: spec[of _ 3])
  next
    case (Some p)
    with r(2) obtain k where k: "k \<le> 3" "map_of (rev ?regs) (take k ?b) = Some p"
      "\<forall>j. k < j \<and> j \<le> 3 \<longrightarrow> map_of (rev ?regs) (take j ?b) = None" by auto
    have "\<not> k < 3" using k(3) g by (auto dest!: spec[of _ 3])
    with k(1) have "k = 3" by simp
    with k(2) g Some show ?thesis by simp
  qed
  with r(1) show ?thesis by simp
qed

text \<open>The router answers a key with the handler registered last under exactly that key, and with
  null for every other key.\<close>

theorem router_last_registration:
  "get_handler key (fold (\<lambda>(k, h). register_router k h) regs []) = map_of (rev regs) key"
proof -
  have "fold (\<lambda>(k, h). register_router k h) regs xs =
      fold (\<lambda>(k, h). map_assign (<) k h) (map (\<lambda>(k, h). (Router k, h)) regs) xs" for xs
    by (induction regs arbitrary: xs) (auto simp: register_router_def)
  moreover have "map_of (rev (map (\<lambda>(k, h). (Router k, h)) regs)) (Router key) = map_of (rev regs) key"
    by (induction regs) (auto simp: map_add_def split: option.splits)
  ultimately show ?thesis
    using router_map.find_assigns[of "[]" "Router key" "map (\<lambda>(k, h). (Router k, h)) regs"]
    by (cases "map_of (rev regs) key") (simp_all add: get_handler_def)
qed

end
