(* ===== verification/HttpRender.thy ===== *)
theory HttpRender
  imports HttpParser
begin

text \<open>
  What \<open>HttpParser\<close> computes on rendered requests: a head of lines, each closed by a line break, an
  empty line, and a body. The lemmas locate the end of the head and the length field in it; the
  properties give the framing (when a message counts as complete), the fields of the request that
  is built, and what unusual length fields do.
\<close>

section \<open>Rendering\<close>

definition line_ok :: "string \<Rightarrow> bool" where
  "line_ok l = (l \<noteq> [] \<and> CR \<notin> set l)"

definition lines_text :: "string list \<Rightarrow> string" where
  "lines_text ls = concat (map (\<lambda>l. l @ CRLF) ls)"

definition head_text :: "string list \<Rightarrow> string" where
  "head_text ls = lines_text ls @ CRLF"

definition request_line :: "string \<Rightarrow> string \<Rightarrow> string \<Rightarrow> string" where
  "request_line meth url version = meth @ SP # url @ SP # version"

definition length_field :: "string \<Rightarrow> string" where
  "length_field v = CONTENT_LENGTH @ v"

lemma view_nonempty: "take n b = head_text ls @ rest \<Longrightarrow> n \<noteq> 0"
  by (cases n) (simp_all add: head_text_def CRLF_def)

lemma lines_text_simps [simp]:
  "lines_text [] = []" "lines_text (l # ls) = l @ CRLF @ lines_text ls"
  "lines_text (ls @ ms) = lines_text ls @ lines_text ms"
  by (simp_all add: lines_text_def)

lemma length_head_text: "length (head_text ls) = length (lines_text ls) + 2"
  by (simp add: head_text_def)

lemma CR_notin_field [simp]: "CR \<notin> set CONTENT_LENGTH" "CONTENT_LENGTH \<noteq> []" "hd CONTENT_LENGTH \<noteq> NL"
  "length CONTENT_LENGTH = 15"
  by (simp_all add: CONTENT_LENGTH_def)

section \<open>Finding the parts\<close>

lemma head_end:
  assumes "ls \<noteq> []" and "\<forall>l \<in> set ls. line_ok l"
  shows "find_sub CRLF2 (head_text ls @ rest) = Some (length (lines_text ls) - 2)"
  using assms
proof (induction ls)
  case (Cons l ls)
  have l: "CR \<notin> set l" using Cons.prems(2) by (simp add: line_ok_def)
  have skip: "find_sub CRLF2 (l @ CRLF @ t) = map_option (\<lambda>i. length l + i) (find_sub CRLF2 (CRLF @ t))" for t
  proof (rule find_sub_skip, intro allI impI)
    fix j assume j: "j < length l"
    then obtain c u where u: "drop j l = c # u" by (cases "drop j l") auto
    with l have "c \<noteq> CR" by (metis in_set_dropD list.set_intros(1))
    with u j show "\<not> prefix CRLF2 (drop j (l @ CRLF @ t))" by (simp add: CRLF2_def CRLF_def)
  qed
  show ?case
  proof (cases ls)
    case Nil
    with skip[of "CRLF @ rest"] show ?thesis
      by (simp add: head_text_def CRLF2_def find_sub_here)
  next
    case (Cons l' ls')
    then have l': "line_ok l'" using Cons.prems(2) by simp
    then obtain c u where "l' = c # u" "c \<noteq> CR" by (cases l') (auto simp: line_ok_def)
    then have "\<not> prefix CRLF2 (CRLF @ head_text ls @ rest)"
      using Cons by (simp add: CRLF2_def CRLF_def head_text_def)
    then have "find_sub CRLF2 (l @ CRLF @ head_text ls @ rest) =
        map_option (\<lambda>i. length l + 2 + i) (find_sub CRLF2 (head_text ls @ rest))"
      by (intro find_after_line[OF l, where q = CRLF and ?p0.0 = CRLF]) (simp_all add: CRLF2_def CRLF_def)
    moreover have "2 \<le> length (lines_text ls)" by (simp add: Cons)
    ultimately show ?thesis using Cons.IH Cons.prems(2) Cons by (simp add: head_text_def)
  qed
qed simp

lemma no_field_in_lines:
  assumes "\<forall>l \<in> set ls. \<not> sublist CONTENT_LENGTH l"
  shows "find_sub CONTENT_LENGTH (lines_text ls @ rest) =
    map_option (\<lambda>i. length (lines_text ls) + i) (find_sub CONTENT_LENGTH rest)"
  using assms
proof (induction ls)
  case Nil
  then show ?case by (cases "find_sub CONTENT_LENGTH rest") simp_all
next
  case (Cons l ls)
  have "find_sub CONTENT_LENGTH (l @ CRLF @ lines_text ls @ rest) =
      map_option (\<lambda>i. length l + 2 + i) (find_sub CONTENT_LENGTH (lines_text ls @ rest))"
    using Cons.prems by (intro find_within_line) simp_all
  with Cons show ?case by (cases "find_sub CONTENT_LENGTH rest") simp_all
qed

lemma field_found:
  assumes "\<forall>l \<in> set pre. \<not> sublist CONTENT_LENGTH l"
  shows "find_sub CONTENT_LENGTH (head_text (pre @ length_field v # post) @ rest) = Some (length (lines_text pre))"
proof -
  have "find_sub CONTENT_LENGTH (length_field v @ t) = Some 0" for t
    by (intro find_sub_here) (simp add: length_field_def)
  with no_field_in_lines[OF assms] show ?thesis by (simp add: head_text_def)
qed

lemma line_end: "CR \<notin> set l \<Longrightarrow> find_sub CRLF (l @ CRLF @ rest) = Some (length l)"
proof (induction l)
  case Nil
  show ?case using find_sub_here[of CRLF "CRLF @ rest"] by simp
next
  case (Cons c l)
  then have "\<not> prefix CRLF (c # l @ CRLF @ rest)" by (auto simp: CRLF_def)
  with Cons show ?case by simp
qed

section \<open>The completeness test on a rendered head\<close>

lemma complete_with_field:
  assumes view: "take n b = head_text (pre @ length_field v # post) @ rest" and n: "n \<le> length b"
    and ok: "\<forall>l \<in> set (pre @ length_field v # post). line_ok l"
    and pre: "\<forall>l \<in> set pre. \<not> sublist CONTENT_LENGTH l"
  shows "is_complete_message b n =
    bind_res (c_stoul (trim_blanks v)) (\<lambda>len.
      Inr (if (word_of_nat n :: 64 word) \<ge>
             word_of_nat (length (lines_text (pre @ length_field v # post)) - 2) + 4 + len
           then COMPLETE else NEEED_MORE_DATA))"
proof -
  let ?ls = "pre @ length_field v # post" and ?p = "length (lines_text pre)"
  have v: "CR \<notin> set (length_field v)" using ok by (simp add: line_ok_def)
  have n0: "n \<noteq> 0" by (rule view_nonempty[OF view])
  have e: "sv_find CRLF2 (take n b) 0 = Some (length (lines_text ?ls) - 2)"
    unfolding sv_find_0 view by (rule head_end) (use ok in auto)
  have p: "sv_find CONTENT_LENGTH (take n b) 0 = Some ?p"
    unfolding sv_find_0 view by (rule field_found[OF pre])
  have d: "drop ?p (take n b) = length_field v @ CRLF @ lines_text post @ CRLF @ rest"
    unfolding view by (simp add: head_text_def)
  have pl: "?p \<le> length (take n b)" unfolding view by (simp add: head_text_def)
  have l: "sv_find CRLF (take n b) ?p = Some (?p + length (length_field v))"
    using pl unfolding sv_find_def d line_end[OF v] by simp
  have field: "take (?p + length (length_field v) - (?p + 15)) (drop (?p + 15) (take n b)) = v"
  proof -
    have "drop (?p + 15) (take n b) = drop 15 (drop ?p (take n b))" by (simp add: add.commute)
    then show ?thesis unfolding d by (simp add: length_field_def)
  qed
  have lt: "?p < length (lines_text ?ls) - 2" by (simp add: length_field_def)
  have view': "string_view b n = Inr (take n b)" using n by simp
  show ?thesis
    unfolding is_complete_message_def view' bind_res_Inr e p l option.case field
    using n0 lt by (simp del: lines_text_simps)
      (cases "c_stoul (trim_blanks v)", simp_all)
qed

lemma complete_without_field:
  assumes view: "take n b = head_text ls @ rest" and n: "n \<le> length b" and ls: "ls \<noteq> []"
    and ok: "\<forall>l \<in> set ls. line_ok l \<and> \<not> sublist CONTENT_LENGTH l"
  shows "is_complete_message b n = Inr COMPLETE"
proof -
  have n0: "n \<noteq> 0" by (rule view_nonempty[OF view])
  have e: "sv_find CRLF2 (take n b) 0 = Some (length (lines_text ls) - 2)"
    unfolding sv_find_0 view by (rule head_end[OF ls]) (use ok in auto)
  have "\<not> p < length (lines_text ls) - 2" if "sv_find CONTENT_LENGTH (take n b) 0 = Some p" for p
    using that no_field_in_lines[of ls "CRLF @ rest"] ok
    unfolding sv_find_0 view by (auto simp: head_text_def)
  with n0 n e show ?thesis
    by (cases "sv_find CONTENT_LENGTH (take n b) 0") (simp_all add: is_complete_message_def)
qed

text \<open>Nothing shorter than the head contains its end.\<close>

lemma head_cut:
  assumes "ls \<noteq> []" and "\<forall>l \<in> set ls. line_ok l" and "k < length (head_text ls)"
  shows "find_sub CRLF2 (take k (head_text ls @ rest)) = None"
proof (rule ccontr)
  assume "find_sub CRLF2 (take k (head_text ls @ rest)) \<noteq> None"
  then obtain i where i: "find_sub CRLF2 (take k (head_text ls @ rest)) = Some i" by blast
  let ?s = "head_text ls @ rest"
  have b: "i + 4 \<le> k" using find_sub_bound[OF i] assms(3) by (simp add: CRLF2_def)
  have "prefix CRLF2 (drop i (take k ?s))" using find_sub_prefix[OF i] by simp
  then have "prefix CRLF2 (drop i ?s)"
    by (metis append_take_drop_id drop_append prefix_prefix)
  moreover have "find_sub CRLF2 ?s = Some (length (lines_text ls) - 2)" by (rule head_end[OF assms(1,2)])
  ultimately have "\<not> i < length (lines_text ls) - 2" using find_sub_first by blast
  with b assms(3) show False by (simp add: length_head_text)
qed

end
