(* ===== verification/HttpProps.thy ===== *)
theory HttpProps
  imports HttpRender
begin

text \<open>
  The properties of the HTTP parser, on requests as a client renders them: a request line, headers
  with one length field among them, and a body.
\<close>

text \<open>A request: its request line and the other headers before and after the length field.\<close>

record client_head =
  c_method :: string
  c_url :: string
  c_version :: string
  c_before :: "string list"
  c_after :: "string list"

definition head_lines :: "client_head \<Rightarrow> string \<Rightarrow> string list" where
  "head_lines c v =
     (request_line (c_method c) (c_url c) (c_version c) # c_before c) @ length_field v # c_after c"

definition client_ok :: "client_head \<Rightarrow> bool" where
  "client_ok c = (SP \<notin> set (c_method c) \<and> CR \<notin> set (c_method c) \<and>
     SP \<notin> set (c_url c) \<and> CR \<notin> set (c_url c) \<and> CR \<notin> set (c_version c) \<and>
     (\<forall>l \<in> set (c_before c @ c_after c). line_ok l) \<and>
     (\<forall>l \<in> set (request_line (c_method c) (c_url c) (c_version c) # c_before c).
        \<not> sublist CONTENT_LENGTH l))"

definition client_message :: "client_head \<Rightarrow> string \<Rightarrow> string" where
  "client_message c body = head_text (head_lines c (SP # show_nat (length body))) @ body"

lemma head_lines_ok:
  assumes "client_ok c" and "CR \<notin> set v"
  shows "\<forall>l \<in> set (head_lines c v). line_ok l" and "head_lines c v \<noteq> []"
  using assms by (auto simp: head_lines_def client_ok_def line_ok_def request_line_def length_field_def)

lemma CR_notin_number: "CR \<notin> set (SP # show_nat n)"
  using show_nat_digits[of n] by (auto dest: isdigit_other(5))

lemma word_le_of_nat:
  "a < 2 ^ 64 \<Longrightarrow> b < 2 ^ 64 \<Longrightarrow> (word_of_nat a :: 64 word) \<le> word_of_nat b \<longleftrightarrow> a \<le> b"
  by (simp add: word_le_nat_alt unat_of_nat take_bit_nat_eq_self)

text \<open>The completeness test, with the length of the head in place of the positions.\<close>

lemma parse_head:
  assumes view: "take n b = head_text (head_lines c v) @ rest" and n: "n \<le> length b"
    and c: "client_ok c" and v: "CR \<notin> set v"
  shows "HttpParser_parse b n = bind_res (c_stoul (trim_blanks v)) (\<lambda>len.
    Inr (word_of_nat (length (head_text (head_lines c v))) + len \<le> (word_of_nat n :: 64 word)))"
proof -
  let ?pre = "request_line (c_method c) (c_url c) (c_version c) # c_before c"
  let ?L = "length (lines_text (?pre @ length_field v # c_after c))"
  have view': "take n b = head_text (?pre @ length_field v # c_after c) @ rest"
    using view by (simp only: head_lines_def)
  have ok: "\<forall>l \<in> set (?pre @ length_field v # c_after c). line_ok l"
    using head_lines_ok(1)[OF c v] by (simp only: head_lines_def)
  have pre: "\<forall>l \<in> set ?pre. \<not> sublist CONTENT_LENGTH l" using c unfolding client_ok_def by blast
  have "2 \<le> ?L" by simp
  then have "?L - 2 + 4 = length (head_text (head_lines c v))"
    by (simp only: length_head_text head_lines_def)
  then have "(word_of_nat (?L - 2) + 4 :: 64 word) = word_of_nat (length (head_text (head_lines c v)))"
    by (metis of_nat_add of_nat_numeral)
  with complete_with_field[OF view' n ok pre] show ?thesis
    by (cases "c_stoul (trim_blanks v)") (simp_all add: HttpParser_parse_def)
qed

lemma parse_number:
  assumes "take n b = head_text (head_lines c (SP # show_nat N)) @ rest" and "n \<le> length b"
    and "client_ok c" and "N < 2 ^ 64"
  shows "HttpParser_parse b n = Inr
    ((word_of_nat (length (head_text (head_lines c (SP # show_nat N))) + N) :: 64 word) \<le> word_of_nat n)"
  using parse_head[OF assms(1-3) CR_notin_number] by (simp add: trim_show_nat stoul_show_nat[OF assms(4)])

text \<open>The fields of the request that is built.\<close>

lemma request_fields:
  assumes view: "take n b = head_text (head_lines c v) @ rest" and n: "n \<le> length b"
    and c: "client_ok c" and v: "CR \<notin> set v"
  shows "\<exists>r. HttpParser_handle b n = Inr r \<and> rq_method r = c_method c \<and> http_url r = c_url c \<and>
    http_version r = ''HTTP/1.1'' \<and> rq_data r = Some (length (head_text (head_lines c v)))"
proof -
  let ?m = "c_method c" and ?u = "c_url c" and ?h = "head_text (head_lines c v)"
  obtain t where t: "?h @ rest = ?m @ SP # ?u @ SP # t"
    by (simp add: head_text_def head_lines_def request_line_def)
  have m: "find_sub [SP] (?m @ SP # ?u @ SP # t) = Some (length ?m)"
    by (rule find_char_hit) (use c in \<open>simp add: client_ok_def\<close>)
  have u: "find_sub [SP] (?u @ SP # t) = Some (length ?u)"
    by (rule find_char_hit) (use c in \<open>simp add: client_ok_def\<close>)
  have u': "sv_find [SP] (?m @ SP # ?u @ SP # t) (length ?m + 1) = Some (length ?m + 1 + length ?u)"
    using u by (simp add: sv_find_def)
  have e: "find_sub CRLF2 (?h @ rest) = Some (length (lines_text (head_lines c v)) - 2)"
    by (rule head_end) (use head_lines_ok[OF c v] in auto)
  have L: "2 \<le> length (lines_text (head_lines c v))"
    by (simp add: head_lines_def request_line_def)
  show ?thesis
    using n L u' m e
    by (simp add: member_defs view sv_find_0 length_head_text) (simp add: t)
qed

text \<open>Which parts of a rendered request, and of what follows it, are complete.\<close>

lemma framing:
  assumes "client_ok c" and "b = client_message c body @ rest" and "length b < 2 ^ 64" and "n \<le> length b"
  shows "HttpParser_parse b n = Inr (length (client_message c body) \<le> n)"
proof -
  let ?v = "SP # show_nat (length body)" and ?m = "client_message c body"
  let ?h = "head_text (head_lines c ?v)"
  have m: "?m = ?h @ body" by (simp only: client_message_def)
  show ?thesis
  proof (cases "length ?h \<le> n")
    case True
    have view: "take n b = ?h @ take (n - length ?h) (body @ rest)"
      using True by (simp add: assms(2) m)
    have "length body < 2 ^ 64" "length ?m < 2 ^ 64" using assms(2,3) m by simp_all
    then show ?thesis
      using parse_number[OF view assms(4,1)] word_le_of_nat[of "length ?m" n] assms(3,4) m by simp
  next
    case False
    then have "find_sub CRLF2 (take n b) = None"
      using head_cut[of "head_lines c ?v" n "body @ rest"] head_lines_ok[OF assms(1) CR_notin_number]
      by (simp add: assms(2) m)
    then show ?thesis
      using False assms(4) m
      by (auto simp: HttpParser_parse_def is_complete_message_def sv_find_0)
  qed
qed

section \<open>Properties\<close>

text \<open>C13. Framing. As the bytes of a rendered request arrive, and whatever follows them in the buffer,
  \<open>parse\<close> says no to every part that is shorter than the request and yes from then on, and it throws
  on none of them.\<close>

theorem http_framing:
  assumes "client_ok c" and "b = client_message c body @ rest" and "length b < 2 ^ 64" and "n \<le> length b"
  shows "HttpParser_parse b n = Inr (length (client_message c body) \<le> n)"
  using assms by (rule framing)

definition put_head :: client_head where
  "put_head = \<lparr>c_method = ''POST'', c_url = ''/usr/kvstore'', c_version = ''HTTP/1.1'',
     c_before = [''Host: localhost''], c_after = [''Accept: */*'']\<rparr>"

lemma put_head_ok: "client_ok put_head"
  by (simp add: client_ok_def put_head_def line_ok_def request_line_def CONTENT_LENGTH_def sublist_Cons_right)

lemma length_put_message:
  "length (head_text (head_lines put_head (SP # v))) = 78 + length v"
  by (simp add: head_lines_def head_text_def length_field_def put_head_def request_line_def CONTENT_LENGTH_def)

theorem http_framing_witness:
  "HttpParser_parse (client_message put_head ''HSET k v'') 40 = Inr False \<and>
   HttpParser_parse (client_message put_head ''HSET k v'') (length (client_message put_head ''HSET k v'')) = Inr True"
proof -
  let ?b = "client_message put_head ''HSET k v''"
  have l: "40 < length ?b" "length ?b < 2 ^ 64"
    using length_show_nat[of "length ''HSET k v''" 0] by (simp_all add: client_message_def length_put_message)
  have "HttpParser_parse ?b n = Inr (length ?b \<le> n)" if "n \<le> length ?b" for n
    using http_framing[OF put_head_ok, of ?b "''HSET k v''" "[]" n] l that by simp
  from this[of 40] this[of "length ?b"] l show ?thesis by simp
qed

text \<open>C14. Round trip. The request that \<open>handle\<close> builds from a rendered one has its method and its
  URL, is routed under their concatenation, and its data pointer is the start of the body.\<close>

theorem http_roundtrip:
  assumes "client_ok c" and "b = client_message c body @ rest"
    and "length (client_message c body) \<le> n" and "n \<le> length b"
  shows "\<exists>r d. HttpParser_handle b n = Inr r \<and> rq_method r = c_method c \<and> http_url r = c_url c \<and>
    get_key_URL r = c_method c @ c_url c \<and> rq_data r = Some d \<and> take (length body) (drop d b) = body"
proof -
  let ?v = "SP # show_nat (length body)" and ?h = "head_text (head_lines c (SP # show_nat (length body)))"
  have b: "b = ?h @ body @ rest" using assms(2) by (simp add: client_message_def)
  have "length ?h \<le> n" using assms(3) by (simp add: client_message_def)
  then have "take n b = ?h @ take (n - length ?h) (body @ rest)" by (simp add: b)
  from request_fields[OF this assms(4,1) CR_notin_number] obtain r
    where "HttpParser_handle b n = Inr r" "rq_method r = c_method c" "http_url r = c_url c"
      "rq_data r = Some (length ?h)" by blast
  moreover have "take (length body) (drop (length ?h) b) = body" by (simp add: b)
  ultimately show ?thesis by (auto simp: get_key_URL_def)
qed

theorem http_roundtrip_witness:
  "\<exists>r d. HttpParser_handle (client_message put_head ''HSET k v'' @ [NUL])
      (length (client_message put_head ''HSET k v'')) = Inr r \<and>
    get_key_URL r = ''POST/usr/kvstore'' \<and> rq_data r = Some d"
  using http_roundtrip[OF put_head_ok refl, of "''HSET k v''" "length (client_message put_head ''HSET k v'')" "[NUL]"]
  by (auto simp: put_head_def)

lemma stoul_no_digit:
  assumes "\<forall>c \<in> set v. \<not> c_isdigit c"
  shows "c_stoul v = Inl (Throws Invalid_argument)"
proof -
  let ?s1 = "dropWhile c_isspace v"
  let ?s2 = "if ?s1 \<noteq> [] \<and> (hd ?s1 = CHR ''-'' \<or> hd ?s1 = CHR ''+'') then tl ?s1 else ?s1"
  have "set ?s2 \<subseteq> set ?s1" by (cases ?s1) auto
  also have "set ?s1 \<subseteq> set v" by (auto dest: set_dropWhileD)
  finally have s2: "set ?s2 \<subseteq> set v" .
  have "takeWhile c_isdigit ?s2 = []"
  proof (cases ?s2)
    case (Cons c u)
    with s2 assms have "\<not> c_isdigit c" by auto
    with Cons show ?thesis by simp
  qed simp
  then show ?thesis unfolding c_stoul_def Let_def by (rule if_P)
qed

lemma stoul_huge: "2 ^ 64 \<le> N \<Longrightarrow> c_stoul (show_nat N) = Inl (Throws Out_of_range)"
proof -
  assume N: "2 ^ 64 \<le> N"
  note ds = show_nat_digits[of N]
  have h: "c_isdigit (hd (show_nat N))" using ds by simp
  have "takeWhile c_isdigit (show_nat N) = show_nat N" using ds by (simp add: takeWhile_eq_all_conv)
  moreover have "dropWhile c_isspace (show_nat N) = show_nat N"
    using ds isdigit_other(1)[OF h] by (intro dropWhile_keep) simp_all
  ultimately show ?thesis
    using ds N isdigit_other(3,4)[OF h]
    by (simp add: c_stoul_def digits_val_def show_nat_value Let_def del: takeWhile_eq_all_conv)
qed

lemma trim_subset: "set (trim_blanks v) \<subseteq> set v"
  by (auto simp: trim_blanks_def dest!: set_dropWhileD)

text \<open>A length field that is no number, or too large a number, makes \<open>parse\<close> throw; nothing in the
  program catches it.\<close>

theorem content_length_throws:
  assumes "client_ok c" and "take n b = head_text (head_lines c v) @ rest" and "n \<le> length b" and "CR \<notin> set v"
  shows "((\<forall>x \<in> set v. \<not> c_isdigit x) \<longrightarrow> HttpParser_parse b n = Inl (Throws Invalid_argument)) \<and>
    (\<forall>N. v = SP # show_nat N \<and> 2 ^ 64 \<le> N \<longrightarrow> HttpParser_parse b n = Inl (Throws Out_of_range))"
proof -
  note p = parse_head[OF assms(2,3,1,4)]
  have "HttpParser_parse b n = Inl (Throws Invalid_argument)" if "\<forall>x \<in> set v. \<not> c_isdigit x"
  proof -
    have "\<forall>x \<in> set (trim_blanks v). \<not> c_isdigit x" using trim_subset[of v] that by blast
    from stoul_no_digit[OF this] p show ?thesis by simp
  qed
  moreover have "HttpParser_parse b n = Inl (Throws Out_of_range)" if "v = SP # show_nat N" "2 ^ 64 \<le> N" for N
    using p stoul_huge[OF that(2)] that(1) by (simp add: trim_show_nat)
  ultimately show ?thesis by blast
qed

theorem content_length_throws_witness:
  "HttpParser_parse (head_text (head_lines put_head '' none'')) (length (head_text (head_lines put_head '' none''))) =
    Inl (Throws Invalid_argument)"
  using content_length_throws[OF put_head_ok, of "length (head_text (head_lines put_head '' none''))"
      "head_text (head_lines put_head '' none'')" "'' none''" "[]"]
  by (simp add: c_isdigit_def)

text \<open>The end of the message is computed in \<open>size_t\<close>: a length so large that the sum with the
  length of the head wraps around makes a request without a body complete.\<close>

theorem content_length_wraps:
  assumes "client_ok c" and "b = head_text (head_lines c (SP # show_nat N))" and "length b < 2 ^ 64"
    and "N < 2 ^ 64" and "2 ^ 64 \<le> length b + N"
  shows "HttpParser_parse b (length b) = Inr True"
proof -
  have view: "take (length b) b = head_text (head_lines c (SP # show_nat N)) @ []" using assms(2) by simp
  have "(word_of_nat (length b + N) :: 64 word) = word_of_nat (length b + N - 2 ^ 64)"
  proof -
    have "length b + N = (length b + N - 2 ^ 64) + 2 ^ 64" using assms(5) by simp
    then have "(word_of_nat (length b + N) :: 64 word) = word_of_nat (length b + N - 2 ^ 64) + word_of_nat (2 ^ 64)"
      by (metis of_nat_add)
    then show ?thesis by simp
  qed
  moreover have "(word_of_nat (length b + N - 2 ^ 64) :: 64 word) \<le> word_of_nat (length b)"
    using word_le_of_nat[of "length b + N - 2 ^ 64" "length b"] assms(3,4) by simp
  ultimately show ?thesis using parse_number[OF view order.refl assms(1,4)] assms(2) by simp
qed

theorem content_length_wraps_witness:
  "HttpParser_parse (head_text (head_lines put_head (SP # show_nat (2 ^ 64 - 10))))
     (length (head_text (head_lines put_head (SP # show_nat (2 ^ 64 - 10))))) = Inr True"
proof (rule content_length_wraps[OF put_head_ok refl])
  let ?b = "head_text (head_lines put_head (SP # show_nat (2 ^ 64 - 10)))"
  have l: "length ?b = 78 + length (show_nat (2 ^ 64 - 10))" by (rule length_put_message)
  have "length (show_nat (2 ^ 64 - 10)) \<le> Suc 19" by (rule length_show_nat) simp
  moreover have "(98 :: nat) < 2 ^ 64" by simp
  ultimately show "length ?b < 2 ^ 64" using l by linarith
  have "10 \<le> length ?b" unfolding l by simp
  then show "2 ^ 64 \<le> length ?b + (2 ^ 64 - 10)" by simp
qed simp

end
