(* ===== verification/ConnInfo.thy ===== *)
theory ConnInfo
  imports RingBuffer RouterMap HttpProps
begin

text \<open>
  A connection, \<open>network/connect_info/connect_info.h\<close>: its two buffers and the request parsed from
  the read buffer. What the socket delivers is an argument (\<open>sock\<close>), so is the clock. The request's
  data pointer is an offset into the read buffer. The lemmas follow one request from the socket to
  the parsed request, on a connection whose buffer may hold bytes of earlier requests.
\<close>

record sockaddr_in =
  sin_addr :: nat
  sin_port :: nat

record ConnectionInfo =
  ci_fd :: int
  ci_addr :: sockaddr_in
  ci_read_buffer :: ring_buffer
  ci_write_buffer :: ring_buffer
  ci_request :: "HttpRequest option"
  ci_last_active_time :: int

section \<open>Operations\<close>

text \<open>\<open>ConnectionInfo()\<close> has no constructor of its own: every member starts as zeros.\<close>

definition ConnectionInfo_new :: ConnectionInfo where
  "ConnectionInfo_new =
     \<lparr>ci_fd = 0, ci_addr = \<lparr>sin_addr = 0, sin_port = 0\<rparr>,
      ci_read_buffer = ring_buffer_new (replicate (nat RING_BUFFER_SIZE) NUL),
      ci_write_buffer = ring_buffer_new (replicate (nat RING_BUFFER_SIZE) NUL),
      ci_request = None, ci_last_active_time = 0\<rparr>"

definition conn_reset :: "ConnectionInfo \<Rightarrow> ConnectionInfo" where
  "conn_reset c = c\<lparr>ci_fd := - 1, ci_addr := \<lparr>sin_addr = 0, sin_port = 0\<rparr>, ci_request := None\<rparr>"

text \<open>The destructor: the descriptor it closes, if any.\<close>

definition conn_destroy :: "ConnectionInfo \<Rightarrow> int option" where
  "conn_destroy c = (if 0 \<le> ci_fd c then Some (ci_fd c) else None)"

text \<open>What \<open>recv\<close> finds: pending bytes, the end of the stream, or an error.\<close>

datatype sock = Bytes string | Peer_closed | Recv_error

text \<open>
  \<open>recv(_fd, get_buffer(), not_useSize(), 0)\<close> writes at the start of the buffer, wherever the tail
  is. A negative size would be converted to a huge \<open>size_t\<close>.
\<close>

definition conn_read :: "sock \<Rightarrow> int \<Rightarrow> ConnectionInfo \<Rightarrow> (int \<times> sock \<times> ConnectionInfo) res" where
  "conn_read s now c =
     (let b = ci_read_buffer c; room = not_useSize b
      in case s of
           Peer_closed \<Rightarrow> Inr (0, s, c)
         | Recv_error \<Rightarrow> Inr (- 1, s, c)
         | Bytes avail \<Rightarrow>
             (let got = (if room < 0 then avail else take (nat room) avail); ret = int (length got)
              in if ret \<le> 0 then Inr (ret, s, c)
                 else if length (get_buffer b) < length got then Inl Overflow_write
                 else Inr (ret, Bytes (drop (length got) avail),
                   c\<lparr>ci_read_buffer :=
                       snd (writed ret (b\<lparr>rb_buffer := got @ drop (length got) (get_buffer b)\<rparr>)),
                     ci_last_active_time := now\<rparr>)))"

text \<open>\<open>write\<close>: the bytes offered to \<open>send\<close>, its result \<open>ret\<close>, and the connection afterwards.\<close>

definition conn_write :: "int \<Rightarrow> int \<Rightarrow> ConnectionInfo \<Rightarrow> string \<times> int \<times> ConnectionInfo" where
  "conn_write ret now c =
     (take (nat (used_size (ci_write_buffer c))) (get_buffer (ci_write_buffer c)), ret,
      c\<lparr>ci_write_buffer := snd (readed ret (ci_write_buffer c)), ci_last_active_time := now\<rparr>)"

text \<open>
  The length handed to the parser is \<open>not_useSize()\<close>, the free space, not the number of bytes read.
\<close>

definition convert_request ::
  "(string, parser_class) std_map \<Rightarrow> ConnectionInfo \<Rightarrow> (bool \<times> ConnectionInfo) res" where
  "convert_request registry c =
     (let buffer = get_buffer (ci_read_buffer c); size = nat (not_useSize (ci_read_buffer c))
      in bind_res (get_parser registry buffer size) (\<lambda>parser.
           case parser of
             None \<Rightarrow> Inr (False, c)
           | Some p \<Rightarrow>
               bind_res (parser_parse p buffer size) (\<lambda>ret.
                 if \<not> ret then Inr (False, c)
                 else bind_res (parser_handle p buffer size) (\<lambda>request.
                        Inr (True, c\<lparr>ci_request := Some request\<rparr>)))))"

section \<open>Receiving a request\<close>

text \<open>A connection on which \<open>t\<close> bytes have been read since its buffer was last full or fresh.\<close>

definition conn_at :: "int \<Rightarrow> ConnectionInfo \<Rightarrow> bool" where
  "conn_at t c = (rb_ok (ci_read_buffer c) \<and> rb_head (ci_read_buffer c) = 0 \<and> rb_tail (ci_read_buffer c) = t)"

lemma conn_new_at: "conn_at 0 ConnectionInfo_new"
  unfolding conn_at_def ConnectionInfo_new_def
  by (simp add: rb_ok_new RING_BUFFER_SIZE_def) (simp add: ring_buffer_new_def)

lemma conn_at_room: "conn_at t c \<Longrightarrow> not_useSize (ci_read_buffer c) = RING_BUFFER_SIZE - t"
  by (simp add: conn_at_def rb_ok_def not_useSize_def)

lemma conn_read_ok:
  assumes c: "conn_at t c" and m: "m \<noteq> []" "t + int (length m) \<le> RING_BUFFER_SIZE"
  shows "\<exists>c'. conn_read (Bytes m) now c = Inr (int (length m), Bytes [], c') \<and>
    conn_at ((t + int (length m)) mod RING_BUFFER_SIZE) c' \<and>
    get_buffer (ci_read_buffer c') = m @ drop (length m) (get_buffer (ci_read_buffer c)) \<and>
    ci_fd c' = ci_fd c \<and> ci_request c' = ci_request c \<and> ci_last_active_time c' = now \<and>
    ci_write_buffer c' = ci_write_buffer c \<and> ci_addr c' = ci_addr c"
proof -
  let ?b = "ci_read_buffer c" and ?n = "int (length m)"
  let ?b1 = "?b\<lparr>rb_buffer := m @ drop (length m) (get_buffer ?b)\<rparr>"
  have b: "rb_ok ?b" "rb_head ?b = 0" "rb_tail ?b = t" using c by (simp_all add: conn_at_def)
  then have t: "0 \<le> t" by (simp add: rb_ok_def)
  have room: "not_useSize ?b = RING_BUFFER_SIZE - t" by (rule conn_at_room[OF c])
  then have got: "take (nat (not_useSize ?b)) m = m" "\<not> not_useSize ?b < 0" using m by simp_all
  have len: "\<not> length (get_buffer ?b) < length m" using b m t by (simp add: rb_ok_def get_buffer_def)
  have room1: "not_useSize ?b1 = RING_BUFFER_SIZE - t" using room by simp
  have ok1: "rb_ok ?b1" using b len by (simp add: rb_ok_def get_buffer_def)
  have w: "writed ?n ?b1 = (True, ?b1\<lparr>rb_tail := (t + ?n) mod RING_BUFFER_SIZE\<rparr>)"
    unfolding writed_def room1 using m t b by (simp add: c_rem_nonneg)
  have ok2: "rb_ok (snd (writed ?n ?b1))" by (rule writed_ok(2)[OF ok1]) simp
  have "conn_read (Bytes m) now c = Inr (?n, Bytes [],
      c\<lparr>ci_read_buffer := snd (writed ?n ?b1), ci_last_active_time := now\<rparr>)"
    using got len m(1) by (simp add: conn_read_def Let_def)
  with ok2 b(2) show ?thesis by (simp add: conn_at_def w[unfolded get_buffer_def] get_buffer_def)
qed

lemma convert_rejects:
  assumes "get_parser reg (get_buffer (ci_read_buffer c)) (nat (not_useSize (ci_read_buffer c))) = Inr (Some p)"
    and "parser_parse p (get_buffer (ci_read_buffer c)) (nat (not_useSize (ci_read_buffer c))) = Inr False"
  shows "convert_request reg c = Inr (False, c)"
  using assms by (simp add: convert_request_def Let_def)

text \<open>
  Any parser behind the factory: after a successful conversion the connection has a request whose
  data pointer lies in the read buffer.
\<close>

lemma convert_request_data:
  assumes "convert_request reg c = Inr (True, c')" and "rb_ok (ci_read_buffer c)"
  shows "\<exists>r d. ci_request c' = Some r \<and> rq_data r = Some d \<and> d \<le> length (get_buffer (ci_read_buffer c'))"
proof -
  let ?b = "get_buffer (ci_read_buffer c)" and ?n = "nat (not_useSize (ci_read_buffer c))"
  have n: "?n \<le> length ?b"
    using not_useSize_length[OF assms(2)] by (simp add: get_buffer_def)
  obtain p r where "parser_parse p ?b ?n = Inr True" "parser_handle p ?b ?n = Inr r"
    "c' = c\<lparr>ci_request := Some r\<rparr>"
    using assms(1)
    by (auto simp: convert_request_def Let_def bind_res_eq_Inr split: option.splits if_splits)
  with parsers.parsed_request[OF n] n show ?thesis by fastforce
qed

text \<open>
  What the factory and the parser make of a buffer that starts with a rendered GET or POST request,
  when the parser is told of \<open>n\<close> bytes.
\<close>

lemma convert_client:
  assumes c: "conn_at t c" and client: "client_ok cl" "c_method cl = ''GET'' \<or> c_method cl = ''POST''"
    and buf: "get_buffer (ci_read_buffer c) = client_message cl body @ rest"
  shows "RING_BUFFER_SIZE - t < int (length (client_message cl body)) \<Longrightarrow>
      convert_request registered_parsers c = Inr (False, c)"
    and "int (length (client_message cl body)) \<le> RING_BUFFER_SIZE - t \<Longrightarrow>
      \<exists>r d. convert_request registered_parsers c = Inr (True, c\<lparr>ci_request := Some r\<rparr>) \<and>
        get_key_URL r = c_method cl @ c_url cl \<and> rq_data r = Some d \<and>
        drop d (get_buffer (ci_read_buffer c)) = body @ rest"
proof -
  let ?m = "client_message cl body" and ?b = "get_buffer (ci_read_buffer c)"
  let ?n = "nat (RING_BUFFER_SIZE - t)" and ?v = "SP # show_nat (length body)"
  let ?h = "head_text (head_lines cl ?v)"
  have m: "?m = ?h @ body" by (simp only: client_message_def)
  have size: "nat (not_useSize (ci_read_buffer c)) = ?n" by (simp add: conn_at_room[OF c])
  have len: "length ?b = 1024" using c by (simp add: conn_at_def rb_ok_def get_buffer_def RING_BUFFER_SIZE_def)
  have t: "0 \<le> t" "t < RING_BUFFER_SIZE" using c by (auto simp: conn_at_def rb_ok_def)
  have n: "?n \<le> length ?b" using t len by (simp add: RING_BUFFER_SIZE_def)
  have parse: "HttpParser_parse ?b ?n = Inr (length ?m \<le> ?n)"
    by (rule framing[OF client(1) buf _ n]) (simp add: len)
  note par = get_parser_registered[OF n]
  show "convert_request registered_parsers c = Inr (False, c)" if "RING_BUFFER_SIZE - t < int (length ?m)"
    using par parse that t size by (simp add: convert_request_def Let_def)
  assume mn: "int (length ?m) \<le> RING_BUFFER_SIZE - t"
  then have view: "take ?n ?b = ?h @ take (?n - length ?h) (body @ rest)" by (simp add: buf m)
  have "prefix (c_method cl) (take ?n ?b)"
    unfolding view by (simp add: head_lines_def head_text_def request_line_def)
  then have p: "get_parser registered_parsers ?b ?n = Inr (Some HttpParser_class)" using par client(2) by auto
  obtain r where r: "HttpParser_handle ?b ?n = Inr r" "rq_method r = c_method cl" "http_url r = c_url cl"
    "rq_data r = Some (length ?h)"
    using request_fields[OF view n client(1) CR_notin_number] by blast
  have "convert_request registered_parsers c = Inr (True, c\<lparr>ci_request := Some r\<rparr>)"
    using p parse mn r(1) size by (simp add: convert_request_def Let_def)
  moreover have "drop (length ?h) ?b = body @ rest" by (simp add: buf m)
  ultimately show "\<exists>r d. convert_request registered_parsers c = Inr (True, c\<lparr>ci_request := Some r\<rparr>) \<and>
        get_key_URL r = c_method cl @ c_url cl \<and> rq_data r = Some d \<and> drop d ?b = body @ rest"
    using r by (auto simp: get_key_URL_def)
qed

text \<open>One request on a connection: reading it and converting it.\<close>

lemma read_and_convert:
  assumes c: "conn_at t c" and client: "client_ok cl" "c_method cl = ''GET'' \<or> c_method cl = ''POST''"
    and m: "m = client_message cl body" and fits: "t + int (length m) \<le> RING_BUFFER_SIZE"
  shows "\<exists>c'. conn_read (Bytes m) now c = Inr (int (length m), Bytes [], c') \<and>
    conn_at ((t + int (length m)) mod RING_BUFFER_SIZE) c' \<and> ci_fd c' = ci_fd c \<and>
    ci_write_buffer c' = ci_write_buffer c \<and> ci_last_active_time c' = now \<and>
    (if t + int (length m) = RING_BUFFER_SIZE \<or> t + 2 * int (length m) \<le> RING_BUFFER_SIZE
     then \<exists>r d. convert_request registered_parsers c' = Inr (True, c'\<lparr>ci_request := Some r\<rparr>) \<and>
        get_key_URL r = c_method cl @ c_url cl \<and> rq_data r = Some d \<and>
        drop d (get_buffer (ci_read_buffer c')) = body @ drop (length m) (get_buffer (ci_read_buffer c))
     else convert_request registered_parsers c' = Inr (False, c'))"
proof -
  have t: "0 \<le> t" using c by (simp add: conn_at_def rb_ok_def)
  have "m \<noteq> []" using m by (simp add: client_message_def head_text_def CRLF_def)
  from conn_read_ok[OF c this fits, of now] obtain c' where
    r: "conn_read (Bytes m) now c = Inr (int (length m), Bytes [], c')" and
    c': "conn_at ((t + int (length m)) mod RING_BUFFER_SIZE) c'" and
    b: "get_buffer (ci_read_buffer c') = client_message cl body @ drop (length m) (get_buffer (ci_read_buffer c))"
    and rest: "ci_fd c' = ci_fd c" "ci_write_buffer c' = ci_write_buffer c" "ci_last_active_time c' = now"
    unfolding m by blast
  have pos: "0 < length m" using \<open>m \<noteq> []\<close> by simp
  have "(t + int (length m)) mod RING_BUFFER_SIZE =
      (if t + int (length m) = RING_BUFFER_SIZE then 0 else t + int (length m))"
    using fits t by simp
  with convert_client[OF c' client b] fits pos t m show ?thesis
    by (intro exI[of _ c'] conjI r c' rest) (simp split: if_splits, linarith?)
qed

end
