(* ===== verification/ConnPool.thy ===== *)
theory ConnPool
  imports ConnInfo
begin

text \<open>
  The pool of connection objects, \<open>utils/memory.h\<close>, at the level of its memory: one block of
  \<open>total_blocks * block_size\<close> bytes, a free list threaded through its first words, and the objects
  constructed in it. An address is an offset into the block, null, the address of a local variable
  (\<open>Stack_addr\<close>, what \<open>Release\<close> puts on the list), or bytes that are no address (\<open>Wild_addr\<close>).
  Constructing an object ends the life of every object its storage overlaps and overwrites the list
  words in it; a list word under a live object is made of that object's bytes.
\<close>

section \<open>Layout\<close>

text \<open>
  \<open>sizeof(ConnectionInfo)\<close> on x86-64: descriptor at 0, address at 4, read buffer at 20 (its bytes, then
  two \<open>int\<close>s), write buffer at 1052, request pointer at 2088, time at 2096.
\<close>

definition sizeof_ConnectionInfo :: nat where
  "sizeof_ConnectionInfo = 2104"

datatype paddr = Null_addr | Block nat | Stack_addr | Wild_addr

definition bytes_word :: "char list \<Rightarrow> paddr" where
  "bytes_word bs = (if \<forall>b \<in> set bs. b = NUL then Null_addr else Wild_addr)"

text \<open>
  The eight bytes at an offset of an object, read as an address. The bytes of the two buffers are
  known; those of the other members are not traced.
\<close>

definition object_word :: "ConnectionInfo \<Rightarrow> nat \<Rightarrow> paddr" where
  "object_word c k =
     (if 20 \<le> k \<and> k + 8 \<le> 1044 then bytes_word (take 8 (drop (k - 20) (get_buffer (ci_read_buffer c))))
      else if 1052 \<le> k \<and> k + 8 \<le> 2076 then bytes_word (take 8 (drop (k - 1052) (get_buffer (ci_write_buffer c))))
      else Wild_addr)"

record conn_pool =
  total_blocks :: nat
  block_size :: nat
  granted :: bool
  free_list :: paddr
  list_word :: "nat \<Rightarrow> paddr"
  objs :: "nat \<Rightarrow> ConnectionInfo option"
  id_map :: "(nat, paddr) std_map"

interpretation id_map: map_order "(<) :: nat \<Rightarrow> nat \<Rightarrow> bool"
  by unfold_locales auto

section \<open>Construction\<close>

text \<open>The loop that links each block to the next, and the null in the last.\<close>

fun link_blocks :: "nat \<Rightarrow> nat \<Rightarrow> nat \<Rightarrow> (nat \<Rightarrow> paddr) \<Rightarrow> nat \<Rightarrow> paddr" where
  "link_blocks 0 current bs w = w(current := Null_addr)"
| "link_blocks (Suc n) current bs w = link_blocks n (current + bs) bs (w(current := Block (current + bs)))"

text \<open>
  \<open>granted\<close> is the decision of \<open>malloc\<close>. Without blocks the bound \<open>total_blocks - 1\<close> wraps around, and
  blocks too small for an address let the last link leave the memory.
\<close>

definition Conn_pool_new :: "nat \<Rightarrow> nat \<Rightarrow> bool \<Rightarrow> conn_pool res" where
  "Conn_pool_new nb bs ok =
     (if \<not> ok then
        Inr \<lparr>total_blocks = nb, block_size = bs, granted = False, free_list = Null_addr,
             list_word = (\<lambda>_. Wild_addr), objs = (\<lambda>_. None), id_map = []\<rparr>
      else if nb = 0 \<or> bs < 8 then Inl Overflow_write
      else Inr \<lparr>total_blocks = nb, block_size = bs, granted = True, free_list = Block 0,
                list_word = link_blocks (nb - 1) 0 bs (\<lambda>_. Wild_addr), objs = (\<lambda>_. None), id_map = []\<rparr>)"

section \<open>Operations\<close>

text \<open>The list word of a block: bytes of a live object that covers it, or what the list stored.\<close>

definition next_word :: "conn_pool \<Rightarrow> nat \<Rightarrow> paddr" where
  "next_word p a =
     (case List.find (\<lambda>b. b < a \<and> a < b + sizeof_ConnectionInfo \<and> objs p b \<noteq> None)
             (map (\<lambda>i. i * block_size p) [0..<total_blocks p]) of
        Some b \<Rightarrow> object_word (the (objs p b)) (a - b)
      | None \<Rightarrow> list_word p a)"

definition overlaps :: "nat \<Rightarrow> nat \<Rightarrow> bool" where
  "overlaps a b = (a < b + sizeof_ConnectionInfo \<and> b < a + sizeof_ConnectionInfo)"

definition construct :: "nat \<Rightarrow> conn_pool \<Rightarrow> conn_pool res" where
  "construct a p =
     (if total_blocks p * block_size p < a + sizeof_ConnectionInfo then Inl Overflow_write
      else Inr (p\<lparr>list_word := (\<lambda>w. if a \<le> w \<and> w < a + sizeof_ConnectionInfo then Null_addr else list_word p w),
                  objs := (\<lambda>b. if b = a then Some ConnectionInfo_new
                               else if overlaps a b then None else objs p b)\<rparr>))"

definition acquire :: "conn_pool \<Rightarrow> (paddr \<times> conn_pool) res" where
  "acquire p =
     (case free_list p of
        Null_addr \<Rightarrow> Inr (Null_addr, p)
      | Block a \<Rightarrow>
          bind_res (construct a (p\<lparr>free_list := next_word p a\<rparr>)) (\<lambda>p'. Inr (Block a, p'))
      | _ \<Rightarrow> Inl Bad_pointer)"

text \<open>Access to an object through a pointer; it has to be alive.\<close>

definition pool_object :: "conn_pool \<Rightarrow> paddr \<Rightarrow> ConnectionInfo res" where
  "pool_object p info =
     (case info of
        Block a \<Rightarrow> (case objs p a of Some c \<Rightarrow> Inr c | None \<Rightarrow> Inl Bad_pointer)
      | _ \<Rightarrow> Inl Bad_pointer)"

definition pool_update :: "conn_pool \<Rightarrow> paddr \<Rightarrow> ConnectionInfo \<Rightarrow> conn_pool" where
  "pool_update p info c = (case info of Block a \<Rightarrow> p\<lparr>objs := (objs p)(a \<mapsto> c)\<rparr> | _ \<Rightarrow> p)"

text \<open>The conversion of an \<open>int\<close> descriptor to the \<open>size_t\<close> key.\<close>

definition to_size_t :: "int \<Rightarrow> nat" where
  "to_size_t i = nat (i mod 2 ^ 64)"

text \<open>\<open>insert\<close> leaves the entry of an identifier that is already there.\<close>

definition add_map :: "int \<Rightarrow> paddr \<Rightarrow> sockaddr_in \<Rightarrow> int \<Rightarrow> conn_pool \<Rightarrow> conn_pool res" where
  "add_map fd info peer now p =
     bind_res (pool_object p info) (\<lambda>c.
       let p1 = pool_update p info (c\<lparr>ci_fd := fd, ci_last_active_time := now, ci_addr := peer\<rparr>)
       in Inr (p1\<lparr>id_map := map_insert (<) (to_size_t fd) info (id_map p1)\<rparr>))"

text \<open>\<open>find(id)->second\<close> without a test for \<open>end()\<close>.\<close>

definition pool_get :: "int \<Rightarrow> conn_pool \<Rightarrow> paddr res" where
  "pool_get fd p =
     (case map_find (<) (to_size_t fd) (id_map p) of Some info \<Rightarrow> Inr info | None \<Rightarrow> Inl Bad_pointer)"

text \<open>
  \<open>Release\<close> destroys the object, which closes its descriptor. It then takes the address of its own
  parameter for a block: the link is written to that variable, and the variable becomes the head of
  the free list. The entry of the map stays.
\<close>

definition Release :: "paddr \<Rightarrow> conn_pool \<Rightarrow> (int option \<times> conn_pool) res" where
  "Release info p =
     bind_res (pool_object p info) (\<lambda>c.
       case info of
         Block a \<Rightarrow> Inr (conn_destroy c, p\<lparr>objs := (objs p)(a := None), free_list := Stack_addr\<rparr>)
       | _ \<Rightarrow> Inl Bad_pointer)"

text \<open>The destructor of the pool runs the destructor of \<open>ConnectionInfo\<close> on every block.\<close>

fun destroy_blocks :: "conn_pool \<Rightarrow> nat list \<Rightarrow> int list res" where
  "destroy_blocks p [] = Inr []"
| "destroy_blocks p (i # is) =
     bind_res (pool_object p (Block (i * block_size p))) (\<lambda>c.
       bind_res (destroy_blocks (p\<lparr>objs := (objs p)(i * block_size p := None)\<rparr>) is) (\<lambda>fds.
         Inr (case conn_destroy c of None \<Rightarrow> fds | Some fd \<Rightarrow> fd # fds)))"

definition Conn_pool_destroy :: "conn_pool \<Rightarrow> int list res" where
  "Conn_pool_destroy p = (if granted p then destroy_blocks p [0..<total_blocks p] else Inr [])"

fun acquire_many :: "nat \<Rightarrow> conn_pool \<Rightarrow> (paddr list \<times> conn_pool) res" where
  "acquire_many 0 p = Inr ([], p)"
| "acquire_many (Suc n) p =
     bind_res (acquire p) (\<lambda>(a, p1). bind_res (acquire_many n p1) (\<lambda>(as, p2). Inr (a # as, p2)))"

section \<open>The links of a fresh pool\<close>

lemma link_blocks_word:
  assumes "0 < bs"
  shows "link_blocks n a bs w x =
    (if \<exists>i < n. x = a + i * bs then Block (x + bs) else if x = a + n * bs then Null_addr else w x)"
proof (induction n arbitrary: a w)
  case (Suc n)
  define w1 where "w1 = w(a := Block (a + bs))"
  have IH: "link_blocks n (a + bs) bs w1 x =
      (if \<exists>i < n. x = a + bs + i * bs then Block (x + bs) else if x = a + bs + n * bs then Null_addr else w1 x)"
    by (rule Suc.IH)
  have eq: "(\<exists>i < Suc n. x = a + i * bs) \<longleftrightarrow> x = a \<or> (\<exists>i < n. x = a + bs + i * bs)"
    by (auto simp: less_Suc_eq_0_disj)
  show ?case
  proof (cases "x = a")
    case True
    with assms IH have "link_blocks n (a + bs) bs w1 x = w1 x" by simp
    with True eq show ?thesis by (simp add: w1_def)
  next
    case False
    then have "w1 x = w x" by (simp add: w1_def)
    moreover have "link_blocks (Suc n) a bs w x = link_blocks n (a + bs) bs w1 x" by (simp only: w1_def link_blocks.simps)
    moreover have "a + Suc n * bs = a + bs + n * bs" by simp
    ultimately show ?thesis using False by (simp only: IH eq simp_thms)
  qed
qed simp

text \<open>The pool after \<open>k\<close> acquisitions when every object fits its block.\<close>

definition pool_after :: "nat \<Rightarrow> conn_pool \<Rightarrow> bool" where
  "pool_after k p =
     (sizeof_ConnectionInfo \<le> block_size p \<and> k \<le> total_blocks p \<and>
      free_list p = (if k < total_blocks p then Block (k * block_size p) else Null_addr) \<and>
      (\<forall>i < total_blocks p. k \<le> i \<longrightarrow>
         list_word p (i * block_size p) = (if Suc i < total_blocks p then Block (Suc i * block_size p) else Null_addr)) \<and>
      (\<forall>i < total_blocks p. objs p (i * block_size p) = None \<longleftrightarrow> k \<le> i))"

lemma pool_after_new:
  assumes "Conn_pool_new nb bs True = Inr p" and "sizeof_ConnectionInfo \<le> bs"
  shows "pool_after 0 p" and "total_blocks p = nb" and "block_size p = bs"
proof -
  have t: "0 < nb" and bs: "0 < bs"
    using assms by (auto simp: Conn_pool_new_def sizeof_ConnectionInfo_def split: if_splits)
  have p: "p = \<lparr>total_blocks = nb, block_size = bs, granted = True, free_list = Block 0,
      list_word = link_blocks (nb - 1) 0 bs (\<lambda>_. Wild_addr), objs = (\<lambda>_. None), id_map = []\<rparr>"
    using assms by (auto simp: Conn_pool_new_def split: if_splits)
  show "total_blocks p = nb" "block_size p = bs" by (simp_all add: p)
  have "link_blocks (nb - 1) 0 bs (\<lambda>_. Wild_addr) (i * bs) =
      (if Suc i < nb then Block (Suc i * bs) else Null_addr)" if "i < nb" for i
    using that bs t by (subst link_blocks_word[OF bs]) (auto simp: add.commute)
  with t assms(2) show "pool_after 0 p" by (simp add: pool_after_def p)
qed

lemma block_apart:
  assumes "sizeof_ConnectionInfo \<le> bs" and "i \<noteq> (j :: nat)"
  shows "\<not> overlaps (i * bs) (j * bs)" and "i < j \<Longrightarrow> i * bs + sizeof_ConnectionInfo \<le> j * bs"
proof -
  have far: "a * bs + sizeof_ConnectionInfo \<le> b * bs" if "a < b" for a b :: nat
  proof -
    have "Suc a * bs \<le> b * bs" using that by (intro mult_le_mono1) simp
    with assms(1) show ?thesis by simp
  qed
  show "i < j \<Longrightarrow> i * bs + sizeof_ConnectionInfo \<le> j * bs" by (rule far)
  show "\<not> overlaps (i * bs) (j * bs)"
    using assms(2) far[of i j] far[of j i] by (auto simp: overlaps_def neq_iff)
qed

lemma acquire_fits:
  assumes p: "pool_after k p" and k: "k < total_blocks p"
  shows "\<exists>p'. acquire p = Inr (Block (k * block_size p), p') \<and> pool_after (Suc k) p' \<and>
    total_blocks p' = total_blocks p \<and> block_size p' = block_size p"
proof -
  let ?bs = "block_size p" and ?t = "total_blocks p"
  have fit: "sizeof_ConnectionInfo \<le> ?bs" using p by (simp add: pool_after_def)
  have "\<not> (b < k * ?bs \<and> k * ?bs < b + sizeof_ConnectionInfo)" if mem: "b \<in> set (map (\<lambda>i. i * ?bs) [0..<?t])" for b
  proof -
    obtain i where b: "b = i * ?bs" using mem by auto
    show ?thesis
    proof (cases "i < k")
      case True
      then have "i * ?bs + sizeof_ConnectionInfo \<le> k * ?bs" by (intro block_apart(2)[OF fit]) simp_all
      then show ?thesis unfolding b by linarith
    next
      case False
      then have "k * ?bs \<le> i * ?bs" by (intro mult_le_mono1) simp
      then show ?thesis unfolding b by linarith
    qed
  qed
  then have "List.find (\<lambda>b. b < k * ?bs \<and> k * ?bs < b + sizeof_ConnectionInfo \<and> objs p b \<noteq> None)
      (map (\<lambda>i. i * ?bs) [0..<?t]) = None" unfolding find_None_iff by blast
  then have nw: "next_word p (k * ?bs) = (if Suc k < ?t then Block (Suc k * ?bs) else Null_addr)"
    using p k by (simp add: next_word_def pool_after_def)
  have "Suc k * ?bs \<le> ?t * ?bs" using k by (intro mult_le_mono1) simp
  then have room: "\<not> ?t * ?bs < k * ?bs + sizeof_ConnectionInfo" using fit by simp
  let ?p' = "p\<lparr>free_list := next_word p (k * ?bs),
      list_word := (\<lambda>w. if k * ?bs \<le> w \<and> w < k * ?bs + sizeof_ConnectionInfo then Null_addr else list_word p w),
      objs := (\<lambda>b. if b = k * ?bs then Some ConnectionInfo_new
                   else if overlaps (k * ?bs) b then None else objs p b)\<rparr>"
  have acq: "acquire p = Inr (Block (k * ?bs), ?p')"
    using p k room by (simp add: acquire_def construct_def pool_after_def cong: if_cong)
  have bs: "0 < ?bs" using fit by (simp add: sizeof_ConnectionInfo_def)
  have "list_word ?p' (i * ?bs) = list_word p (i * ?bs)" if "Suc k \<le> i" for i
    using block_apart(2)[OF fit, of k i] that by simp
  moreover have "objs ?p' (i * ?bs) = (if i = k then Some ConnectionInfo_new else objs p (i * ?bs))" for i
    using block_apart(1)[OF fit, of k i] bs by simp
  ultimately have "pool_after (Suc k) ?p'"
    using p k nw unfolding pool_after_def by (auto simp: Suc_le_eq)
  with acq show ?thesis by simp
qed

text \<open>Acquiring as long as there are blocks.\<close>

lemma acquire_many_fits:
  assumes "pool_after k p" and "k + n \<le> total_blocks p"
  shows "\<exists>p'. acquire_many n p = Inr (map (\<lambda>i. Block (i * block_size p)) [k..<k + n], p') \<and>
    pool_after (k + n) p' \<and> total_blocks p' = total_blocks p \<and> block_size p' = block_size p"
  using assms
proof (induction n arbitrary: k p)
  case (Suc n)
  obtain p1 where p1: "acquire p = Inr (Block (k * block_size p), p1)" "pool_after (Suc k) p1"
    "total_blocks p1 = total_blocks p" "block_size p1 = block_size p"
    using acquire_fits[OF Suc.prems(1)] Suc.prems(2) by auto
  obtain p2 where "acquire_many n p1 = Inr (map (\<lambda>i. Block (i * block_size p1)) [Suc k..<Suc k + n], p2)"
    "pool_after (Suc k + n) p2" "total_blocks p2 = total_blocks p1" "block_size p2 = block_size p1"
    using Suc.IH[OF p1(2)] Suc.prems(2) p1(3) by auto
  moreover have "[k..<k + Suc n] = k # [Suc k..<Suc k + n]" by (simp add: upt_rec)
  ultimately show ?case using p1 by simp
qed simp

section \<open>The pool of the server\<close>

text \<open>Blocks of 1024 bytes: the state after the first connection, whose object is then used.\<close>

lemma next_word_first:
  assumes "objs p 0 = Some c" and "0 < total_blocks p" and "0 < a" and "a < sizeof_ConnectionInfo"
  shows "next_word p a = object_word c a"
proof -
  have "[0..<total_blocks p] = 0 # [Suc 0..<total_blocks p]" using assms(2) by (simp add: upt_conv_Cons)
  with assms show ?thesis by (simp add: next_word_def)
qed

lemma next_word_unused: "\<forall>b. objs p b = None \<Longrightarrow> next_word p a = list_word p a"
  by (simp add: next_word_def find_None_iff[THEN iffD2])

lemma server_pool_first:
  assumes "Conn_pool_new nb 1024 True = Inr p" and "4 \<le> nb"
  shows "\<exists>p1. acquire p = Inr (Block 0, p1) \<and> objs p1 = (\<lambda>b. if b = 0 then Some ConnectionInfo_new else None) \<and>
    free_list p1 = Block 1024 \<and> total_blocks p1 = nb \<and> block_size p1 = 1024 \<and> id_map p1 = []"
proof -
  have p: "p = \<lparr>total_blocks = nb, block_size = 1024, granted = True, free_list = Block 0,
      list_word = link_blocks (nb - 1) 0 1024 (\<lambda>_. Wild_addr), objs = (\<lambda>_. None), id_map = []\<rparr>"
    using assms by (simp add: Conn_pool_new_def)
  have "link_blocks (nb - 1) 0 1024 (\<lambda>_. Wild_addr) 0 = Block 1024"
    using assms(2) by (subst link_blocks_word) (auto intro!: exI[of _ 0])
  then have "next_word p 0 = Block 1024" by (subst next_word_unused) (simp_all add: p)
  moreover have "\<not> nb * 1024 < sizeof_ConnectionInfo" using assms(2) by (simp add: sizeof_ConnectionInfo_def)
  ultimately show ?thesis by (simp add: acquire_def construct_def p fun_eq_iff)
qed

lemma server_pool_second:
  assumes "objs p1 = (\<lambda>b. if b = 0 then Some c else None)" and "free_list p1 = Block 1024"
    and "total_blocks p1 = nb" and "block_size p1 = 1024" and "4 \<le> nb"
  shows "\<exists>p2. acquire p1 = Inr (Block 1024, p2) \<and>
    objs p2 = (\<lambda>b. if b = 1024 then Some ConnectionInfo_new else None) \<and>
    free_list p2 = bytes_word (take 8 (drop 1004 (get_buffer (ci_read_buffer c))))"
proof -
  have "next_word p1 1024 = object_word c 1024"
    using assms by (intro next_word_first) (simp_all add: sizeof_ConnectionInfo_def)
  moreover have "object_word c 1024 = bytes_word (take 8 (drop 1004 (get_buffer (ci_read_buffer c))))"
    by (simp add: object_word_def)
  moreover have "\<not> nb * 1024 < 1024 + sizeof_ConnectionInfo"
    using assms(5) by (simp add: sizeof_ConnectionInfo_def)
  ultimately show ?thesis
    using assms(1-4) by (simp add: acquire_def construct_def fun_eq_iff overlaps_def sizeof_ConnectionInfo_def)
qed

section \<open>Live objects are apart\<close>

definition pool_apart :: "conn_pool \<Rightarrow> bool" where
  "pool_apart p = (\<forall>a b. objs p a \<noteq> None \<longrightarrow> objs p b \<noteq> None \<longrightarrow> a \<noteq> b \<longrightarrow> \<not> overlaps a b)"

lemma overlaps_sym: "overlaps a b = overlaps b a"
  by (auto simp: overlaps_def)

lemma apart_new: "Conn_pool_new nb bs ok = Inr p \<Longrightarrow> pool_apart p"
  by (auto simp: Conn_pool_new_def pool_apart_def split: if_splits)

lemma apart_acquire:
  assumes "pool_apart p" and "acquire p = Inr (a, p')"
  shows "pool_apart p'"
  using assms overlaps_sym
  by (auto simp: acquire_def construct_def pool_apart_def bind_res_eq_Inr split: paddr.splits if_splits)

lemma apart_release:
  assumes "pool_apart p" and "Release info p = Inr (fd, p')"
  shows "pool_apart p'"
  using assms
  by (cases info) (auto simp: Release_def pool_apart_def bind_res_eq_Inr split: if_splits)

lemma apart_add_map:
  assumes "pool_apart p" and "add_map fd info peer now p = Inr p'"
  shows "pool_apart p'"
  using assms
  by (auto simp: add_map_def pool_apart_def pool_update_def pool_object_def bind_res_eq_Inr Let_def
      split: paddr.splits option.splits if_splits)

text \<open>A history of the pool: calls of its operations, and changes its users make to live objects.\<close>

datatype pool_call = Acquire | Add_map int paddr | Release_conn paddr | Use_conn paddr ConnectionInfo

inductive pool_step :: "conn_pool \<Rightarrow> pool_call \<Rightarrow> conn_pool \<Rightarrow> bool" where
  step_acquire: "acquire p = Inr (a, p') \<Longrightarrow> pool_step p Acquire p'"
| step_add_map: "add_map fd info peer now p = Inr p' \<Longrightarrow> pool_step p (Add_map fd info) p'"
| step_release: "Release info p = Inr (fd, p') \<Longrightarrow> pool_step p (Release_conn info) p'"
| step_use: "pool_object p info = Inr c \<Longrightarrow> pool_step p (Use_conn info c') (pool_update p info c')"

lemma apart_use: "pool_apart p \<Longrightarrow> pool_object p info = Inr c \<Longrightarrow> pool_apart (pool_update p info c')"
  by (auto simp: pool_apart_def pool_update_def pool_object_def split: paddr.splits option.splits)

definition same_memory :: "conn_pool \<Rightarrow> conn_pool \<Rightarrow> bool" where
  "same_memory p q = (granted p = granted q \<and> total_blocks p = total_blocks q \<and> block_size p = block_size q)"

lemma memory_fixed:
  "acquire p = Inr (a, p') \<Longrightarrow> same_memory p p'"
  "Release info p = Inr (fd, p') \<Longrightarrow> same_memory p p'"
  "add_map i info peer now p = Inr p' \<Longrightarrow> same_memory p p'"
  "same_memory p (pool_update p info c)"
     apply (auto simp: acquire_def construct_def same_memory_def bind_res_eq_Inr split: paddr.splits if_splits)[1]
    apply (cases info; auto simp: Release_def same_memory_def bind_res_eq_Inr)
   apply (cases info; auto simp: add_map_def pool_update_def same_memory_def bind_res_eq_Inr Let_def)
  apply (cases info; simp add: pool_update_def same_memory_def)
  done

lemma pool_step_apart: "pool_step p e p' \<Longrightarrow> pool_apart p \<Longrightarrow> pool_apart p' \<and> same_memory p p'"
  by (cases rule: pool_step.cases)
    (auto intro: apart_acquire apart_add_map apart_release apart_use memory_fixed)

interpretation pool_life: inductive_invariant pool_step "projr (Conn_pool_new nb bs ok)"
  "\<lambda>es p. returns (Conn_pool_new nb bs ok) \<longrightarrow> pool_apart p \<and> same_memory (projr (Conn_pool_new nb bs ok)) p"
  for nb bs ok
proof unfold_locales
  show "returns (Conn_pool_new nb bs ok) \<longrightarrow> pool_apart (projr (Conn_pool_new nb bs ok)) \<and>
      same_memory (projr (Conn_pool_new nb bs ok)) (projr (Conn_pool_new nb bs ok))"
    using apart_new by (auto simp: returns_iff same_memory_def)
next
  fix es p e p'
  assume "returns (Conn_pool_new nb bs ok) \<longrightarrow> pool_apart p \<and> same_memory (projr (Conn_pool_new nb bs ok)) p"
    and "pool_step p e p'"
  with pool_step_apart[of p e p'] show "returns (Conn_pool_new nb bs ok) \<longrightarrow>
      pool_apart p' \<and> same_memory (projr (Conn_pool_new nb bs ok)) p'"
    by (auto simp: same_memory_def)
qed

lemma destroy_blocks_dead:
  assumes "i \<in> set is" and "objs p (i * block_size p) = None"
  shows "destroy_blocks p is = Inl Bad_pointer"
  using assms
proof (induction "is" arbitrary: p)
  case (Cons j js)
  let ?a = "j * block_size p"
  show ?case
  proof (cases "objs p ?a")
    case None
    then show ?thesis by (simp add: pool_object_def)
  next
    case (Some c)
    with Cons.prems have "i \<in> set js" by auto
    from Cons.IH[OF this, of "p\<lparr>objs := (objs p)(?a := None)\<rparr>"] Cons.prems(2) Some show ?thesis
      by (simp add: pool_object_def)
  qed
qed simp

section \<open>Properties\<close>

text \<open>C24. A pool whose blocks hold a whole connection works: it hands out each of its blocks once, every
  object handed out stays alive and apart from the others, and then it answers null.\<close>

theorem pool_sound:
  assumes "Conn_pool_new nb bs True = Inr p" and "sizeof_ConnectionInfo \<le> bs"
  shows "\<exists>p'. acquire_many nb p = Inr (map (\<lambda>i. Block (i * bs)) [0..<nb], p') \<and>
    acquire p' = Inr (Null_addr, p') \<and>
    (\<forall>i < nb. returns (pool_object p' (Block (i * bs)))) \<and>
    (\<forall>i < nb. \<forall>j < nb. i \<noteq> j \<longrightarrow> \<not> overlaps (i * bs) (j * bs))"
proof -
  note new = pool_after_new[OF assms]
  obtain p' where p': "acquire_many nb p = Inr (map (\<lambda>i. Block (i * bs)) [0..<nb], p')" "pool_after nb p'"
    "total_blocks p' = nb" "block_size p' = bs"
    using acquire_many_fits[OF new(1), of nb] new(2,3) by auto
  from p'(2-4) have "acquire p' = Inr (Null_addr, p')" by (simp add: pool_after_def acquire_def)
  moreover have "returns (pool_object p' (Block (i * bs)))" if "i < nb" for i
  proof -
    have "objs p' (i * bs) \<noteq> None" using p'(2-4) that by (auto simp: pool_after_def)
    then show ?thesis by (auto simp: pool_object_def)
  qed
  ultimately show ?thesis using p'(1) block_apart(1)[OF assms(2)] by blast
qed

theorem pool_sound_witness:
  "\<exists>p p'. Conn_pool_new 3 4096 True = Inr p \<and> acquire_many 3 p = Inr ([Block 0, Block 4096, Block 8192], p') \<and>
    acquire p' = Inr (Null_addr, p')"
proof -
  obtain p where p: "Conn_pool_new 3 4096 True = Inr p" by (simp add: Conn_pool_new_def)
  have "[0..<3] = [0, 1, 2 :: nat]" by (simp add: upt_rec)
  with pool_sound[OF p] p show ?thesis by (auto simp: sizeof_ConnectionInfo_def)
qed

text \<open>The server's pool has blocks of 1024 bytes, and a connection takes 2104. Constructing the first
  object wipes the links of the next two blocks, so the pool serves two connections and then answers
  null although all other blocks are free; and the second connection is built inside the first, whose
  object is dead from then on.\<close>

theorem pool_serves_two:
  assumes "Conn_pool_new nb 1024 True = Inr p" and "4 \<le> nb"
  shows "\<exists>p1 p2. acquire p = Inr (Block 0, p1) \<and> returns (pool_object p1 (Block 0)) \<and>
    acquire p1 = Inr (Block 1024, p2) \<and> returns (pool_object p2 (Block 1024)) \<and>
    pool_object p2 (Block 0) = Inl Bad_pointer \<and> acquire p2 = Inr (Null_addr, p2)"
proof -
  obtain p1 where p1: "acquire p = Inr (Block 0, p1)"
    "objs p1 = (\<lambda>b. if b = 0 then Some ConnectionInfo_new else None)" "free_list p1 = Block 1024"
    "total_blocks p1 = nb" "block_size p1 = 1024" using server_pool_first[OF assms] by blast
  obtain p2 where p2: "acquire p1 = Inr (Block 1024, p2)"
    "objs p2 = (\<lambda>b. if b = 1024 then Some ConnectionInfo_new else None)"
    "free_list p2 = bytes_word (take 8 (drop 1004 (get_buffer (ci_read_buffer ConnectionInfo_new))))"
    using server_pool_second[OF p1(2-5) assms(2)] by blast
  have "free_list p2 = Null_addr"
    unfolding p2(3) by (simp add: bytes_word_def ConnectionInfo_new_def ring_buffer_new_def get_buffer_def)
  then have "acquire p2 = Inr (Null_addr, p2)" by (simp add: acquire_def)
  with p1(1,2) p2(1,2) show ?thesis by (simp add: pool_object_def)
qed

theorem pool_serves_two_witness:
  "\<exists>p p1 p2. Conn_pool_new 10240 1024 True = Inr p \<and> acquire p = Inr (Block 0, p1) \<and>
    acquire p1 = Inr (Block 1024, p2) \<and> acquire p2 = Inr (Null_addr, p2)"
proof -
  obtain p where p: "Conn_pool_new 10240 1024 True = Inr p" by (simp add: Conn_pool_new_def)
  from pool_serves_two[OF p] p show ?thesis by auto
qed

text \<open>C38. The link of the second block lies in the read buffer of the first connection. If that
  connection has received bytes there that are not all zero, accepting the second connection makes them
  the head of the free list, and accepting a third dereferences them as an address.\<close>

theorem pool_free_list_from_client:
  assumes "Conn_pool_new nb 1024 True = Inr p" and "4 \<le> nb"
    and "\<exists>b \<in> set (take 8 (drop 1004 (get_buffer (ci_read_buffer c)))). b \<noteq> NUL"
  shows "\<exists>p1 p2. acquire p = Inr (Block 0, p1) \<and>
    acquire (pool_update p1 (Block 0) c) = Inr (Block 1024, p2) \<and> acquire p2 = Inl Bad_pointer"
proof -
  obtain p1 where p1: "acquire p = Inr (Block 0, p1)"
    "objs p1 = (\<lambda>b. if b = 0 then Some ConnectionInfo_new else None)" "free_list p1 = Block 1024"
    "total_blocks p1 = nb" "block_size p1 = 1024" using server_pool_first[OF assms(1,2)] by blast
  let ?p1 = "pool_update p1 (Block 0) c"
  have "objs ?p1 = (\<lambda>b. if b = 0 then Some c else None)" using p1(2) by (auto simp: pool_update_def)
  moreover have "free_list ?p1 = Block 1024" "total_blocks ?p1 = nb" "block_size ?p1 = 1024"
    using p1(3-5) by (simp_all add: pool_update_def)
  ultimately obtain p2 where p2: "acquire ?p1 = Inr (Block 1024, p2)"
    "free_list p2 = bytes_word (take 8 (drop 1004 (get_buffer (ci_read_buffer c))))"
    using server_pool_second[of ?p1 c nb] assms(2) by blast
  then have "free_list p2 = Wild_addr" using assms(3) by (auto simp: bytes_word_def)
  then have "acquire p2 = Inl Bad_pointer" by (simp add: acquire_def)
  with p1(1) p2(1) show ?thesis by blast
qed

theorem pool_free_list_from_client_witness:
  "\<exists>p p1 p2 c1. Conn_pool_new 10240 1024 True = Inr p \<and> acquire p = Inr (Block 0, p1) \<and>
    conn_read (Bytes (replicate 1024 CHR ''x'')) 7 ConnectionInfo_new = Inr (1024, Bytes [], c1) \<and>
    acquire (pool_update p1 (Block 0) c1) = Inr (Block 1024, p2) \<and> acquire p2 = Inl Bad_pointer"
proof -
  obtain p where p: "Conn_pool_new 10240 1024 True = Inr p" by (simp add: Conn_pool_new_def)
  obtain c1 where c1: "conn_read (Bytes (replicate 1024 CHR ''x'')) 7 ConnectionInfo_new = Inr (1024, Bytes [], c1)"
    "get_buffer (ci_read_buffer c1) =
      replicate 1024 CHR ''x'' @ drop 1024 (get_buffer (ci_read_buffer ConnectionInfo_new))"
    using conn_read_ok[OF conn_new_at, of "replicate 1024 CHR ''x''" 7]
    by (auto simp: RING_BUFFER_SIZE_def simp del: replicate.simps)
  have "CHR ''x'' \<in> set (take 8 (drop 1004 (get_buffer (ci_read_buffer c1))))"
    unfolding c1(2) by simp
  then have "\<exists>b \<in> set (take 8 (drop 1004 (get_buffer (ci_read_buffer c1)))). b \<noteq> NUL" by (rule bexI[rotated]) simp
  from pool_free_list_from_client[OF p _ this] p c1(1) show ?thesis by auto
qed

text \<open>\<open>Release\<close> ends the pool: it puts the address of its own parameter on the free list, so the
  next acquisition reads a variable that no longer exists. And it leaves the map as it was, so the
  descriptor of the closed connection still leads to the dead object, also after the descriptor has
  been given to a new connection.\<close>

theorem release_breaks_pool:
  assumes "pool_object p info = Inr c" and "id_map p = map_insert (<) (to_size_t fd) info []"
  shows "\<exists>p'. Release info p = Inr (conn_destroy c, p') \<and> acquire p' = Inl Bad_pointer \<and>
    pool_get fd p' = Inr info \<and> pool_object p' info = Inl Bad_pointer \<and> Release info p' = Inl Bad_pointer \<and>
    (\<forall>q new peer now. id_map q = id_map p' \<and> returns (add_map fd new peer now q) \<longrightarrow>
       pool_get fd (projr (add_map fd new peer now q)) = Inr info)"
proof -
  obtain a where a: "info = Block a" "objs p a = Some c"
    using assms(1) by (auto simp: pool_object_def split: paddr.splits option.splits)
  let ?p' = "p\<lparr>objs := (objs p)(a := None), free_list := Stack_addr\<rparr>"
  have rel: "Release info p = Inr (conn_destroy c, ?p')" using a by (simp add: Release_def pool_object_def)
  have ordered: "map_ordered (<) (id_map ?p')" using assms(2) by simp
  have "pool_get fd (projr (add_map fd new peer now q)) = Inr info"
    if q: "id_map q = id_map ?p'" "returns (add_map fd new peer now q)" for q new peer now
  proof -
    obtain c1 where "pool_object q new = Inr c1" using q(2) by (auto simp: add_map_def returns_iff bind_res_eq_Inr)
    then have "id_map (projr (add_map fd new peer now q)) = map_insert (<) (to_size_t fd) new (id_map ?p')"
      using q(1) by (auto simp: add_map_def pool_update_def Let_def split: paddr.splits)
    with id_map.find_insert[OF ordered] assms(2) show ?thesis by (simp add: pool_get_def)
  qed
  with rel a assms(2) show ?thesis
    by (intro exI[of _ ?p']) (simp add: acquire_def pool_get_def pool_object_def Release_def)
qed

theorem release_breaks_pool_witness:
  "\<exists>p p1 p2 p3. Conn_pool_new 10240 1024 True = Inr p \<and> acquire p = Inr (Block 0, p1) \<and>
    add_map 5 (Block 0) \<lparr>sin_addr = 1, sin_port = 2\<rparr> 7 p1 = Inr p2 \<and>
    Release (Block 0) p2 = Inr (Some 5, p3) \<and> acquire p3 = Inl Bad_pointer \<and> pool_get 5 p3 = Inr (Block 0)"
proof -
  obtain p where p: "Conn_pool_new 10240 1024 True = Inr p" by (simp add: Conn_pool_new_def)
  obtain p1 where p1: "acquire p = Inr (Block 0, p1)"
    "objs p1 = (\<lambda>b. if b = 0 then Some ConnectionInfo_new else None)" "id_map p1 = []"
    using server_pool_first[OF p] by auto
  let ?c = "ConnectionInfo_new\<lparr>ci_fd := 5, ci_last_active_time := 7, ci_addr := \<lparr>sin_addr = 1, sin_port = 2\<rparr>\<rparr>"
  obtain p2 where p2: "add_map 5 (Block 0) \<lparr>sin_addr = 1, sin_port = 2\<rparr> 7 p1 = Inr p2"
    "objs p2 = (objs p1)(0 \<mapsto> ?c)" "id_map p2 = map_insert (<) (to_size_t 5) (Block 0) []"
    using p1(2,3) by (simp add: add_map_def pool_object_def pool_update_def Let_def)
  have "pool_object p2 (Block 0) = Inr ?c" by (simp add: pool_object_def p2(2))
  from release_breaks_pool[OF this p2(3)] p p1(1) p2(1) show ?thesis by (auto simp: conn_destroy_def)
qed

text \<open>The destructor of the pool runs the destructor of a connection on every block. Live objects
  never overlap, so in a pool whose blocks are smaller than a connection some block holds no object,
  and destroying the pool destroys something that is no object.\<close>

theorem pool_destructor_faults:
  assumes "Conn_pool_new nb bs True = Inr p0" and "run pool_step p0 es p" and "2 \<le> nb"
    and "bs < sizeof_ConnectionInfo"
  shows "Conn_pool_destroy p = Inl Bad_pointer"
proof -
  have "run pool_step (projr (Conn_pool_new nb bs True)) es p" using assms(1,2) by simp
  from pool_life.run_I[OF this] have p: "pool_apart p" "same_memory p0 p" using assms(1) by simp_all
  then have q: "granted p" "total_blocks p = nb" "block_size p = bs" "0 < bs"
    using assms(1) by (auto simp: Conn_pool_new_def same_memory_def split: if_splits)
  have "overlaps 0 bs" using assms(4) by (simp add: overlaps_def)
  then have "objs p (0 * block_size p) = None \<or> objs p (1 * block_size p) = None"
    using p(1) q(3,4) unfolding pool_apart_def by auto
  moreover have "0 \<in> set [0..<total_blocks p]" "1 \<in> set [0..<total_blocks p]" using assms(3) q(2) by auto
  ultimately have "destroy_blocks p [0..<total_blocks p] = Inl Bad_pointer"
    using destroy_blocks_dead by blast
  with q(1) show ?thesis by (simp add: Conn_pool_destroy_def)
qed

theorem pool_destructor_faults_witness:
  "\<exists>p p1. Conn_pool_new 10240 1024 True = Inr p \<and> acquire p = Inr (Block 0, p1) \<and>
    Conn_pool_destroy p1 = Inl Bad_pointer"
proof -
  obtain p where p: "Conn_pool_new 10240 1024 True = Inr p" by (simp add: Conn_pool_new_def)
  then obtain p1 where p1: "acquire p = Inr (Block 0, p1)" using server_pool_first[OF p] by auto
  from pool_destructor_faults[OF p run_one[where step = pool_step, OF step_acquire[OF p1]]] p p1
  show ?thesis by (auto simp: sizeof_ConnectionInfo_def)
qed

end
