(* ===== verification/KvHeap.thy ===== *)
theory KvHeap
  imports Prelude
begin

text \<open>
  The memory of the key-value engine (\<open>kv_core/kvstore.cpp\<close>, \<open>kv_core/hash.cpp\<close>): the blocks that
  \<open>kvstore_malloc\<close> and \<open>kvstore_free\<close> manage, with the reads and writes the engine performs on
  them. An address is a natural number, 0 is the null pointer. A block is raw memory of some size,
  a \<open>hashnode_t\<close>, a character block that holds a C string, or the array of bucket heads.
  Every access is checked: reading through an address that is not live, or that holds another kind
  of block, is \<open>Bad_pointer\<close>, freeing such an address is \<open>Bad_free\<close>.

  The C library behind \<open>malloc\<close> is free to choose: whether a request is granted (\<open>h_fail\<close>) and
  what an array it grants contains (\<open>h_junk\<close>). Both are answers of the environment, fixed but
  arbitrary. Addresses are handed out in increasing order and never twice, so an access to a freed
  block is always visible as a fault.
\<close>

type_synonym addr = nat

text \<open>\<open>hash.cpp\<close>, \<open>struct hashnode_s\<close> with \<open>ENABLE_POINTER_KEY\<close>, which \<open>kvstore.h\<close> defines.\<close>

record hashnode =
  n_key :: addr
  n_value :: addr
  n_next :: addr

datatype block =
    Raw nat
  | Node hashnode
  | Chars string
  | Slots nat "nat \<Rightarrow> addr"

record heap =
  h_blk :: "addr \<Rightarrow> block option"
  h_top :: addr
  h_fail :: "addr \<Rightarrow> bool"
  h_junk :: "nat \<Rightarrow> addr"

text \<open>A \<open>char *\<close> argument: null, the start of a readable C string, or anything else.\<close>

datatype cptr = Null | Str string | Wild

definition deref :: "cptr \<Rightarrow> string res" where
  "deref p = (case p of Str s \<Rightarrow> Inr s | _ \<Rightarrow> Inl Bad_pointer)"

lemma deref_simps [simp, res_simps]:
  "deref (Str s) = Inr s" "deref Null = Inl Bad_pointer" "deref Wild = Inl Bad_pointer"
  by (simp_all add: deref_def)

section \<open>Allocation\<close>

definition kvstore_malloc :: "nat \<Rightarrow> heap \<Rightarrow> addr \<times> heap" where
  "kvstore_malloc sz h =
     (let a = Suc (h_top h)
      in if h_fail h a then (0, h\<lparr>h_top := a\<rparr>)
         else (a, h\<lparr>h_top := a, h_blk := (h_blk h)(a \<mapsto> Raw sz)\<rparr>))"

definition kvstore_free :: "addr \<Rightarrow> heap \<Rightarrow> heap res" where
  "kvstore_free p h =
     (if p = 0 then Inr h
      else case h_blk h p of
             None \<Rightarrow> Inl Bad_free
           | Some _ \<Rightarrow> Inr (h\<lparr>h_blk := (h_blk h)(p := None)\<rparr>))"

section \<open>Checked accesses\<close>

definition rd_node :: "addr \<Rightarrow> heap \<Rightarrow> hashnode res" where
  "rd_node p h =
     (case h_blk h p of
        Some (Node n) \<Rightarrow> Inr n
      | Some (Raw _) \<Rightarrow> Inl Uninit_read
      | _ \<Rightarrow> Inl Bad_pointer)"

definition wr_node :: "addr \<Rightarrow> hashnode \<Rightarrow> heap \<Rightarrow> heap res" where
  "wr_node p n h =
     (case h_blk h p of
        Some (Node _) \<Rightarrow> Inr (h\<lparr>h_blk := (h_blk h)(p \<mapsto> Node n)\<rparr>)
      | Some (Raw _) \<Rightarrow> Inr (h\<lparr>h_blk := (h_blk h)(p \<mapsto> Node n)\<rparr>)
      | _ \<Rightarrow> Inl Bad_pointer)"

definition rd_str :: "addr \<Rightarrow> heap \<Rightarrow> string res" where
  "rd_str p h =
     (case h_blk h p of
        Some (Chars s) \<Rightarrow> Inr s
      | Some (Raw _) \<Rightarrow> Inl Uninit_read
      | _ \<Rightarrow> Inl Bad_pointer)"

text \<open>\<open>strcpy\<close> into a fresh block stores the characters and the terminating zero.\<close>

definition c_strcpy :: "addr \<Rightarrow> string \<Rightarrow> heap \<Rightarrow> heap res" where
  "c_strcpy p s h =
     (case h_blk h p of
        Some (Raw sz) \<Rightarrow>
          if length s < sz then Inr (h\<lparr>h_blk := (h_blk h)(p \<mapsto> Chars s)\<rparr>)
          else Inl Overflow_write
      | _ \<Rightarrow> Inl Bad_pointer)"

definition rd_slot :: "addr \<Rightarrow> int \<Rightarrow> heap \<Rightarrow> addr res" where
  "rd_slot p i h =
     (case h_blk h p of
        Some (Slots n f) \<Rightarrow>
          if 0 \<le> i \<and> i < int n then Inr (f (nat i)) else Inl Out_of_bounds
      | _ \<Rightarrow> Inl Bad_pointer)"

definition wr_slot :: "addr \<Rightarrow> int \<Rightarrow> addr \<Rightarrow> heap \<Rightarrow> heap res" where
  "wr_slot p i v h =
     (case h_blk h p of
        Some (Slots n f) \<Rightarrow>
          if 0 \<le> i \<and> i < int n
          then Inr (h\<lparr>h_blk := (h_blk h)(p \<mapsto> Slots n (f(nat i := v)))\<rparr>)
          else Inl Out_of_bounds
      | _ \<Rightarrow> Inl Bad_pointer)"

lemmas heap_op_defs = kvstore_malloc_def kvstore_free_def rd_node_def wr_node_def rd_str_def
  c_strcpy_def rd_slot_def wr_slot_def

text \<open>What the accesses return on a block of the right kind.\<close>

lemma kvstore_free_live [simp]:
  "h_blk h p = Some b \<Longrightarrow> p \<noteq> 0 \<Longrightarrow> kvstore_free p h = Inr (h\<lparr>h_blk := (h_blk h)(p := None)\<rparr>)"
  by (simp add: kvstore_free_def)

lemma kvstore_free_null [simp]: "kvstore_free 0 h = Inr h"
  by (simp add: kvstore_free_def)

lemma rd_node_Node [simp]: "h_blk h p = Some (Node n) \<Longrightarrow> rd_node p h = Inr n"
  by (simp add: rd_node_def)

lemma rd_str_Chars [simp]: "h_blk h p = Some (Chars s) \<Longrightarrow> rd_str p h = Inr s"
  by (simp add: rd_str_def)

lemma wr_node_Node [simp]:
  "h_blk h p = Some (Node m) \<Longrightarrow> wr_node p n h = Inr (h\<lparr>h_blk := (h_blk h)(p \<mapsto> Node n)\<rparr>)"
  by (simp add: wr_node_def)

lemma rd_slot_Slots [simp]:
  "h_blk h p = Some (Slots n f) \<Longrightarrow> i < n \<Longrightarrow> rd_slot p (int i) h = Inr (f i)"
  by (simp add: rd_slot_def)

lemma wr_slot_Slots [simp]:
  "h_blk h p = Some (Slots n f) \<Longrightarrow> i < n \<Longrightarrow>
   wr_slot p (int i) v h = Inr (h\<lparr>h_blk := (h_blk h)(p \<mapsto> Slots n (f(i := v)))\<rparr>)"
  by (simp add: wr_slot_def)

end
