(* ===== verification/HashTable.thy ===== *)
theory HashTable
  imports KvHeap
begin

text \<open>
  The chained hash table of \<open>kv_core/hash.cpp\<close>, at the level of its pointers: the bucket array, the
  \<open>hashnode_t\<close> cells and the two character blocks each cell owns live in the heap of theory
  \<open>KvHeap\<close>. One definition per C function, in the order of the file. The loops that follow
  \<open>next\<close> pointers take a fuel of one more than the number of addresses ever handed out: a walk that
  needs more visits some cell twice, so running out of fuel means the C loop never ends (\<open>Diverges\<close>).
  \<open>chain\<close> is the shape of a well-formed bucket; what the walks compute on it closes the theory.
\<close>

definition MAX_TABLE_SIZE :: nat where
  "MAX_TABLE_SIZE = 102400"

lemma MAX_TABLE_SIZE_pos [simp]: "0 < MAX_TABLE_SIZE"
  by (simp add: MAX_TABLE_SIZE_def)

text \<open>\<open>sizeof(hashnode_t)\<close> and \<open>sizeof(hashnode_t *)\<close> on x86-64.\<close>

definition sizeof_hashnode :: nat where "sizeof_hashnode = 24"

definition sizeof_ptr :: nat where "sizeof_ptr = 8"

text \<open>\<open>ht_count\<close> and the sum of a hash are C \<open>int\<close>s, kept here as integers; \<open>KvSafety\<close> says when they fit.\<close>

record hashtable =
  ht_nodes :: addr
  ht_max_slots :: int
  ht_count :: int

record kvstate =
  hp :: heap
  Hash :: hashtable

text \<open>The \<open>hashtable_t *\<close> argument: null, or the address of the one table, \<open>Hash\<close>.\<close>

datatype table_ptr = Null_table | Ref_Hash

section \<open>The hash function\<close>

fun hash_sum :: "int \<Rightarrow> string \<Rightarrow> int" where
  "hash_sum acc [] = acc"
| "hash_sum acc (c # cs) = hash_sum (acc + schar c) cs"

definition hash_index :: "string \<Rightarrow> int" where
  "hash_index key = c_rem (hash_sum 0 key) (int MAX_TABLE_SIZE)"

definition hash_fun :: "cptr \<Rightarrow> int res" where
  "hash_fun key = (if key = Null then Inr (- 1) else bind_res (deref key) (\<lambda>k. Inr (hash_index k)))"

lemma hash_fun_Str [simp]: "hash_fun (Str k) = Inr (hash_index k)"
  by (simp add: hash_fun_def)

section \<open>Creating a node\<close>

definition create_node :: "cptr \<Rightarrow> cptr \<Rightarrow> heap \<Rightarrow> (addr \<times> heap) res" where
  "create_node key value h0 =
     (let (node, h1) = kvstore_malloc sizeof_hashnode h0
      in if node = 0 then Inr (0, h1)
         else bind_res (deref key) (\<lambda>k.
           let (kp, h2) = kvstore_malloc (length k + 1) h1
           in if kp = 0 then bind_res (kvstore_free node h2) (\<lambda>h3. Inr (0, h3))
              else bind_res (c_strcpy kp k h2) (\<lambda>h3.
                bind_res (deref value) (\<lambda>v.
                  let (vp, h4) = kvstore_malloc (length v + 1) h3
                  in if vp = 0
                     then bind_res (kvstore_free kp h4) (\<lambda>h5.
                            bind_res (kvstore_free node h5) (\<lambda>h6. Inr (0, h6)))
                     else bind_res (c_strcpy vp v h4) (\<lambda>h5.
                            bind_res (wr_node node \<lparr>n_key = kp, n_value = vp, n_next = 0\<rparr> h5)
                              (\<lambda>h6. Inr (node, h6)))))))"

section \<open>Creating and destroying the table\<close>

text \<open>
  The array of bucket heads is allocated and not cleared: it holds whatever the allocator's memory
  held, \<open>h_junk\<close>.
\<close>

definition init_hashtable :: "table_ptr \<Rightarrow> kvstate \<Rightarrow> int \<times> kvstate" where
  "init_hashtable hash s =
     (if hash = Null_table then (- 1, s)
      else let (p, h) = kvstore_malloc (sizeof_ptr * MAX_TABLE_SIZE) (hp s)
           in if p = 0 then (- 1, s\<lparr>hp := h, Hash := (Hash s)\<lparr>ht_nodes := 0\<rparr>\<rparr>)
              else (0, s\<lparr>hp := h\<lparr>h_blk := (h_blk h)(p \<mapsto> Slots MAX_TABLE_SIZE (h_junk h))\<rparr>,
                         Hash := \<lparr>ht_nodes = p, ht_max_slots = int MAX_TABLE_SIZE, ht_count = 0\<rparr>\<rparr>))"

text \<open>
  \<open>dest_hashtable\<close> frees the cells of every bucket, each after its successor has been stored in the
  bucket, and then the array. It does not free the key and value blocks of the cells.
\<close>

fun dest_bucket :: "nat \<Rightarrow> addr \<Rightarrow> nat \<Rightarrow> addr \<Rightarrow> heap \<Rightarrow> heap res" where
  "dest_bucket 0 arr i node h = Inl Diverges"
| "dest_bucket (Suc fuel) arr i node h =
     (if node = 0 then Inr h
      else bind_res (rd_node node h) (\<lambda>n.
        bind_res (wr_slot arr (int i) (n_next n) h) (\<lambda>h1.
          bind_res (kvstore_free node h1) (\<lambda>h2. dest_bucket fuel arr i (n_next n) h2))))"

fun dest_slots :: "addr \<Rightarrow> nat list \<Rightarrow> heap \<Rightarrow> heap res" where
  "dest_slots arr [] h = Inr h"
| "dest_slots arr (i # is) h =
     bind_res (rd_slot arr (int i) h) (\<lambda>node.
       bind_res (dest_bucket (Suc (h_top h)) arr i node h) (\<lambda>h1. dest_slots arr is h1))"

definition dest_hashtable :: "table_ptr \<Rightarrow> kvstate \<Rightarrow> kvstate res" where
  "dest_hashtable hash s =
     (if hash = Null_table then Inr s
      else bind_res (dest_slots (ht_nodes (Hash s)) [0..<nat (ht_max_slots (Hash s))] (hp s)) (\<lambda>h1.
        bind_res (kvstore_free (ht_nodes (Hash s)) h1) (\<lambda>h2. Inr (s\<lparr>hp := h2\<rparr>))))"

section \<open>Looking a key up along a bucket\<close>

text \<open>
  The loop shared by \<open>put_kv_hashtable\<close>, \<open>get_kv_hashtable\<close> and \<open>kvs_hash_modify\<close>: the first cell
  whose key compares equal, or null.
\<close>

fun find_node :: "nat \<Rightarrow> addr \<Rightarrow> string \<Rightarrow> heap \<Rightarrow> addr res" where
  "find_node 0 node key h = Inl Diverges"
| "find_node (Suc fuel) node key h =
     (if node = 0 then Inr 0
      else bind_res (rd_node node h) (\<lambda>n.
        bind_res (rd_str (n_key n) h) (\<lambda>k.
          if k = key then Inr node else find_node fuel (n_next n) key h)))"

section \<open>The operations\<close>

definition put_kv_hashtable ::
  "table_ptr \<Rightarrow> cptr \<Rightarrow> cptr \<Rightarrow> kvstate \<Rightarrow> (int \<times> kvstate) res" where
  "put_kv_hashtable hash key value s =
     (if hash = Null_table \<or> key = Null \<or> value = Null then Inr (- 1, s)
      else bind_res (hash_fun key) (\<lambda>idx.
        bind_res (deref key) (\<lambda>k.
          bind_res (rd_slot (ht_nodes (Hash s)) idx (hp s)) (\<lambda>head.
            bind_res (find_node (Suc (h_top (hp s))) head k (hp s)) (\<lambda>found.
              if found \<noteq> 0 then Inr (1, s)
              else bind_res (create_node key value (hp s)) (\<lambda>(new_node, h1).
                bind_res (rd_slot (ht_nodes (Hash s)) idx h1) (\<lambda>first.
                  bind_res (rd_node new_node h1) (\<lambda>n.
                    bind_res (wr_node new_node (n\<lparr>n_next := first\<rparr>) h1) (\<lambda>h2.
                      bind_res (wr_slot (ht_nodes (Hash s)) idx new_node h2) (\<lambda>h3.
                        Inr (0, s\<lparr>hp := h3,
                                  Hash := (Hash s)\<lparr>ht_count := ht_count (Hash s) + 1\<rparr>\<rparr>)))))))))))"

definition get_kv_hashtable :: "table_ptr \<Rightarrow> cptr \<Rightarrow> kvstate \<Rightarrow> addr res" where
  "get_kv_hashtable hash key s =
     (if hash = Null_table \<or> key = Null then Inr 0
      else bind_res (hash_fun key) (\<lambda>idx.
        bind_res (deref key) (\<lambda>k.
          bind_res (rd_slot (ht_nodes (Hash s)) idx (hp s)) (\<lambda>head.
            bind_res (find_node (Suc (h_top (hp s))) head k (hp s)) (\<lambda>found.
              if found = 0 then Inr 0
              else bind_res (rd_node found (hp s)) (\<lambda>n. Inr (n_value n)))))))"

definition count_kv_hashtable :: "kvstate \<Rightarrow> int" where
  "count_kv_hashtable s = ht_count (Hash s)"

text \<open>
  The second loop of \<open>delete_kv_hashtable\<close>: from the head cell, which does not match, to the last
  cell whose successor is null or matches.
\<close>

fun find_prev :: "nat \<Rightarrow> addr \<Rightarrow> string \<Rightarrow> heap \<Rightarrow> addr res" where
  "find_prev 0 cur key h = Inl Diverges"
| "find_prev (Suc fuel) cur key h =
     bind_res (rd_node cur h) (\<lambda>c.
       if n_next c = 0 then Inr cur
       else bind_res (rd_node (n_next c) h) (\<lambda>n.
         bind_res (rd_str (n_key n) h) (\<lambda>k.
           if k = key then Inr cur else find_prev fuel (n_next c) key h)))"

text \<open>Releasing a cell: its key, its value, then the cell.\<close>

definition free_node :: "addr \<Rightarrow> heap \<Rightarrow> heap res" where
  "free_node p h =
     bind_res (rd_node p h) (\<lambda>n.
       bind_res (if n_key n \<noteq> 0 then kvstore_free (n_key n) h else Inr h) (\<lambda>h1.
         bind_res (if n_value n \<noteq> 0 then kvstore_free (n_value n) h1 else Inr h1) (\<lambda>h2.
           kvstore_free p h2)))"

definition delete_kv_hashtable :: "table_ptr \<Rightarrow> cptr \<Rightarrow> kvstate \<Rightarrow> (int \<times> kvstate) res" where
  "delete_kv_hashtable hash key s =
     (if hash = Null_table \<or> key = Null then Inr (- 2, s)
      else bind_res (hash_fun key) (\<lambda>idx.
        bind_res (deref key) (\<lambda>k.
          bind_res (rd_slot (ht_nodes (Hash s)) idx (hp s)) (\<lambda>head.
            if head = 0 then Inr (- 1, s)
            else bind_res (rd_node head (hp s)) (\<lambda>hd_node.
              bind_res (rd_str (n_key hd_node) (hp s)) (\<lambda>hd_key.
                if hd_key = k
                then bind_res (wr_slot (ht_nodes (Hash s)) idx (n_next hd_node) (hp s)) (\<lambda>h1.
                       bind_res (free_node head h1) (\<lambda>h2.
                         Inr (0, s\<lparr>hp := h2,
                                   Hash := (Hash s)\<lparr>ht_count := ht_count (Hash s) - 1\<rparr>\<rparr>)))
                else bind_res (find_prev (Suc (h_top (hp s))) head k (hp s)) (\<lambda>cur.
                       bind_res (rd_node cur (hp s)) (\<lambda>c.
                         if n_next c = 0 then Inr (- 1, s)
                         else bind_res (rd_node (n_next c) (hp s)) (\<lambda>t.
                           bind_res (wr_node cur (c\<lparr>n_next := n_next t\<rparr>) (hp s)) (\<lambda>h1.
                             bind_res (free_node (n_next c) h1) (\<lambda>h2.
                               Inr (0, s\<lparr>hp := h2,
                                         Hash := (Hash s)\<lparr>ht_count := ht_count (Hash s) - 1\<rparr>\<rparr>))))))))))))"

definition exist_kv_hashtable :: "table_ptr \<Rightarrow> cptr \<Rightarrow> kvstate \<Rightarrow> int res" where
  "exist_kv_hashtable hash key s =
     bind_res (get_kv_hashtable hash key s) (\<lambda>value. Inr (if value \<noteq> 0 then 1 else 0))"

definition kvstore_hash_create :: "table_ptr \<Rightarrow> kvstate \<Rightarrow> int \<times> kvstate" where
  "kvstore_hash_create hash s = init_hashtable hash s"

definition kvstore_hash_destory :: "table_ptr \<Rightarrow> kvstate \<Rightarrow> kvstate res" where
  "kvstore_hash_destory hash s = dest_hashtable hash s"

definition kvs_hash_set :: "table_ptr \<Rightarrow> cptr \<Rightarrow> cptr \<Rightarrow> kvstate \<Rightarrow> (int \<times> kvstate) res" where
  "kvs_hash_set hash key value s = put_kv_hashtable hash key value s"

definition kvs_hash_get :: "table_ptr \<Rightarrow> cptr \<Rightarrow> kvstate \<Rightarrow> addr res" where
  "kvs_hash_get hash key s = get_kv_hashtable hash key s"

definition kvs_hash_delete :: "table_ptr \<Rightarrow> cptr \<Rightarrow> kvstate \<Rightarrow> (int \<times> kvstate) res" where
  "kvs_hash_delete hash key s = delete_kv_hashtable hash key s"

text \<open>
  \<open>kvs_hash_modify\<close> frees the old value before it asks for the new block; when the request is
  refused it has stored null in the cell and stops at \<open>assert(0)\<close>.
\<close>

definition kvs_hash_modify :: "table_ptr \<Rightarrow> cptr \<Rightarrow> cptr \<Rightarrow> kvstate \<Rightarrow> (int \<times> kvstate) res" where
  "kvs_hash_modify hash key value s =
     (if hash = Null_table \<or> key = Null \<or> value = Null then Inr (- 1, s)
      else bind_res (hash_fun key) (\<lambda>idx.
        bind_res (deref key) (\<lambda>k.
          bind_res (rd_slot (ht_nodes (Hash s)) idx (hp s)) (\<lambda>head.
            bind_res (find_node (Suc (h_top (hp s))) head k (hp s)) (\<lambda>node.
              if node = 0 then Inr (- 1, s)
              else bind_res (rd_node node (hp s)) (\<lambda>n.
                bind_res (kvstore_free (n_value n) (hp s)) (\<lambda>h1.
                  bind_res (deref value) (\<lambda>v.
                    let (vp, h2) = kvstore_malloc (length v + 1) h1
                    in bind_res (wr_node node (n\<lparr>n_value := vp\<rparr>) h2) (\<lambda>h3.
                         if vp = 0 then Inl Assert_failed
                         else bind_res (c_strcpy vp v h3) (\<lambda>h4. Inr (0, s\<lparr>hp := h4\<rparr>)))))))))))"

definition kvs_hash_count :: "kvstate \<Rightarrow> int" where
  "kvs_hash_count s = ht_count (Hash s)"

lemmas kvs_wrapper_defs = kvs_hash_set_def kvs_hash_get_def kvs_hash_delete_def
  kvstore_hash_create_def kvstore_hash_destory_def

section \<open>The hash function on keys\<close>

lemma hash_sum_eq: "hash_sum a k = a + hash_sum 0 k"
proof (induction k arbitrary: a)
  case (Cons c cs)
  from Cons[of "a + schar c"] Cons[of "schar c"] show ?case by simp
qed simp

lemma hash_sum_append: "hash_sum a (k @ l) = hash_sum (hash_sum a k) l"
  by (induction k arbitrary: a) simp_all

lemma hash_sum_bounds:
  "- 128 * int (length k) \<le> hash_sum 0 k" "hash_sum 0 k \<le> 127 * int (length k)"
proof (induction k)
  case (Cons c cs)
  case 1 show ?case using Cons schar_bounds(1)[of c] by (simp add: hash_sum_eq[of "schar c"])
  case 2 show ?case using Cons schar_bounds(2)[of c] by (simp add: hash_sum_eq[of "schar c"])
qed simp_all

text \<open>Keys that hash to a slot of the array.\<close>

definition hashable :: "string \<Rightarrow> bool" where
  "hashable k = (0 \<le> hash_index k)"

lemma hash_index_less: "hash_index k < int MAX_TABLE_SIZE"
  unfolding hash_index_def by (rule c_rem_bounds) simp

lemma hash_index_nat:
  assumes "hashable k"
  shows "hash_index k = int (nat (hash_index k))" and "nat (hash_index k) < MAX_TABLE_SIZE"
  using assms hash_index_less[of k] by (simp_all add: hashable_def)

lemma hashable_if_ascii:
  assumes "\<forall>c \<in> set k. of_char c < (128 :: int)"
  shows "hashable k"
proof -
  have "0 \<le> hash_sum 0 k" using assms
  proof (induction k)
    case (Cons c cs)
    then have "0 \<le> schar c" using of_char_int_bounds(1)[of c] by (simp add: schar_def)
    with Cons show ?case by (simp add: hash_sum_eq[of "schar c"])
  qed simp
  then show ?thesis by (simp add: hashable_def hash_index_def c_rem_nonneg)
qed

end
