(* ===== verification/HashShape.thy ===== *)
theory HashShape
  imports HashTable
begin

text \<open>
  The shape of a well-formed table. A bucket is a null-terminated chain of cells, described by the
  list of its entries (\<open>chain\<close>). \<open>table_rel s E\<close> says that bucket \<open>i\<close> of the table in state \<open>s\<close> is
  the chain of \<open>E i\<close>: every cell sits in the slot its key hashes to, no key occurs twice, no two
  cells share a block, the counter is the number of cells, and every live block belongs to the
  table. \<open>contents E\<close> is the partial map from keys to values that such a table stands for.
  The walks of \<open>hash.cpp\<close> are evaluated on chains here; the operations follow in \<open>HashRefine\<close>.
\<close>

record entry =
  e_node :: addr
  e_kaddr :: addr
  e_vaddr :: addr
  e_key :: string
  e_val :: string

definition eaddrs :: "entry \<Rightarrow> addr list" where
  "eaddrs e = [e_node e, e_kaddr e, e_vaddr e]"

definition addrs :: "entry list \<Rightarrow> addr list" where
  "addrs es = concat (map eaddrs es)"

definition kvs :: "entry list \<Rightarrow> (string \<times> string) list" where
  "kvs es = map (\<lambda>e. (e_key e, e_val e)) es"

fun chain :: "heap \<Rightarrow> addr \<Rightarrow> entry list \<Rightarrow> bool" where
  "chain h p [] = (p = 0)"
| "chain h p (e # es) =
     (p = e_node e \<and> p \<noteq> 0 \<and> e_kaddr e \<noteq> 0 \<and> e_vaddr e \<noteq> 0 \<and>
      (\<exists>q. h_blk h p = Some (Node \<lparr>n_key = e_kaddr e, n_value = e_vaddr e, n_next = q\<rparr>) \<and>
           h_blk h (e_kaddr e) = Some (Chars (e_key e)) \<and>
           h_blk h (e_vaddr e) = Some (Chars (e_val e)) \<and>
           chain h q es))"

lemma addrs_simps [simp]:
  "addrs [] = []" "addrs (e # es) = e_node e # e_kaddr e # e_vaddr e # addrs es"
  "addrs (xs @ ys) = addrs xs @ addrs ys"
  by (simp_all add: addrs_def eaddrs_def)

lemma kvs_simps [simp]:
  "kvs [] = []" "kvs (e # es) = (e_key e, e_val e) # kvs es" "kvs (xs @ ys) = kvs xs @ kvs ys"
  by (simp_all add: kvs_def)

lemma set_addrs_mem: "e \<in> set es \<Longrightarrow> e_node e \<in> set (addrs es)"
  by (induction es) auto

lemma length_addrs: "length (addrs es) = 3 * length es"
  by (induction es) auto

lemma chain_frame:
  assumes "chain h p es" and "\<And>a. a \<in> set (addrs es) \<Longrightarrow> h_blk h' a = h_blk h a"
  shows "chain h' p es"
  using assms by (induction es arbitrary: p) auto

lemma chain_live: "chain h p es \<Longrightarrow> a \<in> set (addrs es) \<Longrightarrow> h_blk h a \<noteq> None"
  by (induction es arbitrary: p) auto

text \<open>The suffix of a chain is a chain from its own first cell.\<close>

lemma chain_mid:
  assumes "chain h p (xs @ e # ys)"
  shows "chain h (e_node e) (e # ys)"
  using assms by (induction xs arbitrary: p) auto

lemma chain_last:
  assumes "chain h p es" and "es \<noteq> []"
  shows "chain h (e_node (last es)) [last es]"
  using assms chain_mid[of h p "butlast es" "last es" "[]"] by simp

text \<open>Exchanging the tail of a chain behind a prefix.\<close>

lemma chain_replace_tail:
  assumes "chain h p (xs @ e # ys)"
    and "chain h' (e_node e) zs"
    and "\<And>a. a \<in> set (addrs xs) \<Longrightarrow> h_blk h' a = h_blk h a"
  shows "chain h' p (xs @ zs)"
  using assms
proof (induction xs arbitrary: p)
  case Nil
  then show ?case by auto
next
  case (Cons x xs)
  then obtain q where q: "h_blk h p = Some (Node \<lparr>n_key = e_kaddr x, n_value = e_vaddr x, n_next = q\<rparr>)"
    and c: "chain h q (xs @ e # ys)" by auto
  have "chain h' q (xs @ zs)" using Cons.IH[OF c Cons.prems(2)] Cons.prems(3) by simp
  with Cons.prems q show ?case by auto
qed

section \<open>The walks on a chain\<close>

definition lookup_entry :: "string \<Rightarrow> entry list \<Rightarrow> entry option" where
  "lookup_entry k es = find (\<lambda>e. e_key e = k) es"

lemma lookup_entry_simps [simp]:
  "lookup_entry k [] = None"
  "lookup_entry k (e # es) = (if e_key e = k then Some e else lookup_entry k es)"
  by (simp_all add: lookup_entry_def)

lemma lookup_entry_None: "lookup_entry k es = None \<longleftrightarrow> (\<forall>e \<in> set es. e_key e \<noteq> k)"
  by (induction es) auto

lemma lookup_entry_Some:
  assumes "lookup_entry k es = Some e"
  obtains xs ys where "es = xs @ e # ys" and "\<forall>x \<in> set xs. e_key x \<noteq> k" and "e_key e = k"
  using assms
proof (induction es arbitrary: thesis)
  case (Cons x es)
  show ?case
  proof (cases "e_key x = k")
    case True
    with Cons.prems(2) have "x = e" by simp
    with True show ?thesis by (intro Cons.prems(1)[of "[]" es]) auto
  next
    case False
    with Cons.prems(2) have "lookup_entry k es = Some e" by simp
    then obtain xs ys where "es = xs @ e # ys" "\<forall>x \<in> set xs. e_key x \<noteq> k" "e_key e = k"
      using Cons.IH by blast
    with False show ?thesis by (intro Cons.prems(1)[of "x # xs" ys]) auto
  qed
qed simp

lemma map_of_kvs: "map_of (kvs es) k = map_option e_val (lookup_entry k es)"
  by (induction es) auto

lemma find_node_chain:
  assumes "chain h p es" and "length es < fuel"
  shows "find_node fuel p k h =
    Inr (case lookup_entry k es of None \<Rightarrow> 0 | Some e \<Rightarrow> e_node e)"
  using assms
proof (induction es arbitrary: p fuel)
  case Nil
  then show ?case by (cases fuel) auto
next
  case (Cons e es)
  then obtain n where n: "fuel = Suc n" by (cases fuel) auto
  with Cons show ?case by auto
qed

lemma find_prev_chain:
  assumes "chain h (e_node e) (e # es)" and "length es < fuel"
    and "lookup_entry k es = None"
  shows "find_prev fuel (e_node e) k h = Inr (e_node (last (e # es)))"
  using assms
proof (induction es arbitrary: e fuel)
  case Nil
  then show ?case by (cases fuel) auto
next
  case (Cons x es)
  then obtain n where n: "fuel = Suc n" by (cases fuel) auto
  from Cons.prems have "chain h (e_node x) (x # es)" by auto
  moreover have "lookup_entry k es = None" "e_key x \<noteq> k"
    using Cons.prems(3) by (auto split: if_splits)
  ultimately have "find_prev n (e_node x) k h = Inr (e_node (last (x # es)))"
    using Cons.IH[of x n] Cons.prems(2) n by simp
  with Cons.prems n \<open>e_key x \<noteq> k\<close> show ?case by auto
qed

lemma chain_first:
  assumes "chain h q (xs @ c # zs)"
  shows "q = e_node (hd (xs @ [c]))" and "q \<noteq> 0"
    and "\<exists>n. h_blk h q = Some (Node n) \<and> n_key n = e_kaddr (hd (xs @ [c])) \<and>
           h_blk h (n_key n) = Some (Chars (e_key (hd (xs @ [c]))))"
  using assms by (cases xs; auto)+

lemma find_prev_chain_hit:
  assumes "chain h p (xs @ c # d # ys)" and "length xs < fuel"
    and "\<forall>x \<in> set (tl (xs @ [c])). e_key x \<noteq> k" and "e_key d = k"
  shows "find_prev fuel p k h = Inr (e_node c)"
  using assms
proof (induction xs arbitrary: p fuel)
  case Nil
  then obtain n where n: "fuel = Suc n" by (cases fuel) auto
  with Nil show ?case by auto
next
  case (Cons x xs)
  then obtain n where n: "fuel = Suc n" by (cases fuel) auto
  from Cons.prems obtain q where
    nd: "h_blk h p = Some (Node \<lparr>n_key = e_kaddr x, n_value = e_vaddr x, n_next = q\<rparr>)"
    and ch: "chain h q (xs @ c # d # ys)" by auto
  have "set (tl (xs @ [c])) \<subseteq> set (xs @ [c])" "hd (xs @ [c]) \<in> set (xs @ [c])"
    by (cases xs; auto)+
  with Cons.prems(3) have key: "e_key (hd (xs @ [c])) \<noteq> k"
    and rest: "\<forall>x \<in> set (tl (xs @ [c])). e_key x \<noteq> k" by auto
  have "find_prev n q k h = Inr (e_node c)"
    using Cons.prems(2,4) n by (intro Cons.IH ch rest) auto
  with n nd key chain_first[OF ch] show ?case by auto
qed

text \<open>From here on the walks are evaluated by the lemmas above only.\<close>

declare find_node.simps [simp del] find_prev.simps [simp del]

end
