(* ===== verification/HashRefine.thy ===== *)
theory HashRefine
  imports HashShape
begin

text \<open>
  The operations of \<open>hash.cpp\<close> against a partial map from keys to values. \<open>table_rel\<close> is the
  invariant of the table; \<open>kv_rel s m\<close> says that the table in state \<open>s\<close> stands for the map \<open>m\<close>. The
  lemmas of the last sections evaluate every operation on a well-formed table and show that the
  invariant survives and the map changes as it should.
\<close>

section \<open>The invariant\<close>

text \<open>The heap part: chains in every slot, no sharing, no block that the table does not own.\<close>

definition shape :: "heap \<Rightarrow> addr \<Rightarrow> (nat \<Rightarrow> addr) \<Rightarrow> (nat \<Rightarrow> entry list) \<Rightarrow> bool" where
  "shape h a f E \<longleftrightarrow>
     a \<noteq> 0 \<and> h_blk h a = Some (Slots MAX_TABLE_SIZE f) \<and>
     (\<forall>i < MAX_TABLE_SIZE. chain h (f i) (E i)) \<and>
     (\<forall>i < MAX_TABLE_SIZE. distinct (a # addrs (E i))) \<and>
     (\<forall>i < MAX_TABLE_SIZE. \<forall>j < MAX_TABLE_SIZE. i \<noteq> j \<longrightarrow>
        set (addrs (E i)) \<inter> set (addrs (E j)) = {}) \<and>
     (\<forall>b. h_blk h b \<noteq> None \<longrightarrow> 0 < b \<and> b \<le> h_top h) \<and>
     (\<forall>b. h_blk h b \<noteq> None \<longrightarrow> b = a \<or> (\<exists>i < MAX_TABLE_SIZE. b \<in> set (addrs (E i))))"

text \<open>The key part: each key sits in its own slot, at most once.\<close>

definition keys_ok :: "(nat \<Rightarrow> entry list) \<Rightarrow> bool" where
  "keys_ok E \<longleftrightarrow>
     (\<forall>i < MAX_TABLE_SIZE. distinct (map e_key (E i)) \<and>
        (\<forall>e \<in> set (E i). hash_index (e_key e) = int i))"

definition cells :: "(nat \<Rightarrow> entry list) \<Rightarrow> nat" where
  "cells E = (\<Sum>i < MAX_TABLE_SIZE. length (E i))"

definition table_rel :: "kvstate \<Rightarrow> (nat \<Rightarrow> entry list) \<Rightarrow> bool" where
  "table_rel s E \<longleftrightarrow>
     (\<exists>f. shape (hp s) (ht_nodes (Hash s)) f E) \<and> keys_ok E \<and>
     ht_max_slots (Hash s) = int MAX_TABLE_SIZE \<and> ht_count (Hash s) = int (cells E)"

definition slot :: "string \<Rightarrow> nat" where
  "slot k = nat (hash_index k)"

definition contents :: "(nat \<Rightarrow> entry list) \<Rightarrow> string \<Rightarrow> string option" where
  "contents E k = (if hashable k then map_option e_val (lookup_entry k (E (slot k))) else None)"

definition kv_rel :: "kvstate \<Rightarrow> (string \<Rightarrow> string option) \<Rightarrow> bool" where
  "kv_rel s m \<longleftrightarrow> (\<exists>E. table_rel s E \<and> m = contents E)"

lemma slot_less: "hashable k \<Longrightarrow> slot k < MAX_TABLE_SIZE"
  using hash_index_nat(2) by (simp add: slot_def)

lemma int_slot: "hashable k \<Longrightarrow> int (slot k) = hash_index k"
  using hash_index_nat(1) by (simp add: slot_def)

lemma keys_ok_slot:
  "keys_ok E \<Longrightarrow> i < MAX_TABLE_SIZE \<Longrightarrow> e \<in> set (E i) \<Longrightarrow> slot (e_key e) = i \<and> hashable (e_key e)"
  by (auto simp: keys_ok_def slot_def hashable_def)

lemma keys_okD:
  assumes "keys_ok E" and "i < MAX_TABLE_SIZE"
  shows "distinct (map e_key (E i))" and "\<And>e. e \<in> set (E i) \<Longrightarrow> hash_index (e_key e) = int i"
  using assms by (auto simp: keys_ok_def)

lemma keys_ok_update:
  "keys_ok E \<Longrightarrow> distinct (map e_key es) \<Longrightarrow> (\<And>e. e \<in> set es \<Longrightarrow> hash_index (e_key e) = int i) \<Longrightarrow>
   keys_ok (E(i := es))"
  by (simp add: keys_ok_def)

lemma shape_live: "shape h a f E \<Longrightarrow> h_blk h b \<noteq> None \<Longrightarrow> 0 < b \<and> b \<le> h_top h"
  unfolding shape_def by blast

lemma shape_owned:
  "shape h a f E \<Longrightarrow> h_blk h b \<noteq> None \<Longrightarrow> b = a \<or> (\<exists>i < MAX_TABLE_SIZE. b \<in> set (addrs (E i)))"
  unfolding shape_def by blast

lemma shape_disjoint:
  "shape h a f E \<Longrightarrow> i < MAX_TABLE_SIZE \<Longrightarrow> j < MAX_TABLE_SIZE \<Longrightarrow> i \<noteq> j \<Longrightarrow>
   b \<in> set (addrs (E i)) \<Longrightarrow> b \<notin> set (addrs (E j))"
  unfolding shape_def by blast

lemma shape_fresh: "shape h a f E \<Longrightarrow> h_top h < b \<Longrightarrow> h_blk h b = None"
  using shape_live[of h a f E b] by (cases "h_blk h b") auto

lemma shape_zero: "shape h a f E \<Longrightarrow> h_blk h 0 = None"
  using shape_live[of h a f E 0] by (cases "h_blk h 0") auto

lemma shape_array: "shape h a f E \<Longrightarrow> h_blk h a = Some (Slots MAX_TABLE_SIZE f)"
  by (simp add: shape_def)

lemma shape_chain: "shape h a f E \<Longrightarrow> i < MAX_TABLE_SIZE \<Longrightarrow> chain h (f i) (E i)"
  by (simp add: shape_def)

lemma shape_addrs:
  assumes "shape h a f E" and "i < MAX_TABLE_SIZE"
  shows "set (addrs (E i)) \<subseteq> {1..h_top h}" and "a \<notin> set (addrs (E i))"
    and "distinct (addrs (E i))"
proof -
  have "chain h (f i) (E i)" using assms by (rule shape_chain)
  from chain_live[OF this] shape_live[OF assms(1)]
  show "set (addrs (E i)) \<subseteq> {1..h_top h}" by (auto simp: Suc_le_eq)
  show "a \<notin> set (addrs (E i))" "distinct (addrs (E i))" using assms by (auto simp: shape_def)
qed

lemma length_le_top:
  assumes "shape h a f E" and "i < MAX_TABLE_SIZE"
  shows "length (E i) \<le> h_top h"
proof -
  have "3 * length (E i) = card (set (addrs (E i)))"
    using shape_addrs(3)[OF assms] by (simp add: distinct_card length_addrs)
  also have "\<dots> \<le> card {1..h_top h}" by (intro card_mono shape_addrs(1)[OF assms]) simp
  finally show ?thesis by simp
qed

text \<open>Exchanging one bucket.\<close>

lemma shape_update:
  assumes sh: "shape h a f E" and i: "i < MAX_TABLE_SIZE"
    and arr: "h_blk h' a = Some (Slots MAX_TABLE_SIZE (f(i := p)))"
    and ch: "chain h' p es"
    and frame: "\<And>b. b \<noteq> a \<Longrightarrow> b \<notin> set (addrs (E i)) \<Longrightarrow> b \<notin> set (addrs es) \<Longrightarrow> h_blk h' b = h_blk h b"
    and new: "\<And>b. b \<in> set (addrs es) \<Longrightarrow> b \<in> set (addrs (E i)) \<or> h_top h < b \<and> b \<le> h_top h'"
    and gone: "\<And>b. b \<in> set (addrs (E i)) \<Longrightarrow> b \<notin> set (addrs es) \<Longrightarrow> h_blk h' b = None"
    and top: "h_top h \<le> h_top h'" and dist: "distinct (addrs es)"
  shows "shape h' a (f(i := p)) (E(i := es))"
proof -
  let ?E = "E(i := es)"
  have a: "0 < a" "a \<le> h_top h" using shape_live[OF sh, of a] shape_array[OF sh] by auto
  have nota: "a \<notin> set (addrs es)" using new[of a] shape_addrs(2)[OF sh i] a by auto
  have disj: "b \<notin> set (addrs es)"
    if "j < MAX_TABLE_SIZE" "j \<noteq> i" "b \<in> set (addrs (E j))" for j b
    using new[of b] shape_addrs(1)[OF sh that(1)] shape_disjoint[OF sh that(1) i that(2,3)] that(3)
    by auto
  have fr: "h_blk h' b = h_blk h b" if "j < MAX_TABLE_SIZE" "j \<noteq> i" "b \<in> set (addrs (E j))" for j b
    using frame[of b] disj[OF that] shape_disjoint[OF sh that(1) i that(2,3)]
      shape_addrs(2)[OF sh that(1)] that(3) by auto
  have chains: "chain h' ((f(i := p)) j) (?E j)" if "j < MAX_TABLE_SIZE" for j
    using ch chain_frame[OF shape_chain[OF sh that] fr] that by auto
  have dists: "distinct (a # addrs (?E j))" if "j < MAX_TABLE_SIZE" for j
    using dist nota shape_addrs[OF sh that] by simp
  have disjs: "set (addrs (?E j)) \<inter> set (addrs (?E k)) = {}"
    if "j < MAX_TABLE_SIZE" "k < MAX_TABLE_SIZE" "j \<noteq> k" for j k
    using disj[of j] disj[of k] shape_disjoint[OF sh that] that by auto
  have "0 < b \<and> b \<le> h_top h' \<and> (b = a \<or> (\<exists>j < MAX_TABLE_SIZE. b \<in> set (addrs (?E j))))"
    if live: "h_blk h' b \<noteq> None" for b
  proof -
    consider "b = a" | "b \<in> set (addrs es)" | "b \<noteq> a" "b \<notin> set (addrs es)" by blast
    then show ?thesis
    proof cases
      case 1 then show ?thesis using a top by auto
    next
      case 2
      with new[of b] shape_addrs(1)[OF sh i] top have "0 < b \<and> b \<le> h_top h'" by fastforce
      with 2 i show ?thesis by auto
    next
      case 3
      with gone[of b] live have b: "b \<notin> set (addrs (E i))" by auto
      with 3 frame[of b] live have "h_blk h b \<noteq> None" by simp
      with shape_live[OF sh this] shape_owned[OF sh this] 3 obtain j
        where "0 < b" "b \<le> h_top h" "j < MAX_TABLE_SIZE" "b \<in> set (addrs (E j))" by auto
      with b top show ?thesis by (auto intro!: exI[of _ j])
    qed
  qed
  with a arr chains dists disjs show ?thesis unfolding shape_def by simp
qed

section \<open>The map of a table\<close>

lemma contents_update:
  assumes "keys_ok E" and "hashable k"
    and "\<And>l. hashable l \<Longrightarrow> slot l = slot k \<Longrightarrow>
      map_option e_val (lookup_entry l es) = (if l = k then v else contents E l)"
  shows "contents (E(slot k := es)) = (contents E)(k := v)"
proof
  fix l
  show "contents (E(slot k := es)) l = ((contents E)(k := v)) l"
    using assms(2) assms(3)[of l] by (auto simp: contents_def)
qed

lemma lookup_entry_unique:
  assumes "distinct (map e_key (xs @ e # ys))"
  shows "lookup_entry (e_key e) (xs @ e # ys) = Some e"
    and "lookup_entry (e_key e) (xs @ ys) = None"
  using assms by (induction xs) (auto simp: lookup_entry_None image_iff)

lemma lookup_entry_append:
  "lookup_entry k (xs @ ys) = (case lookup_entry k xs of None \<Rightarrow> lookup_entry k ys | Some e \<Rightarrow> Some e)"
  by (induction xs) auto

lemma contents_eq: "hashable k \<Longrightarrow> contents E k = map_option e_val (lookup_entry k (E (slot k)))"
  by (simp add: contents_def)

lemma dom_contents: "keys_ok E \<Longrightarrow> dom (contents E) = (\<Union>i < MAX_TABLE_SIZE. e_key ` set (E i))"
proof (intro set_eqI iffI)
  fix k assume "k \<in> dom (contents E)"
  then obtain e where "hashable k" "lookup_entry k (E (slot k)) = Some e"
    by (auto simp: contents_def split: if_splits)
  moreover from this(2) have "e \<in> set (E (slot k))" "e_key e = k"
    by (auto elim!: lookup_entry_Some)
  ultimately show "k \<in> (\<Union>i < MAX_TABLE_SIZE. e_key ` set (E i))"
    using slot_less by blast
next
  fix k assume ok: "keys_ok E" and "k \<in> (\<Union>i < MAX_TABLE_SIZE. e_key ` set (E i))"
  then obtain i e where i: "i < MAX_TABLE_SIZE" "e \<in> set (E i)" "k = e_key e" by auto
  with keys_ok_slot[OF ok] have "slot k = i" "hashable k" by auto
  with i have "lookup_entry k (E (slot k)) \<noteq> None" by (auto simp: lookup_entry_None)
  with \<open>hashable k\<close> show "k \<in> dom (contents E)" by (auto simp: contents_def)
qed

text \<open>The counter of the table is the number of keys.\<close>

lemma cells_card:
  assumes "keys_ok E"
  shows "finite (dom (contents E))" and "cells E = card (dom (contents E))"
proof -
  let ?K = "\<lambda>i. e_key ` set (E i)"
  show "finite (dom (contents E))" by (simp add: dom_contents[OF assms])
  have "card (\<Union>i < MAX_TABLE_SIZE. ?K i) = (\<Sum>i < MAX_TABLE_SIZE. card (?K i))"
  proof (rule card_UN_disjoint)
    show "\<forall>i \<in> {..< MAX_TABLE_SIZE}. \<forall>j \<in> {..< MAX_TABLE_SIZE}. i \<noteq> j \<longrightarrow> ?K i \<inter> ?K j = {}"
    proof (intro ballI impI equals0I)
      fix i j k assume "i \<in> {..< MAX_TABLE_SIZE}" "j \<in> {..< MAX_TABLE_SIZE}" "i \<noteq> j"
        and "k \<in> ?K i \<inter> ?K j"
      then obtain d e where "i < MAX_TABLE_SIZE" "j < MAX_TABLE_SIZE" "i \<noteq> j"
        "d \<in> set (E i)" "e \<in> set (E j)" "e_key d = e_key e" by auto
      with keys_ok_slot[OF assms, of i d] keys_ok_slot[OF assms, of j e] show False by simp
    qed
  qed auto
  also have "\<dots> = cells E"
    unfolding cells_def
  proof (rule sum.cong[OF refl])
    fix i assume "i \<in> {..< MAX_TABLE_SIZE}"
    with assms have "distinct (map e_key (E i))" by (simp add: keys_ok_def)
    then have "card (set (map e_key (E i))) = length (map e_key (E i))" by (rule distinct_card)
    then show "card (?K i) = length (E i)" by simp
  qed
  finally show "cells E = card (dom (contents E))" by (simp add: dom_contents[OF assms])
qed

lemma cells_update:
  assumes "i < MAX_TABLE_SIZE"
  shows "int (cells (E(i := es))) = int (cells E) + int (length es) - int (length (E i))"
proof -
  have s: "cells F = length (F i) + (\<Sum>j \<in> {..< MAX_TABLE_SIZE} - {i}. length (F j))" for F :: "nat \<Rightarrow> entry list"
    unfolding cells_def using assms by (subst sum.remove[of _ i]) auto
  have "(\<Sum>j \<in> {..< MAX_TABLE_SIZE} - {i}. length ((E(i := es)) j)) =
        (\<Sum>j \<in> {..< MAX_TABLE_SIZE} - {i}. length (E j))" by (rule sum.cong) auto
  with s[of E] s[of "E(i := es)"] show ?thesis by simp
qed

section \<open>Access to a well-formed table\<close>

text \<open>The slot of a hashable key, and the cell its loop finds.\<close>

lemma rd_slot_shape:
  assumes "shape h a f E" and "hashable k"
  shows "rd_slot a (hash_index k) h = Inr (f (slot k))"
  using rd_slot_Slots[OF shape_array[OF assms(1)] slot_less[OF assms(2)]]
  by (simp add: int_slot[OF assms(2)])

lemma wr_slot_shape:
  assumes "h_blk h a = Some (Slots MAX_TABLE_SIZE f)" and "hashable k"
  shows "wr_slot a (hash_index k) v h =
    Inr (h\<lparr>h_blk := (h_blk h)(a \<mapsto> Slots MAX_TABLE_SIZE (f(slot k := v)))\<rparr>)"
  using wr_slot_Slots[OF assms(1) slot_less[OF assms(2)]] by (simp add: int_slot[OF assms(2)])

lemma find_node_shape:
  assumes "shape h a f E" and "hashable k"
  shows "find_node (Suc (h_top h)) (f (slot k)) k h =
    Inr (case lookup_entry k (E (slot k)) of None \<Rightarrow> 0 | Some e \<Rightarrow> e_node e)"
  using find_node_chain[OF shape_chain[OF assms(1) slot_less[OF assms(2)]], of "Suc (h_top h)" k]
    length_le_top[OF assms(1) slot_less[OF assms(2)]] by simp

lemma lookup_entry_cell:
  assumes "shape h a f E" and "hashable k" and "lookup_entry k (E (slot k)) = Some e"
  shows "\<exists>q. h_blk h (e_node e) = Some (Node \<lparr>n_key = e_kaddr e, n_value = e_vaddr e, n_next = q\<rparr>)"
    and "e_node e \<noteq> 0" and "e_vaddr e \<noteq> 0"
    and "h_blk h (e_kaddr e) = Some (Chars (e_key e))"
    and "h_blk h (e_vaddr e) = Some (Chars (e_val e))"
proof -
  from assms(3) obtain xs ys where "E (slot k) = xs @ e # ys" by (rule lookup_entry_Some)
  with chain_mid shape_chain[OF assms(1) slot_less[OF assms(2)]]
  have "chain h (e_node e) (e # ys)" by metis
  then show "\<exists>q. h_blk h (e_node e) = Some (Node \<lparr>n_key = e_kaddr e, n_value = e_vaddr e, n_next = q\<rparr>)"
    "e_node e \<noteq> 0" "e_vaddr e \<noteq> 0"
    "h_blk h (e_kaddr e) = Some (Chars (e_key e))" "h_blk h (e_vaddr e) = Some (Chars (e_val e))"
    by auto
qed

section \<open>Allocation of a cell\<close>

definition allocs_ok :: "nat \<Rightarrow> heap \<Rightarrow> bool" where
  "allocs_ok n h \<longleftrightarrow> (\<forall>j \<in> {1..n}. \<not> h_fail h (h_top h + j))"

lemma allocs_okD: "allocs_ok n h \<Longrightarrow> 0 < j \<Longrightarrow> j \<le> n \<Longrightarrow> \<not> h_fail h (h_top h + j)"
  by (simp add: allocs_ok_def)

lemma create_node_ok:
  assumes "allocs_ok 3 h"
  shows "create_node (Str k) (Str v) h =
    Inr (h_top h + 1, h\<lparr>h_top := h_top h + 3,
      h_blk := (h_blk h)
        (h_top h + 1 \<mapsto> Node \<lparr>n_key = h_top h + 2, n_value = h_top h + 3, n_next = 0\<rparr>,
         h_top h + 2 \<mapsto> Chars k, h_top h + 3 \<mapsto> Chars v)\<rparr>)"
  using allocs_okD[OF assms, of 1] allocs_okD[OF assms, of 2] allocs_okD[OF assms, of 3]
  by (simp add: create_node_def kvstore_malloc_def Let_def c_strcpy_def wr_node_def
      eval_nat_numeral fun_upd_twist)

text \<open>When one of the three requests is refused, what was obtained before is given back.\<close>

lemma create_node_fail:
  assumes "\<not> allocs_ok 3 h" and "\<And>b. h_top h < b \<Longrightarrow> h_blk h b = None"
  shows "\<exists>h'. create_node (Str k) (Str v) h = Inr (0, h') \<and> h_blk h' = h_blk h"
proof -
  let ?F = "\<lambda>j. h_fail h (h_top h + j)"
  have "?F 1 \<or> ?F 2 \<or> ?F 3" using assms(1) by (auto simp: allocs_ok_def numeral_eq_Suc le_Suc_eq)
  then consider "?F 1" | "\<not> ?F 1" "?F 2" | "\<not> ?F 1" "\<not> ?F 2" "?F 3" by blast
  then show ?thesis
    by cases
      (simp_all add: create_node_def kvstore_malloc_def Let_def c_strcpy_def kvstore_free_def
        eval_nat_numeral fun_upd_idem fun_upd_twist assms(2))
qed

end
