(* ===== verification/HashOps.thy ===== *)
theory HashOps
  imports HashRefine
begin

text \<open>
  Every operation of \<open>hash.cpp\<close> evaluated on a well-formed table: the value it returns on each
  branch, and the table it leaves behind. The statements are about \<open>table_rel\<close>; the map view and
  the interface the rest of the engine relies on follow in \<open>KvInterface\<close>.
\<close>

lemma table_relE:
  assumes "table_rel s E"
  obtains f where "shape (hp s) (ht_nodes (Hash s)) f E" and "keys_ok E"
    and "ht_max_slots (Hash s) = int MAX_TABLE_SIZE" and "ht_count (Hash s) = int (cells E)"
  using assms by (auto simp: table_rel_def)

section \<open>Looking up\<close>

lemma get_found:
  assumes "table_rel s E" and "hashable k" and "lookup_entry k (E (slot k)) = Some e"
  shows "get_kv_hashtable Ref_Hash (Str k) s = Inr (e_vaddr e)"
    and "rd_str (e_vaddr e) (hp s) = Inr (e_val e)" and "e_vaddr e \<noteq> 0"
proof -
  obtain f where sh: "shape (hp s) (ht_nodes (Hash s)) f E" using assms(1) by (rule table_relE)
  note c = lookup_entry_cell[OF sh assms(2,3)]
  show "get_kv_hashtable Ref_Hash (Str k) s = Inr (e_vaddr e)"
    using c(1,2) assms(3)
    by (auto simp: get_kv_hashtable_def rd_slot_shape[OF sh assms(2)] find_node_shape[OF sh assms(2)])
  show "rd_str (e_vaddr e) (hp s) = Inr (e_val e)" "e_vaddr e \<noteq> 0" using c(3,5) by simp_all
qed

lemma get_absent:
  assumes "table_rel s E" and "hashable k" and "lookup_entry k (E (slot k)) = None"
  shows "get_kv_hashtable Ref_Hash (Str k) s = Inr 0"
proof -
  obtain f where sh: "shape (hp s) (ht_nodes (Hash s)) f E" using assms(1) by (rule table_relE)
  show ?thesis using assms(3)
    by (simp add: get_kv_hashtable_def rd_slot_shape[OF sh assms(2)] find_node_shape[OF sh assms(2)])
qed

section \<open>Inserting\<close>

lemma put_exists:
  assumes "table_rel s E" and "hashable k" and "lookup_entry k (E (slot k)) = Some e"
    and "value \<noteq> Null"
  shows "put_kv_hashtable Ref_Hash (Str k) value s = Inr (1, s)"
proof -
  obtain f where sh: "shape (hp s) (ht_nodes (Hash s)) f E" using assms(1) by (rule table_relE)
  from lookup_entry_cell(2)[OF sh assms(2,3)] assms(3,4) show ?thesis
    by (simp add: put_kv_hashtable_def rd_slot_shape[OF sh assms(2)] find_node_shape[OF sh assms(2)])
qed

text \<open>The cell a successful insertion links in front of its bucket.\<close>

definition new_entry :: "heap \<Rightarrow> string \<Rightarrow> string \<Rightarrow> entry" where
  "new_entry h k v =
     \<lparr>e_node = h_top h + 1, e_kaddr = h_top h + 2, e_vaddr = h_top h + 3, e_key = k, e_val = v\<rparr>"

lemma put_new:
  assumes rel: "table_rel s E" and k: "hashable k" and new: "lookup_entry k (E (slot k)) = None"
    and ok: "allocs_ok 3 (hp s)"
  shows "\<exists>s'. put_kv_hashtable Ref_Hash (Str k) (Str v) s = Inr (0, s') \<and>
    table_rel s' (E(slot k := new_entry (hp s) k v # E (slot k))) \<and> h_fail (hp s') = h_fail (hp s)"
proof -
  obtain f where sh: "shape (hp s) (ht_nodes (Hash s)) f E" and keys: "keys_ok E"
    and ms: "ht_max_slots (Hash s) = int MAX_TABLE_SIZE" and ct: "ht_count (Hash s) = int (cells E)"
    using rel by (rule table_relE)
  let ?h = "hp s" and ?a = "ht_nodes (Hash s)" and ?i = "slot k"
  let ?t = "h_top ?h" and ?es = "new_entry ?h k v # E ?i"
  let ?n = "\<lparr>n_key = ?t + 2, n_value = ?t + 3, n_next = f ?i\<rparr>"
  let ?f = "f(?i := ?t + 1)"
  let ?blk = "(h_blk ?h)(?t + 1 \<mapsto> Node ?n, ?t + 2 \<mapsto> Chars k, ?t + 3 \<mapsto> Chars v,
                ?a \<mapsto> Slots MAX_TABLE_SIZE ?f)"
  let ?h' = "?h\<lparr>h_top := ?t + 3, h_blk := ?blk\<rparr>"
  let ?s' = "s\<lparr>hp := ?h', Hash := (Hash s)\<lparr>ht_count := ht_count (Hash s) + 1\<rparr>\<rparr>"
  note i = slot_less[OF k]
  have a: "0 < ?a" "?a \<le> ?t" using shape_live[OF sh, of ?a] shape_array[OF sh] by auto
  have run: "put_kv_hashtable Ref_Hash (Str k) (Str v) s = Inr (0, ?s')"
    using a i new ok shape_array[OF sh] int_slot[OF k]
    by (simp add: put_kv_hashtable_def rd_slot_shape[OF sh k] find_node_shape[OF sh k]
        create_node_ok rd_node_def wr_node_def rd_slot_def wr_slot_def fun_upd_twist flip: int_slot[OF k])
  have old: "?blk b = h_blk ?h b" if "b \<noteq> ?a" "b \<le> ?t" for b using that by simp
  have "shape ?h' ?a ?f (E(?i := ?es))"
  proof (rule shape_update[OF sh i])
    have "chain ?h' (f ?i) (E ?i)"
      using shape_addrs(1,2)[OF sh i]
      by (intro chain_frame[OF shape_chain[OF sh i]]) (auto simp: old)
    then show "chain ?h' (?t + 1) ?es" using a by (simp add: new_entry_def)
    show "distinct (addrs ?es)"
      using shape_addrs[OF sh i] by (force simp: new_entry_def)
  qed (use a shape_addrs[OF sh i] in \<open>auto simp: new_entry_def\<close>)
  moreover have "keys_ok (E(?i := ?es))"
    using keys new int_slot[OF k] by (auto simp: keys_ok_def new_entry_def lookup_entry_None)
  moreover have "int (cells (E(?i := ?es))) = int (cells E) + 1" using cells_update[OF i, of E ?es] by simp
  ultimately have "table_rel ?s' (E(?i := ?es))" using ms ct by (auto simp: table_rel_def)
  with run show ?thesis by (intro exI[of _ ?s']) simp
qed

text \<open>A refused allocation: the code writes through the null pointer it got.\<close>

lemma put_alloc_fail:
  assumes rel: "table_rel s E" and k: "hashable k" and new: "lookup_entry k (E (slot k)) = None"
    and fail: "\<not> allocs_ok 3 (hp s)"
  shows "put_kv_hashtable Ref_Hash (Str k) (Str v) s = Inl Bad_pointer"
proof -
  obtain f where sh: "shape (hp s) (ht_nodes (Hash s)) f E" using rel by (rule table_relE)
  from create_node_fail[OF fail shape_fresh[OF sh], of k v] obtain h'
    where h': "create_node (Str k) (Str v) (hp s) = Inr (0, h')" "h_blk h' = h_blk (hp s)" by auto
  with new shape_zero[OF sh] shape_array[OF sh] slot_less[OF k] int_slot[OF k] show ?thesis
    by (simp add: put_kv_hashtable_def rd_slot_shape[OF sh k] find_node_shape[OF sh k]
        rd_slot_def rd_node_def flip: int_slot[OF k])
qed

section \<open>Replacing a value\<close>

lemma modify_absent:
  assumes "table_rel s E" and "hashable k" and "lookup_entry k (E (slot k)) = None"
  shows "kvs_hash_modify Ref_Hash (Str k) value s = Inr (- 1, s)"
proof -
  obtain f where sh: "shape (hp s) (ht_nodes (Hash s)) f E" using assms(1) by (rule table_relE)
  show ?thesis using assms(3)
    by (simp add: kvs_hash_modify_def rd_slot_shape[OF sh assms(2)] find_node_shape[OF sh assms(2)])
qed

text \<open>The bucket of a key that is present, split at its cell.\<close>

lemma bucket_split:
  assumes sh: "shape h a f E" and k: "hashable k" and e: "lookup_entry k (E (slot k)) = Some e"
  obtains xs ys q where "E (slot k) = xs @ e # ys" and "e_key e = k"
    and "\<forall>x \<in> set xs. e_key x \<noteq> k"
    and "h_blk h (e_node e) = Some (Node \<lparr>n_key = e_kaddr e, n_value = e_vaddr e, n_next = q\<rparr>)"
    and "h_blk h (e_kaddr e) = Some (Chars (e_key e))"
    and "h_blk h (e_vaddr e) = Some (Chars (e_val e))"
    and "chain h q ys" and "e_node e \<noteq> 0" and "e_kaddr e \<noteq> 0" and "e_vaddr e \<noteq> 0"
proof -
  from e obtain xs ys where es: "E (slot k) = xs @ e # ys" "\<forall>x \<in> set xs. e_key x \<noteq> k" "e_key e = k"
    by (rule lookup_entry_Some)
  have "chain h (e_node e) (e # ys)"
    using chain_mid shape_chain[OF sh slot_less[OF k]] es(1) by metis
  with es show ?thesis by (auto intro: that)
qed

lemma modify_found:
  assumes rel: "table_rel s E" and k: "hashable k" and e: "lookup_entry k (E (slot k)) = Some e"
    and ok: "allocs_ok 1 (hp s)"
  shows "\<exists>s' xs ys vp. kvs_hash_modify Ref_Hash (Str k) (Str v) s = Inr (0, s') \<and>
    E (slot k) = xs @ e # ys \<and>
    table_rel s' (E(slot k := xs @ e\<lparr>e_vaddr := vp, e_val := v\<rparr> # ys)) \<and>
    h_fail (hp s') = h_fail (hp s)"
proof -
  obtain f where sh: "shape (hp s) (ht_nodes (Hash s)) f E" and keys: "keys_ok E"
    and ms: "ht_max_slots (Hash s) = int MAX_TABLE_SIZE" and ct: "ht_count (Hash s) = int (cells E)"
    using rel by (rule table_relE)
  let ?h = "hp s" and ?a = "ht_nodes (Hash s)" and ?i = "slot k"
  let ?t = "h_top ?h"
  note i = slot_less[OF k]
  obtain xs ys q where es: "E ?i = xs @ e # ys" and ek: "e_key e = k"
    and "\<forall>x \<in> set xs. e_key x \<noteq> k"
    and nd: "h_blk ?h (e_node e) = Some (Node \<lparr>n_key = e_kaddr e, n_value = e_vaddr e, n_next = q\<rparr>)"
    and ka: "h_blk ?h (e_kaddr e) = Some (Chars (e_key e))"
    and va: "h_blk ?h (e_vaddr e) = Some (Chars (e_val e))"
    and ch: "chain ?h q ys" and nz: "e_node e \<noteq> 0" "e_kaddr e \<noteq> 0" "e_vaddr e \<noteq> 0"
    by (rule bucket_split[OF sh k e])
  let ?n = "\<lparr>n_key = e_kaddr e, n_value = ?t + 1, n_next = q\<rparr>"
  let ?e = "e\<lparr>e_vaddr := ?t + 1, e_val := v\<rparr>"
  let ?blk = "(h_blk ?h)(e_vaddr e := None, e_node e \<mapsto> Node ?n, ?t + 1 \<mapsto> Chars v)"
  let ?h' = "?h\<lparr>h_top := ?t + 1, h_blk := ?blk\<rparr>"
  let ?s' = "s\<lparr>hp := ?h'\<rparr>"
  have ad: "set (addrs (E ?i)) \<subseteq> {1..?t}" "?a \<notin> set (addrs (E ?i))" "distinct (addrs (E ?i))"
    using shape_addrs[OF sh i] by auto
  have a: "0 < ?a" "?a \<le> ?t" using shape_live[OF sh, of ?a] shape_array[OF sh] by auto
  have fresh: "?t + 1 \<notin> set (addrs (E ?i))" using ad(1) by auto
  have le: "e_node e \<le> ?t" "e_vaddr e \<le> ?t" "e_node e \<noteq> e_vaddr e" using ad es by auto
  have run: "kvs_hash_modify Ref_Hash (Str k) (Str v) s = Inr (0, ?s')"
    using ok nd va nz e le
    by (simp add: kvs_hash_modify_def rd_slot_shape[OF sh k] find_node_shape[OF sh k]
        kvstore_malloc_def Let_def allocs_ok_def wr_node_def c_strcpy_def fun_upd_twist)
  have "shape ?h' ?a (f(?i := f ?i)) (E(?i := xs @ ?e # ys))"
  proof (rule shape_update[OF sh i])
    have "chain ?h' q ys"
    proof (rule chain_frame[OF ch])
      fix b assume "b \<in> set (addrs ys)"
      then have "b \<noteq> e_vaddr e" "b \<noteq> e_node e" "b \<le> ?t" using ad unfolding es by auto
      then show "h_blk ?h' b = h_blk ?h b" by simp
    qed
    then have tail: "chain ?h' (e_node e) (?e # ys)" using nz ka ad es by auto
    have pre: "h_blk ?h' b = h_blk ?h b" if "b \<in> set (addrs xs)" for b
    proof -
      have "b \<noteq> e_vaddr e" "b \<noteq> e_node e" "b \<le> ?t" using that ad unfolding es by auto
      then show ?thesis by simp
    qed
    have "chain ?h (f ?i) (xs @ e # ys)" using shape_chain[OF sh i] es by simp
    from this tail pre show "chain ?h' (f ?i) (xs @ ?e # ys)" by (rule chain_replace_tail)
    show "distinct (addrs (xs @ ?e # ys))" using ad(3) fresh es by auto
  qed (use a ad es shape_array[OF sh] in auto)
  moreover have "keys_ok (E(?i := xs @ ?e # ys))"
    using keys_okD[OF keys i] es by (intro keys_ok_update[OF keys]) auto
  moreover have "int (cells (E(?i := xs @ ?e # ys))) = int (cells E)"
    using cells_update[OF i, of E "xs @ ?e # ys"] es by simp
  ultimately have "table_rel ?s' (E(?i := xs @ ?e # ys))" using ms ct by (auto simp: table_rel_def)
  with run es show ?thesis by (intro exI[of _ ?s'] exI[of _ xs] exI[of _ ys] exI[of _ "?t + 1"]) simp
qed

lemma modify_alloc_fail:
  assumes rel: "table_rel s E" and k: "hashable k" and e: "lookup_entry k (E (slot k)) = Some e"
    and fail: "\<not> allocs_ok 1 (hp s)"
  shows "kvs_hash_modify Ref_Hash (Str k) (Str v) s = Inl Assert_failed"
proof -
  obtain f where sh: "shape (hp s) (ht_nodes (Hash s)) f E" using rel by (rule table_relE)
  let ?i = "slot k"
  obtain xs ys q where es: "E ?i = xs @ e # ys"
    and nd: "h_blk (hp s) (e_node e) = Some (Node \<lparr>n_key = e_kaddr e, n_value = e_vaddr e, n_next = q\<rparr>)"
    and va: "h_blk (hp s) (e_vaddr e) = Some (Chars (e_val e))"
    and nz: "e_node e \<noteq> 0" "e_vaddr e \<noteq> 0"
    using bucket_split[OF sh k e] by metis
  have "e_node e \<noteq> e_vaddr e" using shape_addrs(3)[OF sh slot_less[OF k]] es by auto
  then show ?thesis
    using fail nd va nz e
    by (simp add: kvs_hash_modify_def rd_slot_shape[OF sh k] find_node_shape[OF sh k]
        kvstore_malloc_def Let_def allocs_ok_def wr_node_def)
qed

section \<open>Deleting\<close>

lemma delete_absent:
  assumes "table_rel s E" and "hashable k" and none: "lookup_entry k (E (slot k)) = None"
  shows "delete_kv_hashtable Ref_Hash (Str k) s = Inr (- 1, s)"
proof -
  obtain f where sh: "shape (hp s) (ht_nodes (Hash s)) f E" using assms(1) by (rule table_relE)
  let ?h = "hp s" and ?i = "slot k"
  note i = slot_less[OF assms(2)]
  have ch: "chain ?h (f ?i) (E ?i)" by (rule shape_chain[OF sh i])
  show ?thesis
  proof (cases "E ?i")
    case Nil
    with ch show ?thesis by (simp add: delete_kv_hashtable_def rd_slot_shape[OF sh assms(2)])
  next
    case (Cons e es)
    with none have ek: "e_key e \<noteq> k" "lookup_entry k es = None" by (auto split: if_splits)
    have che: "chain ?h (e_node e) (e # es)" using ch Cons by auto
    have fp: "find_prev (Suc (h_top ?h)) (e_node e) k ?h = Inr (e_node (last (e # es)))"
      using find_prev_chain[OF che _ ek(2), of "Suc (h_top ?h)"] length_le_top[OF sh i] Cons by simp
    have "chain ?h (e_node (last (e # es))) [last (e # es)]" by (rule chain_last[OF che]) simp
    with Cons ek ch fp show ?thesis
      by (auto simp: delete_kv_hashtable_def rd_slot_shape[OF sh assms(2)])
  qed
qed

lemma free_node_ok:
  assumes "h_blk h p = Some (Node \<lparr>n_key = ka, n_value = va, n_next = q\<rparr>)"
    and "h_blk h ka = Some b" and "h_blk h va = Some c"
    and "distinct [p, ka, va]" and "p \<noteq> 0" "ka \<noteq> 0" "va \<noteq> 0"
  shows "free_node p h = Inr (h\<lparr>h_blk := (h_blk h)(p := None, ka := None, va := None)\<rparr>)"
  using assms by (simp add: free_node_def fun_upd_twist)

lemma delete_head:
  assumes rel: "table_rel s E" and k: "hashable k" and es: "E (slot k) = e # ys" and ek: "e_key e = k"
  shows "\<exists>s'. delete_kv_hashtable Ref_Hash (Str k) s = Inr (0, s') \<and> table_rel s' (E(slot k := ys)) \<and>
    h_fail (hp s') = h_fail (hp s)"
proof -
  obtain f where sh: "shape (hp s) (ht_nodes (Hash s)) f E" and keys: "keys_ok E"
    and ms: "ht_max_slots (Hash s) = int MAX_TABLE_SIZE" and ct: "ht_count (Hash s) = int (cells E)"
    using rel by (rule table_relE)
  let ?h = "hp s" and ?a = "ht_nodes (Hash s)" and ?i = "slot k"
  note i = slot_less[OF k]
  have "chain ?h (f ?i) (e # ys)" using shape_chain[OF sh i] unfolding es .
  then obtain q where p: "f ?i = e_node e" and ch: "chain ?h q ys"
    and nd: "h_blk ?h (e_node e) = Some (Node \<lparr>n_key = e_kaddr e, n_value = e_vaddr e, n_next = q\<rparr>)"
    and ka: "h_blk ?h (e_kaddr e) = Some (Chars (e_key e))"
    and va: "h_blk ?h (e_vaddr e) = Some (Chars (e_val e))"
    and nz: "e_node e \<noteq> 0" "e_kaddr e \<noteq> 0" "e_vaddr e \<noteq> 0" by auto
  have ad: "?a \<notin> set (addrs (e # ys))" "distinct (addrs (e # ys))"
    using shape_addrs[OF sh i] es by auto
  let ?f = "f(?i := q)"
  let ?h1 = "?h\<lparr>h_blk := (h_blk ?h)(?a \<mapsto> Slots MAX_TABLE_SIZE ?f)\<rparr>"
  let ?h' = "?h\<lparr>h_blk := (h_blk ?h)(?a \<mapsto> Slots MAX_TABLE_SIZE ?f,
                e_node e := None, e_kaddr e := None, e_vaddr e := None)\<rparr>"
  let ?s' = "s\<lparr>hp := ?h', Hash := (Hash s)\<lparr>ht_count := ht_count (Hash s) - 1\<rparr>\<rparr>"
  have free: "free_node (e_node e) ?h1 = Inr ?h'"
  proof -
    have "distinct [e_node e, e_kaddr e, e_vaddr e]" "?a \<notin> {e_node e, e_kaddr e, e_vaddr e}"
      using ad by auto
    then show ?thesis
      by (simp add: free_node_ok[of ?h1 "e_node e" "e_kaddr e" "e_vaddr e" q] nd ka va nz)
  qed
  have run: "delete_kv_hashtable Ref_Hash (Str k) s = Inr (0, ?s')"
    using p nd ka nz ek free
    by (simp add: delete_kv_hashtable_def rd_slot_shape[OF sh k] wr_slot_shape[OF shape_array[OF sh] k])
  have "shape ?h' ?a ?f (E(?i := ys))"
  proof (rule shape_update[OF sh i])
    show "chain ?h' q ys"
    proof (rule chain_frame[OF ch])
      fix b assume "b \<in> set (addrs ys)"
      then have "b \<noteq> ?a" "b \<notin> {e_node e, e_kaddr e, e_vaddr e}" using ad by auto
      then show "h_blk ?h' b = h_blk ?h b" by simp
    qed
  qed (use ad es in auto)
  moreover have "keys_ok (E(?i := ys))"
    using keys_okD[OF keys i] es by (intro keys_ok_update[OF keys]) auto
  moreover have "int (cells (E(?i := ys))) = int (cells E) - 1"
    using cells_update[OF i, of E ys] es by simp
  ultimately have "table_rel ?s' (E(?i := ys))" using ms ct by (auto simp: table_rel_def)
  with run show ?thesis by (intro exI[of _ ?s']) simp
qed

lemma delete_inner:
  assumes rel: "table_rel s E" and k: "hashable k"
    and es: "E (slot k) = xs @ c # e # ys" and ek: "e_key e = k"
  shows "\<exists>s'. delete_kv_hashtable Ref_Hash (Str k) s = Inr (0, s') \<and>
    table_rel s' (E(slot k := xs @ c # ys)) \<and> h_fail (hp s') = h_fail (hp s)"
proof -
  obtain f where sh: "shape (hp s) (ht_nodes (Hash s)) f E" and keys: "keys_ok E"
    and ms: "ht_max_slots (Hash s) = int MAX_TABLE_SIZE" and ct: "ht_count (Hash s) = int (cells E)"
    using rel by (rule table_relE)
  let ?h = "hp s" and ?a = "ht_nodes (Hash s)" and ?i = "slot k"
  note i = slot_less[OF k]
  have ch: "chain ?h (f ?i) (xs @ c # e # ys)" using shape_chain[OF sh i] es by simp
  from chain_mid[OF ch] obtain q where chq: "chain ?h q ys"
    and c: "h_blk ?h (e_node c) = Some (Node \<lparr>n_key = e_kaddr c, n_value = e_vaddr c, n_next = e_node e\<rparr>)"
      "h_blk ?h (e_kaddr c) = Some (Chars (e_key c))" "h_blk ?h (e_vaddr c) = Some (Chars (e_val c))"
      "e_node c \<noteq> 0" "e_kaddr c \<noteq> 0" "e_vaddr c \<noteq> 0"
    and nd: "h_blk ?h (e_node e) = Some (Node \<lparr>n_key = e_kaddr e, n_value = e_vaddr e, n_next = q\<rparr>)"
    and ka: "h_blk ?h (e_kaddr e) = Some (Chars (e_key e))"
    and va: "h_blk ?h (e_vaddr e) = Some (Chars (e_val e))"
    and nz: "e_node e \<noteq> 0" "e_kaddr e \<noteq> 0" "e_vaddr e \<noteq> 0" by auto
  have ad: "?a \<notin> set (addrs (xs @ c # e # ys))" "distinct (addrs (xs @ c # e # ys))"
    using shape_addrs[OF sh i] es by auto
  have "distinct (map e_key (xs @ c # e # ys))" using keys_okD(1)[OF keys i] unfolding es .
  then have "k \<notin> e_key ` set (xs @ [c])" unfolding ek[symmetric] by auto
  then have kd: "\<forall>x \<in> set (xs @ [c]). e_key x \<noteq> k" by auto
  let ?c = "\<lparr>n_key = e_kaddr c, n_value = e_vaddr c, n_next = q\<rparr>"
  let ?h1 = "?h\<lparr>h_blk := (h_blk ?h)(e_node c \<mapsto> Node ?c)\<rparr>"
  let ?h' = "?h\<lparr>h_blk := (h_blk ?h)(e_node c \<mapsto> Node ?c,
                e_node e := None, e_kaddr e := None, e_vaddr e := None)\<rparr>"
  let ?s' = "s\<lparr>hp := ?h', Hash := (Hash s)\<lparr>ht_count := ht_count (Hash s) - 1\<rparr>\<rparr>"
  have free: "free_node (e_node e) ?h1 = Inr ?h'"
  proof -
    have "distinct [e_node e, e_kaddr e, e_vaddr e]" "e_node c \<notin> {e_node e, e_kaddr e, e_vaddr e}"
      using ad by auto
    then show ?thesis
      by (simp add: free_node_ok[of ?h1 "e_node e" "e_kaddr e" "e_vaddr e" q] nd ka va nz)
  qed
  have prev: "find_prev (Suc (h_top ?h)) (f ?i) k ?h = Inr (e_node c)"
  proof (rule find_prev_chain_hit[OF ch])
    show "length xs < Suc (h_top ?h)" using length_le_top[OF sh i] es by simp
    show "\<forall>x \<in> set (tl (xs @ [c])). e_key x \<noteq> k" using kd by (cases xs) auto
  qed (rule ek)
  have run: "delete_kv_hashtable Ref_Hash (Str k) s = Inr (0, ?s')"
  proof -
    obtain n where hd: "f ?i \<noteq> 0" "h_blk ?h (f ?i) = Some (Node n)"
      "h_blk ?h (n_key n) = Some (Chars (e_key (hd (xs @ [c]))))" using chain_first[OF ch] by blast
    have "e_key (hd (xs @ [c])) \<noteq> k" using kd by (cases xs) auto
    with hd prev c(1) nd nz free show ?thesis
      by (simp add: delete_kv_hashtable_def rd_slot_shape[OF sh k])
  qed
  have "shape ?h' ?a (f(?i := f ?i)) (E(?i := xs @ c # ys))"
  proof (rule shape_update[OF sh i])
    have "chain ?h' q ys"
    proof (rule chain_frame[OF chq])
      fix b assume "b \<in> set (addrs ys)"
      then have "b \<noteq> e_node c" "b \<notin> {e_node e, e_kaddr e, e_vaddr e}" using ad by auto
      then show "h_blk ?h' b = h_blk ?h b" by simp
    qed
    then have tail: "chain ?h' (e_node c) (c # ys)" using c ad by auto
    have "h_blk ?h' b = h_blk ?h b" if "b \<in> set (addrs xs)" for b using that ad by auto
    with ch tail show "chain ?h' (f ?i) (xs @ c # ys)" by (rule chain_replace_tail)
    show "h_blk ?h' ?a = Some (Slots MAX_TABLE_SIZE (f(?i := f ?i)))"
      using ad shape_array[OF sh] by auto
  qed (use ad es in auto)
  moreover have "keys_ok (E(?i := xs @ c # ys))"
    using keys_okD[OF keys i] es by (intro keys_ok_update[OF keys]) auto
  moreover have "int (cells (E(?i := xs @ c # ys))) = int (cells E) - 1"
    using cells_update[OF i, of E "xs @ c # ys"] es by simp
  ultimately have "table_rel ?s' (E(?i := xs @ c # ys))" using ms ct by (auto simp: table_rel_def)
  with run show ?thesis by (intro exI[of _ ?s']) simp
qed

lemma delete_found:
  assumes "table_rel s E" and "hashable k" and "lookup_entry k (E (slot k)) = Some e"
  shows "\<exists>s' xs ys. delete_kv_hashtable Ref_Hash (Str k) s = Inr (0, s') \<and>
    E (slot k) = xs @ e # ys \<and> table_rel s' (E(slot k := xs @ ys)) \<and>
    h_fail (hp s') = h_fail (hp s)"
proof -
  from assms(3) obtain xs ys where es: "E (slot k) = xs @ e # ys" "e_key e = k"
    by (rule lookup_entry_Some)
  show ?thesis
  proof (cases xs rule: rev_cases)
    case Nil
    with es show ?thesis using delete_head[OF assms(1,2), of e ys] by fastforce
  next
    case (snoc zs c)
    with es have "E (slot k) = zs @ c # e # ys" by simp
    from delete_inner[OF assms(1,2) this es(2)] es snoc show ?thesis by fastforce
  qed
qed

end
