(* ===== verification/KvInterface.thy ===== *)
theory KvInterface
  imports HashOps
begin

text \<open>
  The contract between the hash table and its clients. The locale \<open>kv_map\<close> lists the operations
  the command layer calls and the laws it may rely on, with a relation \<open>rel s m\<close> between states and
  maps; its lemmas are what a client can conclude from the laws alone. The interpretation \<open>tbl\<close>
  discharges the laws for \<open>hash.cpp\<close>, on keys whose hash is an index of the array (\<open>hashable\<close>) and
  while the allocator grants what it is asked for (\<open>plenty\<close>).
\<close>

section \<open>The interface\<close>

locale kv_map =
  fixes set_op :: "string \<Rightarrow> string \<Rightarrow> 's \<Rightarrow> (int \<times> 's) res"
    and get_op :: "string \<Rightarrow> 's \<Rightarrow> string option res"
    and del_op :: "string \<Rightarrow> 's \<Rightarrow> (int \<times> 's) res"
    and mod_op :: "string \<Rightarrow> string \<Rightarrow> 's \<Rightarrow> (int \<times> 's) res"
    and count_op :: "'s \<Rightarrow> int"
    and rel :: "'s \<Rightarrow> (string \<Rightarrow> string option) \<Rightarrow> bool"
    and ok_key :: "string \<Rightarrow> bool"
    and memory :: "'s \<Rightarrow> bool"
  assumes get_law: "rel s m \<Longrightarrow> ok_key k \<Longrightarrow> get_op k s = Inr (m k)"
    and set_new: "rel s m \<Longrightarrow> memory s \<Longrightarrow> ok_key k \<Longrightarrow> m k = None \<Longrightarrow>
      \<exists>s'. set_op k v s = Inr (0, s') \<and> rel s' (m(k \<mapsto> v)) \<and> memory s'"
    and set_exists: "rel s m \<Longrightarrow> ok_key k \<Longrightarrow> m k \<noteq> None \<Longrightarrow> set_op k v s = Inr (1, s)"
    and mod_present: "rel s m \<Longrightarrow> memory s \<Longrightarrow> ok_key k \<Longrightarrow> m k \<noteq> None \<Longrightarrow>
      \<exists>s'. mod_op k v s = Inr (0, s') \<and> rel s' (m(k \<mapsto> v)) \<and> memory s'"
    and mod_absent: "rel s m \<Longrightarrow> ok_key k \<Longrightarrow> m k = None \<Longrightarrow> mod_op k v s = Inr (- 1, s)"
    and del_present: "rel s m \<Longrightarrow> memory s \<Longrightarrow> ok_key k \<Longrightarrow> m k \<noteq> None \<Longrightarrow>
      \<exists>s'. del_op k s = Inr (0, s') \<and> rel s' (m(k := None)) \<and> memory s'"
    and del_absent: "rel s m \<Longrightarrow> ok_key k \<Longrightarrow> m k = None \<Longrightarrow> del_op k s = Inr (- 1, s)"
    and count_law: "rel s m \<Longrightarrow> finite (dom m) \<and> count_op s = int (card (dom m))"
begin

text \<open>The map of a state is determined on the keys that can be asked for.\<close>

lemma rel_unique:
  assumes "rel s m" and "rel s n" and "ok_key k"
  shows "m k = n k"
  using get_law[OF assms(1,3)] get_law[OF assms(2,3)] by simp

lemma set_then_get:
  assumes "rel s m" and "memory s" and "ok_key k" and "m k = None" and "ok_key l"
  shows "\<exists>s'. set_op k v s = Inr (0, s') \<and> get_op k s' = Inr (Some v) \<and>
    (l \<noteq> k \<longrightarrow> get_op l s' = get_op l s)"
proof -
  obtain s' where s': "set_op k v s = Inr (0, s')" "rel s' (m(k \<mapsto> v))"
    using set_new[OF assms(1-4)] by blast
  with get_law[OF s'(2) assms(3)] get_law[OF s'(2) assms(5)] get_law[OF assms(1,5)]
  show ?thesis by auto
qed

text \<open>A key that is already there keeps its value: \<open>set\<close> never overwrites.\<close>

lemma set_twice:
  assumes "rel s m" and "memory s" and "ok_key k" and "m k = None"
  shows "\<exists>s'. set_op k v s = Inr (0, s') \<and> set_op k w s' = Inr (1, s') \<and> get_op k s' = Inr (Some v)"
proof -
  obtain s' where s': "set_op k v s = Inr (0, s')" "rel s' (m(k \<mapsto> v))"
    using set_new[OF assms] by blast
  with set_exists[OF s'(2) assms(3)] get_law[OF s'(2) assms(3)] show ?thesis by auto
qed

lemma del_then_get:
  assumes "rel s m" and "memory s" and "ok_key k" and "m k \<noteq> None" and "ok_key l"
  shows "\<exists>s'. del_op k s = Inr (0, s') \<and> get_op k s' = Inr None \<and> del_op k s' = Inr (- 1, s') \<and>
    (l \<noteq> k \<longrightarrow> get_op l s' = get_op l s)"
proof -
  obtain s' where s': "del_op k s = Inr (0, s')" "rel s' (m(k := None))"
    using del_present[OF assms(1-4)] by blast
  with del_absent[OF s'(2) assms(3)] get_law[OF s'(2) assms(3)] get_law[OF s'(2) assms(5)]
    get_law[OF assms(1,5)] show ?thesis by auto
qed

lemma mod_then_get:
  assumes "rel s m" and "memory s" and "ok_key k" and "m k \<noteq> None" and "ok_key l"
  shows "\<exists>s'. mod_op k v s = Inr (0, s') \<and> get_op k s' = Inr (Some v) \<and>
    (l \<noteq> k \<longrightarrow> get_op l s' = get_op l s) \<and> count_op s' = count_op s"
proof -
  obtain s' where s': "mod_op k v s = Inr (0, s')" "rel s' (m(k \<mapsto> v))"
    using mod_present[OF assms(1-4)] by blast
  have "dom (m(k \<mapsto> v)) = dom m" using assms(4) by auto
  with count_law[OF s'(2)] count_law[OF assms(1)] have "count_op s' = count_op s" by simp
  with s' get_law[OF s'(2) assms(3)] get_law[OF s'(2) assms(5)] get_law[OF assms(1,5)]
  show ?thesis by auto
qed

lemma set_counts:
  assumes "rel s m" and "memory s" and "ok_key k" and "m k = None"
  shows "\<exists>s'. set_op k v s = Inr (0, s') \<and> count_op s' = count_op s + 1"
proof -
  obtain s' where s': "set_op k v s = Inr (0, s')" "rel s' (m(k \<mapsto> v))"
    using set_new[OF assms] by blast
  moreover have "card (dom (m(k \<mapsto> v))) = card (dom m) + 1"
    using count_law[OF assms(1)] assms(4) by (simp add: domIff)
  ultimately show ?thesis using count_law[OF s'(2)] count_law[OF assms(1)] by auto
qed

end

section \<open>The table as a provider\<close>

definition plenty :: "kvstate \<Rightarrow> bool" where
  "plenty s \<longleftrightarrow> (\<forall>a. \<not> h_fail (hp s) a)"

text \<open>The value a client reads through the pointer that \<open>kvs_hash_get\<close> returns.\<close>

definition hash_value :: "string \<Rightarrow> kvstate \<Rightarrow> string option res" where
  "hash_value k s =
     bind_res (kvs_hash_get Ref_Hash (Str k) s) (\<lambda>p.
       if p = 0 then Inr None else bind_res (rd_str p (hp s)) (\<lambda>v. Inr (Some v)))"

lemma plenty_allocs: "plenty s \<Longrightarrow> allocs_ok n (hp s)"
  by (simp add: plenty_def allocs_ok_def)

lemma plenty_frame: "h_fail (hp s') = h_fail (hp s) \<Longrightarrow> plenty s \<Longrightarrow> plenty s'"
  by (simp add: plenty_def)

lemma kv_rel_get:
  assumes "kv_rel s m" and "hashable k"
  shows "hash_value k s = Inr (m k)"
proof -
  obtain E where E: "table_rel s E" "m = contents E" using assms(1) by (auto simp: kv_rel_def)
  show ?thesis
  proof (cases "lookup_entry k (E (slot k))")
    case None
    with get_absent[OF E(1) assms(2)] E(2) assms(2) show ?thesis
      by (simp add: hash_value_def kvs_hash_get_def contents_def)
  next
    case (Some e)
    with get_found[OF E(1) assms(2)] E(2) assms(2) show ?thesis
      by (simp add: hash_value_def kvs_hash_get_def contents_def)
  qed
qed

lemma contents_None_iff: "hashable k \<Longrightarrow> contents E k = None \<longleftrightarrow> lookup_entry k (E (slot k)) = None"
  by (simp add: contents_def)

lemma table_rel_keys: "table_rel s E \<Longrightarrow> keys_ok E"
  by (auto simp: table_rel_def)

lemma kv_rel_put:
  assumes rel: "kv_rel s m" and k: "hashable k"
  shows "m k = None \<Longrightarrow> allocs_ok 3 (hp s) \<Longrightarrow>
      \<exists>s'. kvs_hash_set Ref_Hash (Str k) (Str v) s = Inr (0, s') \<and> kv_rel s' (m(k \<mapsto> v)) \<and>
        h_fail (hp s') = h_fail (hp s)"
    and "m k = None \<Longrightarrow> \<not> allocs_ok 3 (hp s) \<Longrightarrow>
      kvs_hash_set Ref_Hash (Str k) (Str v) s = Inl Bad_pointer"
    and "m k \<noteq> None \<Longrightarrow> kvs_hash_set Ref_Hash (Str k) (Str v) s = Inr (1, s)"
proof -
  obtain E where E: "table_rel s E" "m = contents E" using rel by (auto simp: kv_rel_def)
  note keys = table_rel_keys[OF E(1)]
  { assume "m k = None" and ok: "allocs_ok 3 (hp s)"
    then have none: "lookup_entry k (E (slot k)) = None" using E(2) k by (simp add: contents_None_iff)
    let ?es = "new_entry (hp s) k v # E (slot k)"
    have "contents (E(slot k := ?es)) = (contents E)(k \<mapsto> v)"
      using none by (intro contents_update keys k) (auto simp: new_entry_def contents_def)
    with put_new[OF E(1) k none ok, of v] E(2)
    show "\<exists>s'. kvs_hash_set Ref_Hash (Str k) (Str v) s = Inr (0, s') \<and> kv_rel s' (m(k \<mapsto> v)) \<and>
        h_fail (hp s') = h_fail (hp s)" unfolding kvs_hash_set_def kv_rel_def by metis }
  { assume "m k = None" and "\<not> allocs_ok 3 (hp s)"
    then show "kvs_hash_set Ref_Hash (Str k) (Str v) s = Inl Bad_pointer"
      using put_alloc_fail[OF E(1) k] E(2) k by (simp add: contents_None_iff kvs_hash_set_def) }
  { assume "m k \<noteq> None"
    then show "kvs_hash_set Ref_Hash (Str k) (Str v) s = Inr (1, s)"
      using put_exists[OF E(1) k] E(2) k by (auto simp: contents_def kvs_hash_set_def) }
qed

lemma kv_rel_modify:
  assumes rel: "kv_rel s m" and k: "hashable k"
  shows "m k \<noteq> None \<Longrightarrow> allocs_ok 1 (hp s) \<Longrightarrow>
      \<exists>s'. kvs_hash_modify Ref_Hash (Str k) (Str v) s = Inr (0, s') \<and> kv_rel s' (m(k \<mapsto> v)) \<and>
        h_fail (hp s') = h_fail (hp s)"
    and "m k \<noteq> None \<Longrightarrow> \<not> allocs_ok 1 (hp s) \<Longrightarrow>
      kvs_hash_modify Ref_Hash (Str k) (Str v) s = Inl Assert_failed"
    and "m k = None \<Longrightarrow> kvs_hash_modify Ref_Hash (Str k) value s = Inr (- 1, s)"
proof -
  obtain E where E: "table_rel s E" "m = contents E" using rel by (auto simp: kv_rel_def)
  note keys = table_rel_keys[OF E(1)]
  { assume "m k \<noteq> None" and ok: "allocs_ok 1 (hp s)"
    then obtain e where e: "lookup_entry k (E (slot k)) = Some e"
      using E(2) k by (auto simp: contents_def)
    obtain s' xs ys vp where run: "kvs_hash_modify Ref_Hash (Str k) (Str v) s = Inr (0, s')"
      and es: "E (slot k) = xs @ e # ys" and fr: "h_fail (hp s') = h_fail (hp s)"
      and rel': "table_rel s' (E(slot k := xs @ e\<lparr>e_vaddr := vp, e_val := v\<rparr> # ys))"
      using modify_found[OF E(1) k e ok] by metis
    have ek: "e_key e = k" using e by (auto elim: lookup_entry_Some)
    have "contents (E(slot k := xs @ e\<lparr>e_vaddr := vp, e_val := v\<rparr> # ys)) = (contents E)(k \<mapsto> v)"
    proof (rule contents_update[OF keys k])
      fix l assume l: "hashable l" "slot l = slot k"
      have "distinct (map e_key (xs @ e # ys))"
        using keys_okD(1)[OF keys slot_less[OF k]] unfolding es .
      then have "lookup_entry k xs = None" using ek by (auto simp: lookup_entry_None image_iff)
      then show "map_option e_val (lookup_entry l (xs @ e\<lparr>e_vaddr := vp, e_val := v\<rparr> # ys)) =
        (if l = k then Some v else contents E l)"
        using l es ek by (auto simp: contents_def lookup_entry_append split: option.splits)
    qed
    with run rel' fr E(2)
    show "\<exists>s'. kvs_hash_modify Ref_Hash (Str k) (Str v) s = Inr (0, s') \<and> kv_rel s' (m(k \<mapsto> v)) \<and>
        h_fail (hp s') = h_fail (hp s)" unfolding kv_rel_def by metis }
  { assume "m k \<noteq> None" and "\<not> allocs_ok 1 (hp s)"
    then show "kvs_hash_modify Ref_Hash (Str k) (Str v) s = Inl Assert_failed"
      using modify_alloc_fail[OF E(1) k] E(2) k by (auto simp: contents_def) }
  { assume "m k = None"
    then show "kvs_hash_modify Ref_Hash (Str k) value s = Inr (- 1, s)"
      using modify_absent[OF E(1) k] E(2) k by (simp add: contents_None_iff) }
qed

lemma kv_rel_delete:
  assumes rel: "kv_rel s m" and k: "hashable k"
  shows "m k \<noteq> None \<Longrightarrow>
      \<exists>s'. kvs_hash_delete Ref_Hash (Str k) s = Inr (0, s') \<and> kv_rel s' (m(k := None)) \<and>
        h_fail (hp s') = h_fail (hp s)"
    and "m k = None \<Longrightarrow> kvs_hash_delete Ref_Hash (Str k) s = Inr (- 1, s)"
proof -
  obtain E where E: "table_rel s E" "m = contents E" using rel by (auto simp: kv_rel_def)
  note keys = table_rel_keys[OF E(1)]
  { assume "m k \<noteq> None"
    then obtain e where e: "lookup_entry k (E (slot k)) = Some e"
      using E(2) k by (auto simp: contents_def)
    obtain s' xs ys where run: "delete_kv_hashtable Ref_Hash (Str k) s = Inr (0, s')"
      and es: "E (slot k) = xs @ e # ys" and fr: "h_fail (hp s') = h_fail (hp s)"
      and rel': "table_rel s' (E(slot k := xs @ ys))"
      using delete_found[OF E(1) k e] by metis
    have ek: "e_key e = k" using e by (auto elim: lookup_entry_Some)
    have "contents (E(slot k := xs @ ys)) = (contents E)(k := None)"
    proof (rule contents_update[OF keys k])
      fix l assume l: "hashable l" "slot l = slot k"
      have "distinct (map e_key (xs @ e # ys))"
        using keys_okD(1)[OF keys slot_less[OF k]] unfolding es .
      then have "lookup_entry k (xs @ ys) = None" using ek lookup_entry_unique(2) by metis
      then show "map_option e_val (lookup_entry l (xs @ ys)) = (if l = k then None else contents E l)"
        using l es ek by (auto simp: contents_def lookup_entry_append split: option.splits)
    qed
    with run rel' fr E(2)
    show "\<exists>s'. kvs_hash_delete Ref_Hash (Str k) s = Inr (0, s') \<and> kv_rel s' (m(k := None)) \<and>
        h_fail (hp s') = h_fail (hp s)" unfolding kv_rel_def kvs_hash_delete_def by metis }
  { assume "m k = None"
    then show "kvs_hash_delete Ref_Hash (Str k) s = Inr (- 1, s)"
      using delete_absent[OF E(1) k] E(2) k by (simp add: contents_None_iff kvs_hash_delete_def) }
qed

lemma kv_rel_count:
  assumes "kv_rel s m"
  shows "finite (dom m)" and "kvs_hash_count s = int (card (dom m))"
proof -
  obtain E where E: "table_rel s E" "m = contents E" using assms by (auto simp: kv_rel_def)
  with cells_card[OF table_rel_keys[OF E(1)]]
  show "finite (dom m)" "kvs_hash_count s = int (card (dom m))"
    by (auto simp: table_rel_def kvs_hash_count_def)
qed

interpretation tbl: kv_map
  "\<lambda>k v s. kvs_hash_set Ref_Hash (Str k) (Str v) s" hash_value
  "\<lambda>k s. kvs_hash_delete Ref_Hash (Str k) s"
  "\<lambda>k v s. kvs_hash_modify Ref_Hash (Str k) (Str v) s" kvs_hash_count kv_rel hashable plenty
proof (unfold_locales, goal_cases)
  case (1 s m k) then show ?case by (rule kv_rel_get)
next
  case (2 s m k v) then show ?case
    using kv_rel_put(1)[of s m k v] plenty_allocs[of s 3] plenty_frame by metis
next
  case (3 s m k v) then show ?case by (rule kv_rel_put(3))
next
  case (4 s m k v) then show ?case
    using kv_rel_modify(1)[of s m k v] plenty_allocs[of s 1] plenty_frame by metis
next
  case (5 s m k v) then show ?case by (rule kv_rel_modify(3))
next
  case (6 s m k) then show ?case using kv_rel_delete(1)[of s m k] plenty_frame by metis
next
  case (7 s m k) then show ?case by (rule kv_rel_delete(2))
next
  case (8 s m) then show ?case using kv_rel_count by blast
qed

end
