(* ===== verification/TableLife.thy ===== *)
theory TableLife
  imports KvInterface
begin

text \<open>
  The life of the table: \<open>init_hashtable\<close> and \<open>dest_hashtable\<close>. A new table is empty exactly when the
  memory behind the bucket array reads as zeros, which the code does not arrange. Destruction frees
  the cells and the array, never the key and value blocks.
\<close>

section \<open>Initialisation\<close>

text \<open>The engine at program start: nothing allocated, \<open>Hash\<close> zero-initialised.\<close>

definition boot_state :: "(addr \<Rightarrow> bool) \<Rightarrow> (nat \<Rightarrow> addr) \<Rightarrow> kvstate" where
  "boot_state fail junk =
     \<lparr>hp = \<lparr>h_blk = (\<lambda>_. None), h_top = 0, h_fail = fail, h_junk = junk\<rparr>,
      Hash = \<lparr>ht_nodes = 0, ht_max_slots = 0, ht_count = 0\<rparr>\<rparr>"

lemma init_ok:
  assumes "\<not> fail 1"
  shows "init_hashtable Ref_Hash (boot_state fail junk) =
    (0, \<lparr>hp = \<lparr>h_blk = [1 \<mapsto> Slots MAX_TABLE_SIZE junk], h_top = 1, h_fail = fail, h_junk = junk\<rparr>,
         Hash = \<lparr>ht_nodes = 1, ht_max_slots = int MAX_TABLE_SIZE, ht_count = 0\<rparr>\<rparr>)"
  using assms by (simp add: init_hashtable_def boot_state_def kvstore_malloc_def Let_def)

lemma init_fail:
  assumes "fail 1"
  shows "fst (init_hashtable Ref_Hash (boot_state fail junk)) = - 1"
    and "ht_nodes (Hash (snd (init_hashtable Ref_Hash (boot_state fail junk)))) = 0"
  using assms by (simp_all add: init_hashtable_def boot_state_def kvstore_malloc_def Let_def)

text \<open>The memory of the array reads as zeros.\<close>

definition zeroed :: "(nat \<Rightarrow> addr) \<Rightarrow> bool" where
  "zeroed junk \<longleftrightarrow> (\<forall>i < MAX_TABLE_SIZE. junk i = 0)"

text \<open>Cleared memory gives a well-formed empty table.\<close>

lemma init_zeroed_rel:
  assumes "\<not> fail 1" and "zeroed junk"
  shows "kv_rel (snd (init_hashtable Ref_Hash (boot_state fail junk))) Map.empty"
proof -
  let ?s = "snd (init_hashtable Ref_Hash (boot_state fail junk))"
  have "shape (hp ?s) (ht_nodes (Hash ?s)) junk (\<lambda>_. [])"
    using assms by (auto simp: shape_def init_ok zeroed_def)
  then have "table_rel ?s (\<lambda>_. [])"
    using assms(1) by (auto simp: table_rel_def keys_ok_def cells_def init_ok)
  moreover have "contents (\<lambda>_. []) = Map.empty" by (rule ext) (simp add: contents_def)
  ultimately show ?thesis unfolding kv_rel_def by metis
qed

text \<open>Memory that is not cleared: the first key whose slot is not zero runs through a wild pointer.\<close>

lemma init_junk_wild:
  assumes "\<not> fail 1" and "hashable k" and "1 < junk (slot k)"
  shows "get_kv_hashtable Ref_Hash (Str k) (snd (init_hashtable Ref_Hash (boot_state fail junk))) =
    Inl Bad_pointer"
  using assms slot_less[OF assms(2)] int_slot[OF assms(2)]
  by (simp add: get_kv_hashtable_def init_ok rd_slot_def find_node.simps(2) rd_node_def
      flip: int_slot[OF assms(2)])

section \<open>Destruction\<close>

definition cell_addrs :: "entry list \<Rightarrow> addr set" where
  "cell_addrs es = e_node ` set es"

definition text_addrs :: "entry list \<Rightarrow> addr set" where
  "text_addrs es = e_kaddr ` set es \<union> e_vaddr ` set es"

lemma cell_addrs_simps [simp]:
  "cell_addrs [] = {}" "cell_addrs (e # es) = insert (e_node e) (cell_addrs es)"
  "text_addrs [] = {}" "text_addrs (e # es) = {e_kaddr e, e_vaddr e} \<union> text_addrs es"
  by (auto simp: cell_addrs_def text_addrs_def)

lemma set_addrs_split: "set (addrs es) = cell_addrs es \<union> text_addrs es"
  by (induction es) auto

lemma cells_texts_disjoint: "distinct (addrs es) \<Longrightarrow> cell_addrs es \<inter> text_addrs es = {}"
proof (induction es)
  case (Cons e es)
  then show ?case using set_addrs_split[of es] by auto
qed simp

lemma card_text_addrs: "distinct (addrs es) \<Longrightarrow> card (text_addrs es) = 2 * length es"
proof (induction es)
  case (Cons e es)
  then have "e_kaddr e \<notin> text_addrs es" "e_vaddr e \<notin> text_addrs es" "e_kaddr e \<noteq> e_vaddr e"
    using set_addrs_split[of es] by auto
  moreover have "finite (text_addrs es)" by (simp add: text_addrs_def)
  ultimately show ?case using Cons by simp
qed simp

text \<open>The heap after the cells of \<open>cs\<close> are gone and slots \<open>I\<close> of the array are null.\<close>

definition emptied :: "heap \<Rightarrow> addr \<Rightarrow> nat \<Rightarrow> (nat \<Rightarrow> addr) \<Rightarrow> nat set \<Rightarrow> addr set \<Rightarrow> heap" where
  "emptied h a n f I cs =
     h\<lparr>h_blk := (\<lambda>b. if b \<in> cs then None
                     else if b = a then Some (Slots n (\<lambda>j. if j \<in> I then 0 else f j))
                     else h_blk h b)\<rparr>"

lemma emptied_top [simp]: "h_top (emptied h a n f I cs) = h_top h"
  by (simp add: emptied_def)

lemma dest_bucket_chain:
  assumes "chain h p es" and "distinct (a # addrs es)" and "h_blk h a = Some (Slots n f)"
    and "f i = p" and "i < n" and "length es < fuel"
  shows "dest_bucket fuel a i p h = Inr (emptied h a n f {i} (cell_addrs es))"
  using assms
proof (induction es arbitrary: p h f fuel)
  case Nil
  then obtain m where "fuel = Suc m" by (cases fuel) auto
  moreover have "emptied h a n f {i} {} = h"
  proof -
    have "(\<lambda>j. if j = i then 0 else f j) = f" using Nil.prems(1,4) by auto
    then have "h_blk (emptied h a n f {i} {}) = h_blk h"
      using Nil.prems(3) by (auto simp: emptied_def fun_eq_iff)
    then show ?thesis by (simp add: emptied_def)
  qed
  ultimately show ?case using Nil by simp
next
  case (Cons e es)
  then obtain m where m: "fuel = Suc m" by (cases fuel) auto
  from Cons.prems obtain q where p: "p = e_node e" "p \<noteq> 0"
    and nd: "h_blk h p = Some (Node \<lparr>n_key = e_kaddr e, n_value = e_vaddr e, n_next = q\<rparr>)"
    and ch: "chain h q es" by auto
  let ?h = "h\<lparr>h_blk := (h_blk h)(a \<mapsto> Slots n (f(i := q)), p := None)\<rparr>"
  have ne: "a \<noteq> p" "a \<notin> set (addrs es)" "p \<notin> set (addrs es)" using Cons.prems(2) p by auto
  have "chain ?h q es"
  proof (rule chain_frame[OF ch])
    fix b assume "b \<in> set (addrs es)"
    with ne have "b \<noteq> a" "b \<noteq> p" by auto
    then show "h_blk ?h b = h_blk h b" by simp
  qed
  then have "dest_bucket m a i q ?h = Inr (emptied ?h a n (f(i := q)) {i} (cell_addrs es))"
    using Cons.prems m ne by (intro Cons.IH) auto
  moreover have "emptied ?h a n (f(i := q)) {i} (cell_addrs es) = emptied h a n f {i} (cell_addrs (e # es))"
    using ne p by (auto simp: emptied_def fun_eq_iff)
  ultimately show ?case
    using m p nd Cons.prems(3,5) ne by (simp add: fun_upd_twist)
qed

lemma emptied_emptied:
  assumes "a \<notin> cs"
  shows "emptied (emptied h a n f I cs) a n (\<lambda>j. if j \<in> I then 0 else f j) J ds =
    emptied h a n f (I \<union> J) (cs \<union> ds)"
  using assms by (auto simp: emptied_def fun_eq_iff)

lemma dest_slots_chains:
  assumes "h_blk h a = Some (Slots n f)" and "distinct is" and "set is \<subseteq> {..<n}"
    and "\<And>i. i \<in> set is \<Longrightarrow> chain h (f i) (E i) \<and> distinct (a # addrs (E i)) \<and> length (E i) \<le> h_top h"
    and "\<And>i j. i \<in> set is \<Longrightarrow> j \<in> set is \<Longrightarrow> i \<noteq> j \<Longrightarrow> set (addrs (E i)) \<inter> set (addrs (E j)) = {}"
  shows "dest_slots a is h = Inr (emptied h a n f (set is) (\<Union>i \<in> set is. cell_addrs (E i)))"
  using assms
proof (induction "is" arbitrary: h f)
  case Nil
  then have "h_blk (emptied h a n f {} {}) = h_blk h" by (auto simp: emptied_def fun_eq_iff)
  then show ?case by (simp add: emptied_def)
next
  case (Cons i "is")
  let ?h = "emptied h a n f {i} (cell_addrs (E i))" and ?f = "\<lambda>j. if j \<in> {i} then 0 else f j"
  have i: "i < n" "chain h (f i) (E i)" "distinct (a # addrs (E i))" "length (E i) < Suc (h_top h)"
    using Cons.prems(3) Cons.prems(4)[of i] by auto
  have a: "a \<notin> cell_addrs (E i)" using i(3) set_addrs_split[of "E i"] by auto
  have run: "dest_bucket (Suc (h_top h)) a i (f i) h = Inr ?h"
    using dest_bucket_chain[OF i(2,3) Cons.prems(1) refl i(1,4)] .
  have "dest_slots a is ?h = Inr (emptied ?h a n ?f (set is) (\<Union>i \<in> set is. cell_addrs (E i)))"
  proof (rule Cons.IH)
    show "h_blk ?h a = Some (Slots n ?f)" using a by (simp add: emptied_def)
    fix j assume j: "j \<in> set is"
    then have "j \<noteq> i" using Cons.prems(2) by auto
    have "chain ?h (f j) (E j)"
    proof (rule chain_frame)
      show "chain h (f j) (E j)" using Cons.prems(4) j by simp
      fix b assume b: "b \<in> set (addrs (E j))"
      have "b \<noteq> a" using Cons.prems(4)[of j] j b by auto
      moreover have "b \<notin> cell_addrs (E i)"
        using Cons.prems(5)[of j i] j \<open>j \<noteq> i\<close> b set_addrs_split[of "E i"] by auto
      ultimately show "h_blk ?h b = h_blk h b" by (simp add: emptied_def)
    qed
    with \<open>j \<noteq> i\<close> Cons.prems(4)[of j] j
    show "chain ?h (?f j) (E j) \<and> distinct (a # addrs (E j)) \<and> length (E j) \<le> h_top ?h" by simp
  qed (use Cons.prems in auto)
  with run Cons.prems(1) i(1) show ?case by (simp add: emptied_emptied[OF a, of h n f "{i}", simplified])
qed

lemma dest_hashtable_ok:
  assumes rel: "table_rel s E"
  shows "\<exists>s'. dest_hashtable Ref_Hash s = Inr s' \<and>
    {b. h_blk (hp s') b \<noteq> None} = (\<Union>i < MAX_TABLE_SIZE. text_addrs (E i))"
proof -
  obtain f where sh: "shape (hp s) (ht_nodes (Hash s)) f E"
    and ms: "ht_max_slots (Hash s) = int MAX_TABLE_SIZE" using rel by (rule table_relE)
  let ?a = "ht_nodes (Hash s)" and ?h = "hp s" and ?I = "set [0..<MAX_TABLE_SIZE]"
  let ?cs = "\<Union>i \<in> ?I. cell_addrs (E i)"
  let ?h1 = "emptied ?h ?a MAX_TABLE_SIZE f ?I ?cs"
  have slots: "dest_slots ?a [0..<MAX_TABLE_SIZE] ?h = Inr ?h1"
  proof (rule dest_slots_chains[OF shape_array[OF sh]])
    fix i assume i: "i \<in> ?I"
    then have "i < MAX_TABLE_SIZE" by simp
    from shape_chain[OF sh this] shape_addrs[OF sh this] length_le_top[OF sh this]
    show "chain ?h (f i) (E i) \<and> distinct (?a # addrs (E i)) \<and> length (E i) \<le> h_top ?h" by simp
  next
    fix i j assume "i \<in> ?I" "j \<in> ?I" "i \<noteq> j"
    then show "set (addrs (E i)) \<inter> set (addrs (E j)) = {}" using shape_disjoint[OF sh, of i j] by auto
  qed auto
  have a: "?a \<noteq> 0" "?a \<notin> ?cs"
    using sh shape_addrs(2)[OF sh] set_addrs_split by (auto simp: shape_def)
  then have live: "h_blk ?h1 ?a \<noteq> None" by (simp add: emptied_def)
  then obtain b where b: "h_blk ?h1 ?a = Some b" by blast
  let ?s' = "s\<lparr>hp := ?h1\<lparr>h_blk := (h_blk ?h1)(?a := None)\<rparr>\<rparr>"
  have run: "dest_hashtable Ref_Hash s = Inr ?s'"
    using slots ms a(1) b by (simp add: dest_hashtable_def)
  have "h_blk (hp ?s') b \<noteq> None \<longleftrightarrow> (\<exists>i < MAX_TABLE_SIZE. b \<in> text_addrs (E i))" for b
  proof
    assume "h_blk (hp ?s') b \<noteq> None"
    then have "h_blk ?h b \<noteq> None" "b \<noteq> ?a" "b \<notin> ?cs" by (auto simp: emptied_def split: if_splits)
    with shape_owned[OF sh, of b] set_addrs_split
    show "\<exists>i < MAX_TABLE_SIZE. b \<in> text_addrs (E i)" by fastforce
  next
    assume "\<exists>i < MAX_TABLE_SIZE. b \<in> text_addrs (E i)"
    then obtain i where i: "i < MAX_TABLE_SIZE" "b \<in> text_addrs (E i)" by blast
    then have bi: "b \<in> set (addrs (E i))" using set_addrs_split by blast
    have "b \<notin> cell_addrs (E j)" if "j < MAX_TABLE_SIZE" for j
      using shape_disjoint[OF sh i(1) that _ bi] set_addrs_split[of "E j"] i(2)
        cells_texts_disjoint[OF shape_addrs(3)[OF sh i(1)]] by (cases "i = j") auto
    moreover have "b \<noteq> ?a" using shape_addrs(2)[OF sh i(1)] bi by auto
    ultimately show "h_blk (hp ?s') b \<noteq> None"
      using chain_live[OF shape_chain[OF sh i(1)] bi] by (auto simp: emptied_def)
  qed
  with run show ?thesis by auto
qed

text \<open>Two blocks stay behind for every key the table held.\<close>

lemma card_leaked:
  assumes "table_rel s E"
  shows "card (\<Union>i < MAX_TABLE_SIZE. text_addrs (E i)) = 2 * cells E"
proof -
  obtain f where sh: "shape (hp s) (ht_nodes (Hash s)) f E" using assms by (rule table_relE)
  have "card (\<Union>i < MAX_TABLE_SIZE. text_addrs (E i)) = (\<Sum>i < MAX_TABLE_SIZE. card (text_addrs (E i)))"
  proof (rule card_UN_disjoint)
    show "\<forall>i \<in> {..<MAX_TABLE_SIZE}. \<forall>j \<in> {..<MAX_TABLE_SIZE}. i \<noteq> j \<longrightarrow> text_addrs (E i) \<inter> text_addrs (E j) = {}"
    proof (intro ballI impI equals0I)
      fix i j b assume "i \<in> {..<MAX_TABLE_SIZE}" "j \<in> {..<MAX_TABLE_SIZE}" "i \<noteq> j"
        and "b \<in> text_addrs (E i) \<inter> text_addrs (E j)"
      with shape_disjoint[OF sh, of i j b] set_addrs_split[of "E i"] set_addrs_split[of "E j"]
      show False by auto
    qed
  qed (auto simp: text_addrs_def)
  also have "\<dots> = (\<Sum>i < MAX_TABLE_SIZE. 2 * length (E i))"
    using shape_addrs(3)[OF sh] by (intro sum.cong) (auto simp: card_text_addrs)
  finally show ?thesis by (simp add: cells_def sum_distrib_left)
qed

end
