(* ===== verification/Persist.thy ===== *)
theory Persist
  imports TableLife CStrings
begin

text \<open>
  Saving the table to disk and loading it back: \<open>save_to_disk\<close> and \<open>load_from_disk\<close> of
  \<open>kv_core/hash.cpp\<close>. The file is the list of its bytes, or \<open>None\<close> when it does not exist; whether
  \<open>fopen\<close> succeeds is an argument. A line of the file is \<open>key:value\<close>. The last section shows which
  tables survive the round trip.
\<close>

definition BUFFER_LENGTH :: nat where
  "BUFFER_LENGTH = 512"

abbreviation COLON :: char where "COLON \<equiv> CHR '':''"

section \<open>Saving\<close>

fun save_bucket :: "nat \<Rightarrow> addr \<Rightarrow> heap \<Rightarrow> string res" where
  "save_bucket 0 node h = Inl Diverges"
| "save_bucket (Suc fuel) node h =
     (if node = 0 then Inr []
      else bind_res (rd_node node h) (\<lambda>n.
        bind_res (rd_str (n_key n) h) (\<lambda>k.
          bind_res (rd_str (n_value n) h) (\<lambda>v.
            bind_res (save_bucket fuel (n_next n) h) (\<lambda>out.
              Inr (k @ COLON # v @ NL # out))))))"

fun save_slots :: "addr \<Rightarrow> nat list \<Rightarrow> heap \<Rightarrow> string res" where
  "save_slots arr [] h = Inr []"
| "save_slots arr (i # is) h =
     bind_res (rd_slot arr (int i) h) (\<lambda>node.
       bind_res (save_bucket (Suc (h_top h)) node h) (\<lambda>out1.
         bind_res (save_slots arr is h) (\<lambda>out2. Inr (out1 @ out2))))"

text \<open>
  \<open>save_to_disk hash filename writable file s\<close>: the C result and the file afterwards. Opening for
  writing truncates the file, so a fault in the loop would leave a partial file behind; that case
  is the \<open>Inl\<close> of the result.
\<close>

definition save_to_disk ::
  "table_ptr \<Rightarrow> cptr \<Rightarrow> bool \<Rightarrow> string option \<Rightarrow> kvstate \<Rightarrow> (int \<times> string option) res" where
  "save_to_disk hash filename writable file s =
     (if hash = Null_table \<or> filename = Null then Inr (- 1, file)
      else if \<not> writable then Inr (- 1, file)
      else bind_res (save_slots (ht_nodes (Hash s)) [0..<nat (ht_max_slots (Hash s))] (hp s))
             (\<lambda>out. Inr (0, Some out)))"

section \<open>Loading\<close>

text \<open>
  One line as \<open>fgets\<close> delivered it: the newline is cut off, the text is split at the first colon,
  and both halves go to \<open>put_kv_hashtable\<close>. A line without a colon is skipped.
\<close>

definition load_line :: "table_ptr \<Rightarrow> string \<Rightarrow> kvstate \<Rightarrow> kvstate res" where
  "load_line hash raw s =
     (case c_split_at COLON (takeWhile (\<lambda>c. c \<noteq> NL) (c_str raw)) of
        None \<Rightarrow> Inr s
      | Some (key, val) \<Rightarrow>
          bind_res (put_kv_hashtable hash (Str key) (Str val) s) (\<lambda>(result, s'). Inr s'))"

function load_lines :: "table_ptr \<Rightarrow> string \<Rightarrow> kvstate \<Rightarrow> kvstate res" where
  "load_lines hash input s =
     (case c_fgets BUFFER_LENGTH input of
        None \<Rightarrow> Inr s
      | Some (raw, rest) \<Rightarrow> bind_res (load_line hash raw s) (\<lambda>s'. load_lines hash rest s'))"
  by pat_completeness auto
termination
  by (relation "measure (\<lambda>(hash, input, s). length input)")
    (auto intro!: c_fgets_shorter[of BUFFER_LENGTH] simp: BUFFER_LENGTH_def)

declare load_lines.simps [simp del]

definition load_from_disk ::
  "table_ptr \<Rightarrow> cptr \<Rightarrow> bool \<Rightarrow> string option \<Rightarrow> kvstate \<Rightarrow> (int \<times> kvstate) res" where
  "load_from_disk hash filename readable file s =
     (if hash = Null_table \<or> filename = Null then Inr (- 1, s)
      else case file of
             None \<Rightarrow> Inr (0, s)
           | Some input \<Rightarrow>
               if \<not> readable then Inr (- 1, s)
               else bind_res (load_lines hash input s) (\<lambda>s'. Inr (0, s')))"

section \<open>What is saved\<close>

definition line_of :: "string \<times> string \<Rightarrow> string" where
  "line_of p = fst p @ COLON # snd p @ [NL]"

definition file_of :: "(string \<times> string) list \<Rightarrow> string" where
  "file_of ps = concat (map line_of ps)"

lemma file_of_simps [simp]:
  "file_of [] = []" "file_of (p # ps) = line_of p @ file_of ps"
  "file_of (ps @ qs) = file_of ps @ file_of qs"
  by (simp_all add: file_of_def)

text \<open>All pairs of a table, in the order of the slots.\<close>

definition table_pairs :: "(nat \<Rightarrow> entry list) \<Rightarrow> (string \<times> string) list" where
  "table_pairs E = concat (map (\<lambda>i. kvs (E i)) [0..<MAX_TABLE_SIZE])"

lemma save_bucket_chain:
  assumes "chain h p es" and "length es < fuel"
  shows "save_bucket fuel p h = Inr (file_of (kvs es))"
  using assms
proof (induction es arbitrary: p fuel)
  case Nil
  then show ?case by (cases fuel) auto
next
  case (Cons e es)
  then obtain n where "fuel = Suc n" by (cases fuel) auto
  with Cons show ?case by (auto simp: line_of_def)
qed

lemma save_slots_shape:
  assumes "shape h a f E" and "set is \<subseteq> {..<MAX_TABLE_SIZE}"
  shows "save_slots a is h = Inr (file_of (concat (map (\<lambda>i. kvs (E i)) is)))"
  using assms(2)
proof (induction "is")
  case (Cons i "is")
  then have i: "i < MAX_TABLE_SIZE" by simp
  have "save_bucket (Suc (h_top h)) (f i) h = Inr (file_of (kvs (E i)))"
    using save_bucket_chain[OF shape_chain[OF assms(1) i]] length_le_top[OF assms(1) i]
    by (simp del: save_bucket.simps)
  with Cons i shape_array[OF assms(1)] show ?case by (simp del: save_bucket.simps)
qed simp

lemma save_to_disk_ok:
  assumes "table_rel s E"
  shows "save_to_disk Ref_Hash (Str name) True file s = Inr (0, Some (file_of (table_pairs E)))"
proof -
  obtain f where sh: "shape (hp s) (ht_nodes (Hash s)) f E"
    and ms: "ht_max_slots (Hash s) = int MAX_TABLE_SIZE" using assms by (rule table_relE)
  have "set [0..<MAX_TABLE_SIZE] \<subseteq> {..<MAX_TABLE_SIZE}" by auto
  from save_slots_shape[OF sh this] ms show ?thesis
    by (simp add: save_to_disk_def table_pairs_def)
qed

text \<open>The pairs of a table are its map, each key once.\<close>

lemma map_of_table_pairs:
  assumes "keys_ok E"
  shows "map_of (table_pairs E) = contents E"
proof
  fix k
  have other: "lookup_entry k (E i) = None" if "i < MAX_TABLE_SIZE" "i \<noteq> slot k \<or> \<not> hashable k" for i
    using keys_ok_slot[OF assms that(1)] that(2) by (auto simp: lookup_entry_None)
  show "map_of (table_pairs E) k = contents E k"
  proof (cases "hashable k")
    case True
    then have "map_of (table_pairs E) k = map_of (kvs (E (slot k))) k"
      unfolding table_pairs_def using slot_less other
      by (intro map_of_concat_unique) (auto simp: map_of_kvs)
    with True show ?thesis by (simp add: map_of_kvs contents_def)
  next
    case False
    then have "map_of (table_pairs E) k = None"
      unfolding table_pairs_def using other by (intro map_of_concat_None) (auto simp: map_of_kvs)
    with False show ?thesis by (simp add: contents_def)
  qed
qed

lemma set_table_pairs:
  "set (table_pairs E) = (\<Union>i < MAX_TABLE_SIZE. set (kvs (E i)))"
  by (auto simp: table_pairs_def)

lemma distinct_table_pairs:
  assumes "keys_ok E"
  shows "distinct (map fst (table_pairs E))"
proof -
  have "distinct (map fst (concat (map (\<lambda>i. kvs (E i)) is)))"
    if "distinct is" "set is \<subseteq> {..<MAX_TABLE_SIZE}" for "is"
    using that
  proof (induction "is")
    case (Cons i "is")
    have ki: "map fst (kvs (E i)) = map e_key (E i)" by (induction "E i") (auto simp: kvs_def)
    have "e_key e \<noteq> e_key d" if "e \<in> set (E i)" "d \<in> set (E j)" "j \<in> set is" for d e j
      using keys_ok_slot[OF assms, of i e] keys_ok_slot[OF assms, of j d] that Cons.prems by auto
    then have "set (map fst (kvs (E i))) \<inter> set (map fst (concat (map (\<lambda>i. kvs (E i)) is))) = {}"
      by (auto simp: kvs_def)
    with Cons ki keys_okD(1)[OF assms, of i] show ?case by auto
  qed simp
  then show ?thesis by (simp add: table_pairs_def atLeast0LessThan)
qed

section \<open>The round trip\<close>

text \<open>
  A pair whose line is read back as it was written: no separator in the key, no newline or zero
  byte anywhere, and short enough for one call of \<open>fgets\<close>.
\<close>

definition storable :: "string \<times> string \<Rightarrow> bool" where
  "storable p \<longleftrightarrow>
     COLON \<notin> set (fst p) \<and> NL \<notin> set (fst p) \<and> NL \<notin> set (snd p) \<and>
     NUL \<notin> set (fst p) \<and> NUL \<notin> set (snd p) \<and>
     length (fst p) + length (snd p) + 2 < BUFFER_LENGTH"

lemma c_str_all: "NUL \<notin> set s \<Longrightarrow> c_str s = s"
  by (auto simp: c_str_def takeWhile_eq_all_conv)

lemma load_line_storable:
  assumes "storable p"
  shows "load_line hash (line_of p) s =
    bind_res (put_kv_hashtable hash (Str (fst p)) (Str (snd p)) s) (\<lambda>(result, s'). Inr s')"
proof -
  let ?t = "fst p @ COLON # snd p"
  have "c_str (line_of p) = ?t @ [NL]"
    using assms by (simp add: c_str_all storable_def line_of_def)
  moreover have "takeWhile (\<lambda>c. c \<noteq> NL) (?t @ [NL]) = ?t"
    using assms by (subst takeWhile_append2) (auto simp: storable_def)
  moreover have "c_split_at COLON ?t = Some (fst p, snd p)"
    using assms by (simp add: c_split_at_hit storable_def)
  ultimately show ?thesis by (simp add: load_line_def case_prod_unfold)
qed

lemma load_lines_step:
  assumes "storable p"
  shows "load_lines hash (line_of p @ rest) s =
    bind_res (put_kv_hashtable hash (Str (fst p)) (Str (snd p)) s)
      (\<lambda>(result, s'). load_lines hash rest s')"
proof -
  have "c_fgets BUFFER_LENGTH (line_of p @ rest) = Some (line_of p, rest)"
    using c_fgets_line[of "fst p @ COLON # snd p" BUFFER_LENGTH rest] assms
    by (simp add: storable_def line_of_def)
  then show ?thesis
    by (subst load_lines.simps)
      (simp add: load_line_storable[OF assms] bind_res_assoc case_prod_unfold)
qed

lemma load_lines_file:
  assumes "kv_rel s m" and "plenty s" and "\<forall>p \<in> set ps. storable p \<and> hashable (fst p)"
    and "distinct (map fst ps)" and "\<forall>p \<in> set ps. m (fst p) = None"
  shows "\<exists>s'. load_lines Ref_Hash (file_of ps) s = Inr s' \<and> kv_rel s' (m ++ map_of ps) \<and> plenty s'"
  using assms
proof (induction ps arbitrary: s m)
  case Nil
  then show ?case by (simp add: load_lines.simps[of _ "[]"] c_fgets_def)
next
  case (Cons p ps)
  obtain s1 where s1: "put_kv_hashtable Ref_Hash (Str (fst p)) (Str (snd p)) s = Inr (0, s1)"
    and rel: "kv_rel s1 (m(fst p \<mapsto> snd p))" and pl: "plenty s1"
    using tbl.set_new[OF Cons.prems(1,2), of "fst p" "snd p"] Cons.prems(3,5)
    by (auto simp: kvs_hash_set_def)
  obtain s' where s': "load_lines Ref_Hash (file_of ps) s1 = Inr s'" "plenty s'"
    and rel': "kv_rel s' (m(fst p \<mapsto> snd p) ++ map_of ps)"
  proof -
    have ne: "fst q \<noteq> fst p" if "q \<in> set ps" for q using Cons.prems(4) that by (force simp: image_iff)
    have "\<forall>q \<in> set ps. (m(fst p \<mapsto> snd p)) (fst q) = None" using Cons.prems(5) ne by simp
    moreover have "\<forall>q \<in> set ps. storable q \<and> hashable (fst q)" "distinct (map fst ps)"
      using Cons.prems(3,4) by simp_all
    ultimately show ?thesis using Cons.IH[OF rel pl] that by blast
  qed
  have "fst p \<notin> dom (map_of ps)" using Cons.prems(4) by (simp add: dom_map_of_conv_image_fst)
  then have "m(fst p \<mapsto> snd p) ++ map_of ps = m ++ map_of (p # ps)"
    by (cases p) (auto simp: fun_eq_iff map_add_def split: option.splits)
  with rel' have "kv_rel s' (m ++ map_of (p # ps))" by simp
  moreover have "load_lines Ref_Hash (file_of (p # ps)) s = Inr s'"
    using Cons.prems(3) s1 s' by (simp add: load_lines_step)
  ultimately show ?case using s' by blast
qed

lemma table_pairs_hashable: "keys_ok E \<Longrightarrow> p \<in> set (table_pairs E) \<Longrightarrow> hashable (fst p)"
  using keys_ok_slot by (fastforce simp: set_table_pairs kvs_def)

lemma map_entry_pair: "keys_ok E \<Longrightarrow> p \<in> set (table_pairs E) \<Longrightarrow> contents E (fst p) = Some (snd p)"
  using distinct_table_pairs[of E] map_of_table_pairs[of E, symmetric]
  by (cases p) (simp add: map_of_is_SomeI)

text \<open>A key with a separator in it does not come back: its line is split too early.\<close>

lemma load_line_colon:
  assumes "COLON \<notin> set a" and "NL \<notin> set (a @ b @ v)" and "NUL \<notin> set (a @ b @ v)"
  shows "load_line hash (line_of (a @ COLON # b, v)) s =
    bind_res (put_kv_hashtable hash (Str a) (Str (b @ COLON # v)) s) (\<lambda>(result, s'). Inr s')"
proof -
  let ?t = "a @ COLON # b @ COLON # v"
  have "c_str (line_of (a @ COLON # b, v)) = ?t @ [NL]"
    using assms(3) by (simp add: c_str_all line_of_def)
  moreover have "takeWhile (\<lambda>c. c \<noteq> NL) (?t @ [NL]) = ?t"
    using assms(2) by (subst takeWhile_append2) auto
  moreover have "c_split_at COLON ?t = Some (a, b @ COLON # v)"
    using assms(1) by (simp add: c_split_at_hit)
  ultimately show ?thesis by (simp add: load_line_def)
qed

end
