(* ===== verification/KvSpec.thy ===== *)
theory KvSpec
  imports KvStore
begin

text \<open>
  What the command layer promises, and that it keeps it. A well-formed request is a \<open>kv_command\<close>;
  \<open>command_msg\<close> is its text and \<open>spec_command\<close> its reply and its effect on a map. The interpretation
  \<open>eng\<close> shows that \<open>kvstore_request\<close> implements the specification on any sequence of requests, and
  the last section that a map survives a shutdown and a restart.
\<close>

section \<open>The specification\<close>

datatype kv_command =
    HSet string string
  | HGet string
  | HDel string
  | HMod string string
  | HCount

fun command_words :: "kv_command \<Rightarrow> string list" where
  "command_words (HSet k v) = [''HSET'', k, v]"
| "command_words (HGet k) = [''HGET'', k]"
| "command_words (HDel k) = [''HDEL'', k]"
| "command_words (HMod k v) = [''HMOD'', k, v]"
| "command_words HCount = [''HCOUNT'']"

definition command_msg :: "kv_command \<Rightarrow> string" where
  "command_msg c = join_sp (command_words c)"

fun command_ok :: "kv_command \<Rightarrow> bool" where
  "command_ok (HSet k v) = (word_ok k \<and> word_ok v \<and> hashable k)"
| "command_ok (HGet k) = (word_ok k \<and> hashable k)"
| "command_ok (HDel k) = (word_ok k \<and> hashable k)"
| "command_ok (HMod k v) = (word_ok k \<and> word_ok v \<and> hashable k)"
| "command_ok HCount = True"

type_synonym kv_map = "string \<Rightarrow> string option"

fun spec_command :: "kv_command \<Rightarrow> kv_map \<Rightarrow> string option \<times> kv_map" where
  "spec_command (HSet k v) m =
     (if m k = None then (Some ''SUCCESS'', m(k \<mapsto> v)) else (Some ''EXISTS'', m))"
| "spec_command (HGet k) m =
     (case m k of None \<Rightarrow> (Some ''NO EXIST'', m) | Some v \<Rightarrow> (Some (take 511 v), m))"
| "spec_command (HDel k) m =
     (if m k = None then (Some ''ERROR'', m) else (Some ''SUCCESS'', m(k := None)))"
| "spec_command (HMod k v) m =
     (if m k = None then (Some ''ERROR'', m) else (Some ''SUCCESS'', m(k \<mapsto> v)))"
| "spec_command HCount m = (Some (take 511 (show_nat (card (dom m)))), m)"

text \<open>A request as a client sends it: the reply buffer is provided, only the reply is kept.\<close>

definition serve_command ::
  "(nat \<Rightarrow> cptr) \<Rightarrow> kv_command \<Rightarrow> kvstate \<Rightarrow> (string option \<times> kvstate) res" where
  "serve_command stk c s =
     bind_res (kvstore_request (Str (command_msg c)) (Some []) stk s)
       (\<lambda>(r, wmsg, m', s'). Inr (wmsg, s'))"

section \<open>Splitting\<close>

definition with_words :: "string list \<Rightarrow> (nat \<Rightarrow> cptr) \<Rightarrow> nat \<Rightarrow> cptr" where
  "with_words ws stk = (\<lambda>i. if i < length ws then Str (ws ! i) else stk i)"

lemma split_loop_words:
  assumes "idx + length (c_words unread) \<le> KVSTORE_MAX_TOKENS"
  shows "\<exists>m'. split_loop idx seen unread tokens =
      Inr (idx + length (c_words unread),
           (\<lambda>i. if idx \<le> i \<and> i < idx + length (c_words unread)
                then Str (c_words unread ! (i - idx)) else tokens i), m') \<and>
    length m' = length seen + length unread"
  using assms
proof (induction unread arbitrary: idx seen tokens rule: c_words.induct)
  case (1 s)
  show ?case
  proof (cases "c_strtok s")
    case None
    then have ws: "c_words s = []" by (simp add: c_words.simps[of s])
    show ?thesis by (intro exI[of _ "seen @ s"]) (auto simp: split_loop.simps[of idx] ws None fun_eq_iff)
  next
    case (Some r)
    obtain pre tok rest where r: "r = (pre, tok, rest)" by (cases r)
    have ws: "c_words s = tok # c_words rest" using Some r by (simp add: c_words.simps[of s])
    have idx: "idx < KVSTORE_MAX_TOKENS" "Suc idx + length (c_words rest) \<le> KVSTORE_MAX_TOKENS"
      using "1.prems" ws by simp_all
    from "1.IH"[OF Some r[symmetric] refl idx(2)] obtain m' where
      m': "split_loop (Suc idx) (seen @ pre) rest (tokens(idx := Str tok)) =
        Inr (Suc idx + length (c_words rest),
          (\<lambda>i. if Suc idx \<le> i \<and> i < Suc idx + length (c_words rest)
               then Str (c_words rest ! (i - Suc idx)) else (tokens(idx := Str tok)) i), m')"
      "length m' = length (seen @ pre) + length rest" by blast
    have "length s = length pre + length rest"
      using Some r by (rule_tac c_strtok_length) simp
    moreover have "(\<lambda>i. if Suc idx \<le> i \<and> i < Suc idx + length (c_words rest)
               then Str (c_words rest ! (i - Suc idx)) else (tokens(idx := Str tok)) i) =
      (\<lambda>i. if idx \<le> i \<and> i < idx + length (c_words s)
               then Str (c_words s ! (i - idx)) else tokens i)"
      using ws by (auto simp: fun_eq_iff nth_Cons split: nat.splits) (metis Suc_diff_Suc Suc_le_eq nat.inject)+
    ultimately show ?thesis
      using m' Some r idx ws by (simp add: split_loop.simps[of idx seen s])
  qed
qed

lemma split_loop_overflow:
  assumes "KVSTORE_MAX_TOKENS < idx + length (c_words unread)" and "idx \<le> KVSTORE_MAX_TOKENS"
  shows "split_loop idx seen unread tokens = Inl Overflow_write"
  using assms
proof (induction unread arbitrary: idx seen tokens rule: c_words.induct)
  case (1 s)
  show ?case
  proof (cases "c_strtok s")
    case None
    with "1.prems" show ?thesis by (simp add: c_words.simps[of s])
  next
    case (Some r)
    obtain pre tok rest where r: "r = (pre, tok, rest)" by (cases r)
    have ws: "c_words s = tok # c_words rest" using Some r by (simp add: c_words.simps[of s])
    show ?thesis
    proof (cases "idx < KVSTORE_MAX_TOKENS")
      case True
      with "1.prems" ws "1.IH"[OF Some r[symmetric] refl, of "Suc idx"] Some r show ?thesis
        by (simp add: split_loop.simps[of idx seen s])
    next
      case False
      with Some r show ?thesis by (simp add: split_loop.simps[of idx seen s])
    qed
  qed
qed

lemma split_token_words:
  assumes "length (c_words msg) \<le> KVSTORE_MAX_TOKENS"
  shows "\<exists>m'. kvstore_split_token (Str msg) stk =
      Inr (int (length (c_words msg)), with_words (c_words msg) stk, m') \<and> length m' = length msg"
proof -
  let ?n = "length (c_words msg)"
  have "(\<lambda>i. if 0 \<le> i \<and> i < 0 + ?n then Str (c_words msg ! (i - 0)) else stk i) =
      with_words (c_words msg) stk" by (simp add: with_words_def fun_eq_iff)
  with split_loop_words[of 0 msg "[]" stk] assms show ?thesis
    by (auto simp: kvstore_split_token_def)
qed

section \<open>One request\<close>

lemma length_commands: "length commands = KVS_CMD_SIZE"
  by (simp add: commands_def cmd_defs)

lemma find_cmd_known [simp]:
  "find_cmd commands ''HSET'' = KVS_CMD_HSET" "find_cmd commands ''HGET'' = KVS_CMD_HGET"
  "find_cmd commands ''HDEL'' = KVS_CMD_HDEL" "find_cmd commands ''HMOD'' = KVS_CMD_HMOD"
  "find_cmd commands ''HCOUNT'' = KVS_CMD_HCOUNT"
  by (simp_all add: commands_def cmd_defs)

lemma find_cmd_none: "name \<notin> set cs \<Longrightarrow> find_cmd cs name = length cs"
  by (induction cs) auto

lemma find_cmd_less: "name \<in> set cs \<Longrightarrow> find_cmd cs name < length cs"
  by (induction cs) auto

lemma BUFFER_snprintf: "c_snprintf BUFFER_LENGTH s = take 511 s"
  by (simp add: c_snprintf_def BUFFER_LENGTH_def)

lemma write_reply_simps [simp]:
  "r < 0 \<Longrightarrow> write_reply r p = ''ERROR''" "write_reply 0 p = ''SUCCESS''"
  "0 < r \<Longrightarrow> write_reply r p = take 511 p"
  by (simp_all add: write_reply_def BUFFER_snprintf)

text \<open>A request whose words are known, whatever the stack held.\<close>

lemma request_words:
  assumes "c_words msg = ws" and "length ws \<le> KVSTORE_MAX_TOKENS"
  shows "\<exists>m'. kvstore_request (Str msg) wmsg stk s =
    bind_res (kvstore_parser_protocol wmsg (with_words ws stk) (int (length ws)) s)
      (\<lambda>(w, s'). Inr (0, w, m', s')) \<and> length m' = length msg"
  using split_token_words[of msg stk] assms by (auto simp: kvstore_request_def)

lemma serve_command_protocol:
  assumes "command_ok c"
  shows "serve_command stk c s =
    bind_res (kvstore_parser_protocol (Some []) (with_words (command_words c) stk)
      (int (length (command_words c))) s) Inr"
proof -
  have "\<forall>w \<in> set (command_words c). word_ok w"
    using assms by (cases c) (auto simp: word_ok_def)
  then have ws: "c_words (command_msg c) = command_words c"
    unfolding command_msg_def by (rule c_words_join)
  have "length (command_words c) \<le> KVSTORE_MAX_TOKENS"
    by (cases c) (simp_all add: KVSTORE_MAX_TOKENS_def)
  from request_words[OF ws this, of "Some []" stk s] show ?thesis
    by (auto simp: serve_command_def bind_res_assoc case_prod_unfold)
qed

lemma hash_value_get:
  "hash_value k s = Inr None \<Longrightarrow> \<exists>p. kvstore_hash_get (Str k) s = Inr p \<and> p = 0"
  "hash_value k s = Inr (Some v) \<Longrightarrow>
     \<exists>p. kvstore_hash_get (Str k) s = Inr p \<and> p \<noteq> 0 \<and> rd_str p (hp s) = Inr v"
  by (auto simp: hash_value_def kvstore_hash_get_def bind_res_eq_Inr split: if_splits)

lemma serve_command_refines:
  assumes rel: "kv_rel s m" and pl: "plenty s" and ok: "command_ok c"
  shows "\<exists>s'. serve_command stk c s = Inr (fst (spec_command c m), s') \<and>
    kv_rel s' (snd (spec_command c m)) \<and> plenty s'"
proof (cases c)
  case (HSet k v)
  with ok tbl.set_new[OF rel pl, of k v] tbl.set_exists[OF rel, of k v] rel pl show ?thesis
    by (cases "m k = None")
      (auto simp: serve_command_protocol kvstore_parser_protocol_def with_words_def
        kvstore_hash_set_def Let_def)
next
  case (HGet k)
  have "hash_value k s = Inr (m k)" using ok HGet by (intro tbl.get_law[OF rel]) simp
  with HGet ok rel pl hash_value_get[of k s] show ?thesis
    by (cases "m k")
      (auto simp: serve_command_protocol kvstore_parser_protocol_def with_words_def
        BUFFER_snprintf Let_def cmd_defs)
next
  case (HDel k)
  with ok tbl.del_present[OF rel pl, of k] tbl.del_absent[OF rel, of k] rel pl show ?thesis
    by (cases "m k = None")
      (auto simp: serve_command_protocol kvstore_parser_protocol_def with_words_def
        kvstore_hash_delete_def Let_def cmd_defs)
next
  case (HMod k v)
  with ok tbl.mod_present[OF rel pl, of k v] tbl.mod_absent[OF rel, of k v] rel pl show ?thesis
    by (cases "m k = None")
      (auto simp: serve_command_protocol kvstore_parser_protocol_def with_words_def
        kvstore_hash_modify_def Let_def cmd_defs)
next
  case HCount
  with rel pl tbl.count_law[OF rel] show ?thesis
    by (auto simp: serve_command_protocol kvstore_parser_protocol_def with_words_def
        kvstore_hash_count_def show_int_def BUFFER_snprintf Let_def cmd_defs)
qed

interpretation eng: simulation "serve_command stk" spec_command
  "\<lambda>s m. kv_rel s m \<and> plenty s" command_ok for stk
  by unfold_locales (use serve_command_refines in blast)

section \<open>Requests outside the specification\<close>

text \<open>The same with any reply buffer, and with the bytes of the message afterwards.\<close>

lemma command_words_ok: "command_ok c \<Longrightarrow> \<forall>w \<in> set (command_words c). word_ok w"
  by (cases c) (auto simp: word_ok_def)

lemma command_msg_words: "command_ok c \<Longrightarrow> c_words (command_msg c) = command_words c"
  unfolding command_msg_def by (rule c_words_join) (rule command_words_ok)

lemma request_command:
  assumes rel: "kv_rel s m" and pl: "plenty s" and ok: "command_ok c"
  shows "\<exists>cut s'. kvstore_request (Str (command_msg c)) (Some w) stk s = Inr (0, fst (spec_command c m), cut, s') \<and>
    length cut = length (command_msg c) \<and> kv_rel s' (snd (spec_command c m)) \<and> plenty s'"
proof -
  let ?t = "with_words (command_words c) stk" and ?n = "int (length (command_words c))"
  have "length (command_words c) \<le> KVSTORE_MAX_TOKENS" by (cases c) (simp_all add: KVSTORE_MAX_TOKENS_def)
  from request_words[OF command_msg_words[OF ok] this, of "Some w" stk s] obtain cut
    where cut: "kvstore_request (Str (command_msg c)) (Some w) stk s =
      bind_res (kvstore_parser_protocol (Some w) ?t ?n s) (\<lambda>(w, s'). Inr (0, w, cut, s'))"
      "length cut = length (command_msg c)" by blast
  have "?t 0 \<noteq> Null" "?n \<noteq> 0" by (cases c; simp add: with_words_def)+
  then have "kvstore_parser_protocol (Some w) ?t ?n s = kvstore_parser_protocol (Some []) ?t ?n s"
    by (simp add: kvstore_parser_protocol_def)
  with cut(1) serve_command_protocol[OF ok, of stk s] serve_command_refines[OF rel pl ok, of stk]
  show ?thesis using cut(2) by (auto simp: bind_res_eq_Inr)
qed

lemma spec_reply_length: "\<exists>r. fst (spec_command c m) = Some r \<and> length r < BUFFER_LENGTH"
  by (cases c) (auto simp: BUFFER_LENGTH_def split: option.splits)

lemma with_words_nth: "i < length ws \<Longrightarrow> with_words ws stk i = Str (ws ! i)"
  by (simp add: with_words_def)

lemma with_words_beyond: "length ws \<le> i \<Longrightarrow> with_words ws stk i = stk i"
  by (simp add: with_words_def)

text \<open>A message without a word is answered by leaving the reply buffer alone.\<close>

lemma protocol_no_words:
  assumes "stk 0 = Null \<or> wmsg = None \<or> count = 0"
  shows "kvstore_parser_protocol wmsg stk count s = Inr (wmsg, s)"
  using assms by (auto simp: kvstore_parser_protocol_def)

lemma protocol_unknown:
  assumes "name \<notin> set commands" and "tokens 0 = Str name" and "count \<noteq> 0"
  shows "kvstore_parser_protocol (Some w) tokens count s = Inl Out_of_bounds"
  using assms find_cmd_none[OF assms(1)] length_commands
  by (simp add: kvstore_parser_protocol_def Let_def cmd_defs)

lemma protocol_legacy:
  assumes "name \<in> set (take 10 commands)" and "tokens 0 = Str name" and "count \<noteq> 0"
  shows "kvstore_parser_protocol (Some w) tokens count s = Inr (Some ''ERROR'', s)"
proof -
  have "find_cmd commands name < 10" using assms(1) by (auto simp: commands_def)
  with assms(2,3) show ?thesis
    by (simp add: kvstore_parser_protocol_def Let_def cmd_defs BUFFER_snprintf)
qed

text \<open>\<open>HSET\<close> with the value missing takes whatever slot 2 of the array held.\<close>

lemma protocol_hset_short:
  assumes "tokens 0 = Str ''HSET''" and "tokens 1 = Str k" and "count \<noteq> 0"
  shows "kvstore_parser_protocol (Some w) tokens count s =
    bind_res (kvs_hash_set Ref_Hash (Str k) (tokens 2) s)
      (\<lambda>(r, s'). Inr (Some (write_reply r ''EXISTS''), s'))"
  using assms by (simp add: kvstore_parser_protocol_def Let_def kvstore_hash_set_def)

lemma hash_set_null: "kvs_hash_set Ref_Hash (Str k) Null s = Inr (- 1, s)"
  by (simp add: kvs_hash_set_def put_kv_hashtable_def)

text \<open>A value that is not a readable string: the copy in \<open>create_node\<close> faults.\<close>

lemma create_node_wild:
  assumes "allocs_ok 2 h"
  shows "create_node (Str k) Wild h = Inl Bad_pointer"
  using allocs_okD[OF assms, of 1] allocs_okD[OF assms, of 2]
  by (simp add: create_node_def kvstore_malloc_def Let_def c_strcpy_def eval_nat_numeral)

lemma hash_set_wild:
  assumes "kv_rel s m" and "hashable k" and "m k = None" and "allocs_ok 2 (hp s)"
  shows "kvs_hash_set Ref_Hash (Str k) Wild s = Inl Bad_pointer"
proof -
  obtain E where E: "table_rel s E" "m = contents E" using assms(1) by (auto simp: kv_rel_def)
  obtain f where sh: "shape (hp s) (ht_nodes (Hash s)) f E" using E(1) by (rule table_relE)
  have "lookup_entry k (E (slot k)) = None" using assms(2,3) E(2) by (simp add: contents_None_iff)
  then show ?thesis
    by (simp add: kvs_hash_set_def put_kv_hashtable_def rd_slot_shape[OF sh assms(2)]
        find_node_shape[OF sh assms(2)] create_node_wild[OF assms(4)])
qed

text \<open>A key whose hash is negative indexes the bucket array below its start.\<close>

lemma negative_index:
  assumes "kv_rel s m" and "\<not> hashable k"
  shows "get_kv_hashtable Ref_Hash (Str k) s = Inl Out_of_bounds"
    and "value \<noteq> Null \<Longrightarrow> put_kv_hashtable Ref_Hash (Str k) value s = Inl Out_of_bounds"
    and "delete_kv_hashtable Ref_Hash (Str k) s = Inl Out_of_bounds"
    and "value \<noteq> Null \<Longrightarrow> kvs_hash_modify Ref_Hash (Str k) value s = Inl Out_of_bounds"
proof -
  obtain E where E: "table_rel s E" using assms(1) by (auto simp: kv_rel_def)
  obtain f where "shape (hp s) (ht_nodes (Hash s)) f E" using E by (rule table_relE)
  from shape_array[OF this] assms(2)
  have rd: "rd_slot (ht_nodes (Hash s)) (hash_index k) (hp s) = Inl Out_of_bounds"
    by (simp add: rd_slot_def hashable_def)
  show "get_kv_hashtable Ref_Hash (Str k) s = Inl Out_of_bounds"
    "delete_kv_hashtable Ref_Hash (Str k) s = Inl Out_of_bounds"
    by (simp_all add: get_kv_hashtable_def delete_kv_hashtable_def rd)
  show "put_kv_hashtable Ref_Hash (Str k) value s = Inl Out_of_bounds" if "value \<noteq> Null"
    using that by (simp add: put_kv_hashtable_def rd)
  show "kvs_hash_modify Ref_Hash (Str k) value s = Inl Out_of_bounds" if "value \<noteq> Null"
    using that by (simp add: kvs_hash_modify_def rd)
qed

section \<open>Shutdown and restart\<close>

lemma boot_plenty: "plenty (snd (kvstore_hash_create Ref_Hash (boot_state (\<lambda>_. False) junk)))"
  by (simp add: kvstore_hash_create_def init_ok plenty_def)

lemma boot_rel:
  assumes "zeroed junk"
  shows "kv_rel (snd (kvstore_hash_create Ref_Hash (boot_state (\<lambda>_. False) junk))) Map.empty"
  using assms unfolding kvstore_hash_create_def by (intro init_zeroed_rel) auto

lemma exit_saves:
  assumes "table_rel s E"
  shows "\<exists>s'. exit_kvengine True file s = Inr (Some (file_of (table_pairs E)), s')"
  using save_to_disk_ok[OF assms] dest_hashtable_ok[OF assms]
  by (auto simp: exit_kvengine_def kvstore_hash_destory_def)

lemma init_loads:
  assumes "zeroed junk"
    and "\<forall>p \<in> set ps. storable p \<and> hashable (fst p)" and "distinct (map fst ps)"
  shows "\<exists>s'. init_kvengine True (Some (file_of ps)) (boot_state (\<lambda>_. False) junk) = Inr s' \<and>
    kv_rel s' (map_of ps) \<and> plenty s'"
proof -
  let ?s = "snd (kvstore_hash_create Ref_Hash (boot_state (\<lambda>_. False) junk))"
  from load_lines_file[OF boot_rel[OF assms(1)] boot_plenty assms(2,3)] obtain s'
    where "load_lines Ref_Hash (file_of ps) ?s = Inr s'" "kv_rel s' (map_of ps)" "plenty s'" by auto
  then show ?thesis
    by (auto simp: init_kvengine_def load_from_disk_def case_prod_unfold Let_def)
qed

lemma restart:
  assumes rel: "kv_rel s m" and st: "\<And>k v. m k = Some v \<Longrightarrow> storable (k, v)"
    and junk: "zeroed junk"
  shows "\<exists>file' s1 s2. exit_kvengine True file s = Inr (Some file', s1) \<and>
    init_kvengine True (Some file') (boot_state (\<lambda>_. False) junk) = Inr s2 \<and> kv_rel s2 m \<and> plenty s2"
proof -
  obtain E where E: "table_rel s E" "m = contents E" using rel by (auto simp: kv_rel_def)
  note keys = table_rel_keys[OF E(1)]
  have ok: "\<forall>p \<in> set (table_pairs E). storable p \<and> hashable (fst p)"
    using map_entry_pair[OF keys] st E(2) table_pairs_hashable[OF keys] by fastforce
  obtain s1 where s1: "exit_kvengine True file s = Inr (Some (file_of (table_pairs E)), s1)"
    using exit_saves[OF E(1)] by blast
  obtain s2 where "init_kvengine True (Some (file_of (table_pairs E))) (boot_state (\<lambda>_. False) junk) = Inr s2"
    "kv_rel s2 (map_of (table_pairs E))" "plenty s2"
    using init_loads[OF junk ok distinct_table_pairs[OF keys]] by blast
  with s1 E(2) map_of_table_pairs[OF keys] show ?thesis by metis
qed

end
