(* ===== verification/HttpTask.thy ===== *)
theory HttpTask
  imports ConnInfo KvSpec
begin

text \<open>
  The request handlers of \<open>task_and_router/http_task.h\<close> and the responses they send. A handler gets
  the connection and, for the key-value route, the engine; what it sends is its output. The order in
  which an \<open>unordered_map\<close> lists the headers is an argument, a function on header lists. The lemmas
  connect the handler of the key-value route with \<open>kvstore_request\<close> and its specification.
\<close>

section \<open>Responses\<close>

type_synonym header_list = "(string \<times> string) list"

record HttpResponse =
  response_line :: string
  headers :: header_list
  body :: string

text \<open>The constructor sets two headers.\<close>

definition HttpResponse_new :: HttpResponse where
  "HttpResponse_new =
     \<lparr>response_line = [],
      headers = [(''Content-Type'', ''text/html; charset=utf-8''), (''Connection'', ''keep-alive'')],
      body = []\<rparr>"

definition header_text :: "string \<times> string \<Rightarrow> string" where
  "header_text h = fst h @ '': '' @ snd h @ CRLF"

text \<open>
  The text handed to \<open>send\<close>, with the descriptor; the result of \<open>send\<close> is only reported. When the peer has
  closed its end, \<open>send\<close> also raises SIGPIPE, since the call does not forbid it; that signal is one
  of those the server may be delivered at any time (\<open>deliver\<close> in \<open>WebServer\<close>), and ends the process.
\<close>

definition send_simple_response ::
  "(header_list \<Rightarrow> header_list) \<Rightarrow> int \<Rightarrow> HttpResponse \<Rightarrow> int \<times> string" where
  "send_simple_response order fd response =
     (fd, response_line response @ concat (map header_text (order (headers response))) @ CRLF @ CRLF2 @
          body response @ CRLF)"

definition build_response :: "string \<Rightarrow> string \<Rightarrow> HttpResponse" where
  "build_response line text = HttpResponse_new\<lparr>response_line := line, body := text\<rparr>"

definition build_full_response :: "HttpResponse \<Rightarrow> string" where
  "build_full_response response = response_line response @ CRLF @ CRLF2 @ body response @ CRLF"

definition http_build_response_line :: "int \<Rightarrow> string \<Rightarrow> string" where
  "http_build_response_line status_code reason_phrase =
     ''HTTP/1.1 '' @ show_int status_code @ SP # reason_phrase @ CRLF"

definition http_build_headers :: "header_list \<Rightarrow> string \<Rightarrow> string \<Rightarrow> header_list" where
  "http_build_headers hs header headers_str =
     (if header \<in> fst ` set hs then map (\<lambda>(k, v). if k = header then (k, headers_str) else (k, v)) hs
      else hs @ [(header, headers_str)])"

section \<open>Handlers\<close>

datatype handler = Http_task_get1 | Http_task_get2

type_synonym task_result = "((int \<times> string) list \<times> ConnectionInfo \<times> kvstate) res"

definition http_task_get1 ::
  "(header_list \<Rightarrow> header_list) \<Rightarrow> ConnectionInfo \<Rightarrow> kvstate \<Rightarrow> task_result" where
  "http_task_get1 order c kv =
     Inr ([send_simple_response order (ci_fd c)
             (HttpResponse_new\<lparr>response_line := ''HTTP/1.1 200 OK'', body := ''<h1>Hello, World!</h1>''\<rparr>)], c, kv)"

text \<open>
  The C string at an offset of an array: the characters up to the next zero; without a zero the scan
  leaves the array.
\<close>

definition c_str_at :: "char list \<Rightarrow> nat \<Rightarrow> string res" where
  "c_str_at bytes p =
     (if NUL \<in> set (drop p bytes) then Inr (c_str (drop p bytes)) else Inl Out_of_bounds)"

text \<open>Storing bytes at an offset of an array.\<close>

definition store_at :: "char list \<Rightarrow> nat \<Rightarrow> char list \<Rightarrow> char list res" where
  "store_at bytes p new =
     (if p + length new \<le> length bytes
      then Inr (take p bytes @ new @ drop (p + length new) bytes) else Inl Out_of_bounds)"

text \<open>
  The reply buffer after \<open>kvstore_request\<close>: cleared and filled with the reply, except when the
  message has no word, in which case the call returns before it touches the buffer.
\<close>

definition reply_bytes :: "string \<Rightarrow> char list" where
  "reply_bytes reply = reply @ replicate (BUFFER_LENGTH - length reply) NUL"

text \<open>
  \<open>http_task_get2\<close>. The message is the C string at the request's data pointer; \<open>strtok\<close> cuts it up
  in place; the reply goes to the write buffer, at its tail. \<open>stk\<close> is the token array of
  \<open>kvstore_request\<close> before it is written.
\<close>

definition http_task_get2 ::
  "(header_list \<Rightarrow> header_list) \<Rightarrow> (nat \<Rightarrow> cptr) \<Rightarrow> ConnectionInfo \<Rightarrow> kvstate \<Rightarrow> task_result" where
  "http_task_get2 order stk c kv =
     (let rb = get_buffer (ci_read_buffer c); wb = get_buffer (ci_write_buffer c);
          w = nat (get_tail (ci_write_buffer c))
      in bind_res (c_str_at wb w) (\<lambda>wmsg.
           case ci_request c of
             None \<Rightarrow> Inl Bad_pointer
           | Some request \<Rightarrow>
               (case rq_data request of
                  None \<Rightarrow> Inl Bad_pointer
                | Some d \<Rightarrow>
                    bind_res (c_str_at rb d) (\<lambda>rmsg_data.
                      bind_res (kvstore_request (Str rmsg_data) (Some wmsg) stk kv) (\<lambda>(r, reply, cut, kv').
                        bind_res (store_at rb d cut) (\<lambda>rb'.
                          bind_res
                            (if c_words rmsg_data = [] then Inr wb
                             else store_at wb w (reply_bytes (the reply))) (\<lambda>wb'.
                              Inr ([send_simple_response order (ci_fd c)
                                      (HttpResponse_new\<lparr>response_line := ''HTTP/1.1 200 OK'',
                                         body := ''<h1>set success</h1>''\<rparr>)],
                                   c\<lparr>ci_read_buffer := (ci_read_buffer c)\<lparr>rb_buffer := rb'\<rparr>,
                                     ci_write_buffer := (ci_write_buffer c)\<lparr>rb_buffer := wb'\<rparr>\<rparr>, kv'))))))))"

fun run_handler ::
  "(header_list \<Rightarrow> header_list) \<Rightarrow> (nat \<Rightarrow> cptr) \<Rightarrow> handler \<Rightarrow> ConnectionInfo \<Rightarrow> kvstate \<Rightarrow> task_result" where
  "run_handler order stk Http_task_get1 c kv = http_task_get1 order c kv"
| "run_handler order stk Http_task_get2 c kv = http_task_get2 order stk c kv"

text \<open>The registrations that run before \<open>main\<close>.\<close>

definition registered_routes :: "(router, handler) std_map" where
  "registered_routes =
     REGISTER_HTTP_TASK ''POST/usr/kvstore'' Http_task_get2 (REGISTER_HTTP_TASK ''GET/usr/zhang'' Http_task_get1 [])"

lemma handler_of: "get_handler key registered_routes =
  (if key = ''POST/usr/kvstore'' then Some Http_task_get2
   else if key = ''GET/usr/zhang'' then Some Http_task_get1 else None)"
  using router_map.find_assigns[of "[]" "Router key"
      "[(Router ''GET/usr/zhang'', Http_task_get1), (Router ''POST/usr/kvstore'', Http_task_get2)]"]
  unfolding get_handler_def registered_routes_def REGISTER_HTTP_TASK_def register_router_def by simp

section \<open>The handler of the key-value route\<close>

text \<open>A connection whose write buffer is as the server leaves it: nothing is ever queued in it.\<close>

definition write_idle :: "ConnectionInfo \<Rightarrow> bool" where
  "write_idle c = (let b = ci_write_buffer c in
     rb_ok b \<and> rb_head b = 0 \<and> rb_tail b = 0 \<and> NUL \<in> set (rb_buffer b))"

lemma write_idle_new: "write_idle ConnectionInfo_new"
  unfolding write_idle_def ConnectionInfo_new_def Let_def
  by (simp add: rb_ok_new RING_BUFFER_SIZE_def) (simp add: ring_buffer_new_def)

lemma store_at_ok: "p + length new \<le> length bytes \<Longrightarrow>
    store_at bytes p new = Inr (take p bytes @ new @ drop (p + length new) bytes)"
  by (simp add: store_at_def)

lemma length_reply_bytes: "length reply < BUFFER_LENGTH \<Longrightarrow> length (reply_bytes reply) = BUFFER_LENGTH"
  by (simp add: reply_bytes_def)

lemma c_str_at_length: "c_str_at bytes p = Inr s \<Longrightarrow> p + length s \<le> length bytes"
  using length_c_str[of "drop p bytes"]
  by (cases "p \<le> length bytes") (auto simp: c_str_at_def c_str_def split: if_splits)

text \<open>The fixed answer of the key-value route.\<close>

definition set_success :: HttpResponse where
  "set_success = HttpResponse_new\<lparr>response_line := ''HTTP/1.1 200 OK'', body := ''<h1>set success</h1>''\<rparr>"

text \<open>
  A well-formed command in the body: the handler runs it on the engine as the specification says,
  stores the reply in the write buffer, and sends the fixed response.
\<close>

lemma task_get2_command:
  assumes kv: "kv_rel kv m" "plenty kv" "command_ok cmd"
    and req: "ci_request c = Some r" "rq_data r = Some d"
    and msg: "c_str_at (get_buffer (ci_read_buffer c)) d = Inr (command_msg cmd)"
    and idle: "write_idle c" and rb: "rb_ok (ci_read_buffer c)"
  shows "\<exists>c' kv'. http_task_get2 order stk c kv = Inr ([send_simple_response order (ci_fd c) set_success], c', kv') \<and>
    kv_rel kv' (snd (spec_command cmd m)) \<and> plenty kv' \<and> ci_fd c' = ci_fd c \<and> ci_request c' = ci_request c \<and>
    rb_ok (ci_read_buffer c') \<and> rb_head (ci_read_buffer c') = rb_head (ci_read_buffer c) \<and>
    rb_tail (ci_read_buffer c') = rb_tail (ci_read_buffer c) \<and> write_idle c' \<and>
    ci_last_active_time c' = ci_last_active_time c \<and>
    drop (d + length (command_msg cmd)) (get_buffer (ci_read_buffer c')) =
      drop (d + length (command_msg cmd)) (get_buffer (ci_read_buffer c)) \<and>
    take BUFFER_LENGTH (get_buffer (ci_write_buffer c')) = reply_bytes (the (fst (spec_command cmd m)))"
proof -
  let ?rb = "get_buffer (ci_read_buffer c)" and ?wb = "get_buffer (ci_write_buffer c)"
  have w: "get_tail (ci_write_buffer c) = 0" "length ?wb = 1024" "NUL \<in> set ?wb" "rb_ok (ci_write_buffer c)"
    "rb_head (ci_write_buffer c) = 0" "rb_tail (ci_write_buffer c) = 0"
    using idle by (simp_all add: write_idle_def Let_def rb_ok_def get_tail_def get_buffer_def RING_BUFFER_SIZE_def)
  have wmsg: "c_str_at ?wb 0 = Inr (c_str ?wb)" using w(3) by (simp add: c_str_at_def)
  obtain cut kv' where run: "kvstore_request (Str (command_msg cmd)) (Some (c_str ?wb)) stk kv =
      Inr (0, fst (spec_command cmd m), cut, kv')" "length cut = length (command_msg cmd)"
    "kv_rel kv' (snd (spec_command cmd m))" "plenty kv'" using request_command[OF kv] by blast
  obtain reply where reply: "fst (spec_command cmd m) = Some reply" "length reply < BUFFER_LENGTH"
    using spec_reply_length by blast
  have words: "c_words (command_msg cmd) \<noteq> []" using command_msg_words[OF kv(3)] by (cases cmd) auto
  have cut: "store_at ?rb d cut = Inr (take d ?rb @ cut @ drop (d + length cut) ?rb)"
    using c_str_at_length[OF msg] run(2) by (intro store_at_ok) simp
  have "length (reply_bytes reply) \<le> length ?wb" using length_reply_bytes[OF reply(2)] w(2) by (simp add: BUFFER_LENGTH_def)
  then have new: "store_at ?wb 0 (reply_bytes reply) = Inr (reply_bytes reply @ drop BUFFER_LENGTH ?wb)"
    using store_at_ok[of 0 "reply_bytes reply" ?wb] length_reply_bytes[OF reply(2)] by simp
  let ?c' = "c\<lparr>ci_read_buffer := (ci_read_buffer c)\<lparr>rb_buffer := take d ?rb @ cut @ drop (d + length cut) ?rb\<rparr>,
      ci_write_buffer := (ci_write_buffer c)\<lparr>rb_buffer := reply_bytes reply @ drop BUFFER_LENGTH ?wb\<rparr>\<rparr>"
  have out: "http_task_get2 order stk c kv = Inr ([send_simple_response order (ci_fd c) set_success], ?c', kv')"
    unfolding http_task_get2_def Let_def w(1) nat_zero_as_int[symmetric]
    by (simp add: wmsg req msg run(1) cut words reply(1) new set_success_def)
  have "length (take d ?rb @ cut @ drop (d + length cut) ?rb) = length ?rb"
    using c_str_at_length[OF msg] run(2) by simp
  then have "rb_ok (ci_read_buffer ?c')" using rb by (simp add: rb_ok_def get_buffer_def)
  moreover have "drop (d + length (command_msg cmd)) (get_buffer (ci_read_buffer ?c')) = drop (d + length (command_msg cmd)) ?rb"
    using c_str_at_length[OF msg] run(2) by (simp add: get_buffer_def)
  moreover have "NUL \<in> set (reply_bytes reply)" using reply(2) by (simp add: reply_bytes_def)
  then have "write_idle ?c'"
    using w length_reply_bytes[OF reply(2)]
    by (simp add: write_idle_def Let_def rb_ok_def BUFFER_LENGTH_def RING_BUFFER_SIZE_def)
  moreover have "take BUFFER_LENGTH (get_buffer (ci_write_buffer ?c')) = reply_bytes reply"
    using length_reply_bytes[OF reply(2)] by (simp add: get_buffer_def)
  ultimately show ?thesis using out run(3,4) reply(1) by (intro exI[of _ ?c'] exI[of _ kv']) simp
qed

section \<open>Properties\<close>

text \<open>The text of a response is no well-formed HTTP response, whatever the order of the headers: the
  status line runs into the first header without a line break, and a client that ends the head at the
  first empty line takes two more line breaks for the start of the body.\<close>

theorem response_malformed:
  assumes "order (headers HttpResponse_new) \<in> {headers HttpResponse_new, rev (headers HttpResponse_new)}"
    and "response = build_response line text" and "CR \<notin> set line"
  shows "\<exists>h rest e. snd (send_simple_response order fd response) = line @ header_text h @ rest \<and>
      h \<in> set (headers HttpResponse_new) \<and>
      find_sub CRLF2 (snd (send_simple_response order fd response)) = Some e \<and>
      drop (e + 4) (snd (send_simple_response order fd response)) = CRLF2 @ text @ CRLF"
proof -
  have "headers response = headers HttpResponse_new" using assms(2) by (simp add: build_response_def)
  with assms(1) obtain h1 h2 where hs: "order (headers response) = [h1, h2]"
    "{h1, h2} = set (headers HttpResponse_new)"
    by (auto simp: HttpResponse_new_def)
  let ?l = "\<lambda>h. fst h @ '': '' @ snd h" and ?t = "snd (send_simple_response order fd response)"
  let ?ls = "[line @ ?l h1, ?l h2]"
  have CR: "CR \<notin> set (?l h) \<and> ?l h \<noteq> []" if "h \<in> {h1, h2}" for h
    using that unfolding hs(2) by (auto simp: HttpResponse_new_def)
  have ok: "\<forall>l \<in> set ?ls. line_ok l" using CR[of h1] CR[of h2] assms(3) by (auto simp: line_ok_def)
  have t: "?t = head_text ?ls @ CRLF2 @ text @ CRLF"
    using hs(1) assms(2)
    by (simp add: send_simple_response_def build_response_def header_text_def head_text_def)
  have d: "drop (length x) (x @ y) = y" for x y :: string by simp
  have "find_sub CRLF2 ?t = Some (length (lines_text ?ls) - 2)" unfolding t by (rule head_end[OF _ ok]) simp
  moreover have "2 \<le> length (lines_text ?ls)" by simp
  then have "length (lines_text ?ls) - 2 + 4 = length (head_text ?ls)" by (simp only: length_head_text)
  then have "drop (length (lines_text ?ls) - 2 + 4) ?t = CRLF2 @ text @ CRLF" unfolding t by (simp only: d)
  moreover have "?t = line @ header_text h1 @ header_text h2 @ CRLF @ CRLF2 @ text @ CRLF"
    unfolding t by (simp add: head_text_def header_text_def)
  moreover have "h1 \<in> set (headers HttpResponse_new)" using hs(2) by blast
  ultimately show ?thesis by blast
qed

theorem response_malformed_witness:
  "\<exists>h rest e. snd (send_simple_response rev 5 (build_response ''HTTP/1.1 200 OK'' ''x'')) =
      ''HTTP/1.1 200 OK'' @ header_text h @ rest \<and>
    drop (e + 4) (snd (send_simple_response rev 5 (build_response ''HTTP/1.1 200 OK'' ''x''))) = CRLF2 @ ''x'' @ CRLF"
  using response_malformed[of rev "build_response ''HTTP/1.1 200 OK'' ''x''" "''HTTP/1.1 200 OK''" "''x''" 5]
  by simp blast

end
