(* ===== verification/TimerClock.thy ===== *)
theory TimerClock
  imports Prelude "HOL-Library.Multiset"
begin

text \<open>
  The timers, \<open>timer/timer.{h,cpp}\<close>: a queue ordered by expiry time and a map from identifiers to the
  version that counts. Deleting and renewing a timer leave the old ones in the queue; they are
  skipped when they expire because their version is no longer the one in the map. The locale
  \<open>min_queue\<close> is the contract of \<open>std::priority_queue\<close>, which leaves the order of equal times open; it is
  interpreted on the sorted list that models the queue, in which a new timer stands in front of those with an equal
  time. Times and versions are mathematical integers.

  Every operation is the work it does under the lock. \<open>mod_timer\<close> takes the lock twice and reads the
  map in between without it; \<open>clock_step\<close> interleaves its three parts with the calls of the timer thread.
\<close>

record 'cb timer =
  tm_id :: int
  tm_expire_time :: int
  tm_callback :: "'cb option"
  tm_version :: int

record 'cb clock =
  timer_queue :: "'cb timer list"
  timer_map :: "int \<Rightarrow> int option"
  stop_flag :: bool

section \<open>The queue\<close>

locale min_queue =
  fixes ok :: "'q \<Rightarrow> bool" and items :: "'q \<Rightarrow> 'a multiset"
    and push :: "'a \<Rightarrow> 'q \<Rightarrow> 'q" and top :: "'q \<Rightarrow> 'a" and pop :: "'q \<Rightarrow> 'q"
    and key :: "'a \<Rightarrow> int"
  assumes push_ok: "ok q \<Longrightarrow> ok (push x q)"
    and pop_ok: "ok q \<Longrightarrow> items q \<noteq> {#} \<Longrightarrow> ok (pop q)"
    and items_push: "items (push x q) = add_mset x (items q)"
    and items_pop: "items q \<noteq> {#} \<Longrightarrow> items q = add_mset (top q) (items (pop q))"
    and top_least: "ok q \<Longrightarrow> x \<in># items q \<Longrightarrow> key (top q) \<le> key x"
begin

text \<open>Something has expired exactly when the top has.\<close>

lemma expired_top:
  assumes "ok q" and "items q \<noteq> {#}"
  shows "(\<exists>x \<in># items q. key x \<le> now) \<longleftrightarrow> key (top q) \<le> now"
  using top_least[OF assms(1)] items_pop[OF assms(2)]
  by (metis order_trans union_single_eq_member)

lemma pop_push_items: "ok q \<Longrightarrow> add_mset (top (push x q)) (items (pop (push x q))) = add_mset x (items q)"
  using items_pop[of "push x q"] by (simp add: items_push)

end

abbreviation queue_ok :: "'cb timer list \<Rightarrow> bool" where
  "queue_ok q \<equiv> sorted (map tm_expire_time q)"

interpretation tq: min_queue queue_ok mset "insort_key tm_expire_time" hd tl tm_expire_time
proof unfold_locales
  fix q :: "'cb timer list" and x
  show "queue_ok q \<Longrightarrow> queue_ok (insort_key tm_expire_time x q)" by (simp add: sorted_insort_key)
  show "queue_ok q \<Longrightarrow> mset q \<noteq> {#} \<Longrightarrow> queue_ok (tl q)" by (cases q) simp_all
  show "mset (insort_key tm_expire_time x q) = add_mset x (mset q)" by simp
  show "mset q \<noteq> {#} \<Longrightarrow> mset q = add_mset (hd q) (mset (tl q))" by (cases q) simp_all
  show "queue_ok q \<Longrightarrow> x \<in># mset q \<Longrightarrow> tm_expire_time (hd q) \<le> tm_expire_time x" by (cases q) auto
qed

section \<open>Operations\<close>

definition Thread_clockr_new :: "'cb clock" where
  "Thread_clockr_new = \<lparr>timer_queue = [], timer_map = (\<lambda>_. None), stop_flag = False\<rparr>"

definition timer_new :: "int \<Rightarrow> int \<Rightarrow> 'cb option \<Rightarrow> int \<Rightarrow> 'cb timer" where
  [simp]: "timer_new timer_id expire_time callback version =
     \<lparr>tm_id = timer_id, tm_expire_time = expire_time, tm_callback = callback, tm_version = version\<rparr>"

definition add_timer :: "int \<Rightarrow> int \<Rightarrow> int \<Rightarrow> 'cb option \<Rightarrow> int \<Rightarrow> 'cb clock \<Rightarrow> int \<times> 'cb clock" where
  "add_timer now timer_id without callback version c =
     (let expire_time = now + without;
          T = timer_new timer_id expire_time callback version
      in (timer_id, c\<lparr>timer_queue := insort_key tm_expire_time T (timer_queue c),
                      timer_map := (timer_map c)(timer_id \<mapsto> version)\<rparr>))"

definition del_all_timer :: "'cb clock \<Rightarrow> bool \<times> 'cb clock" where
  "del_all_timer c = (True, c\<lparr>timer_queue := []\<rparr>)"

text \<open>The three parts of \<open>mod_timer\<close>; \<open>operator[]\<close> enters 0 for an identifier it does not know.\<close>

definition map_value :: "(int \<Rightarrow> int option) \<Rightarrow> int \<Rightarrow> int" where
  "map_value m i = (case m i of Some v \<Rightarrow> v | None \<Rightarrow> 0)"

definition mod_timer_bump :: "int \<Rightarrow> 'cb clock \<Rightarrow> 'cb clock" where
  "mod_timer_bump timer_id c =
     c\<lparr>timer_map := (timer_map c)(timer_id \<mapsto> map_value (timer_map c) timer_id + 1)\<rparr>"

definition mod_timer_read :: "int \<Rightarrow> 'cb clock \<Rightarrow> int \<times> 'cb clock" where
  "mod_timer_read timer_id c =
     (map_value (timer_map c) timer_id,
      c\<lparr>timer_map := (timer_map c)(timer_id \<mapsto> map_value (timer_map c) timer_id)\<rparr>)"

definition mod_timer :: "int \<Rightarrow> int \<Rightarrow> int \<Rightarrow> 'cb option \<Rightarrow> 'cb clock \<Rightarrow> bool \<times> 'cb clock" where
  "mod_timer now timer_id without callback c =
     (let c1 = mod_timer_bump timer_id c;
          (new_version, c2) = mod_timer_read timer_id c1;
          (r, c3) = add_timer now timer_id without callback new_version c2
      in (True, c3))"

definition del_timer :: "int \<Rightarrow> 'cb clock \<Rightarrow> bool \<times> 'cb clock" where
  "del_timer timer_id c =
     (case timer_map c timer_id of
        Some _ \<Rightarrow> (True, c\<lparr>timer_map := (timer_map c)(timer_id \<mapsto> 0)\<rparr>)
      | None \<Rightarrow> (False, c))"

text \<open>The loop of \<open>handle_timer\<close> under the lock: the callbacks to run, the queue and the map.\<close>

fun expire_loop ::
  "int \<Rightarrow> 'cb timer list \<Rightarrow> (int \<Rightarrow> int option) \<Rightarrow> 'cb list \<times> 'cb timer list \<times> (int \<Rightarrow> int option)" where
  "expire_loop now [] m = ([], [], m)"
| "expire_loop now (t # q) m =
     (if tm_expire_time t \<le> now then
        if m (tm_id t) \<noteq> None \<and> m (tm_id t) \<noteq> Some (tm_version t) then expire_loop now q m
        else if tm_version t = 0 then expire_loop now q (m(tm_id t := None))
        else let (callbacks, q', m') = expire_loop now q m
             in (case tm_callback t of Some cb \<Rightarrow> cb # callbacks | None \<Rightarrow> callbacks, q', m')
      else ([], t # q, m))"

definition handle_timer :: "int \<Rightarrow> 'cb clock \<Rightarrow> 'cb list \<times> 'cb clock" where
  "handle_timer now c =
     (let (callbacks, q, m) = expire_loop now (timer_queue c) (timer_map c)
      in (callbacks, c\<lparr>timer_queue := q, timer_map := m\<rparr>))"

text \<open>How long the timer thread sleeps before it looks again; without timers it waits for one.\<close>

definition wait_time :: "int \<Rightarrow> 'cb clock \<Rightarrow> int" where
  "wait_time now c =
     (if timer_queue c \<noteq> [] \<and> \<not> stop_flag c then tm_expire_time (hd (timer_queue c)) - now else 0)"

definition clock_stop :: "'cb clock \<Rightarrow> 'cb clock" where
  "clock_stop c = (if timer_queue c \<noteq> [] then snd (del_all_timer c) else c)\<lparr>stop_flag := True\<rparr>"

section \<open>What expires\<close>

text \<open>A timer counts when the map does not name another version for its identifier.\<close>

definition current :: "(int \<Rightarrow> int option) \<Rightarrow> 'cb timer \<Rightarrow> bool" where
  "current m t = (m (tm_id t) = None \<or> m (tm_id t) = Some (tm_version t))"

definition due :: "int \<Rightarrow> (int \<Rightarrow> int option) \<Rightarrow> 'cb timer list \<Rightarrow> 'cb list" where
  "due now m q = List.map_filter tm_callback (filter (\<lambda>t. tm_expire_time t \<le> now \<and> current m t) q)"

lemma expire_loop_spec:
  assumes "queue_ok q" and "\<forall>t \<in> set q. tm_version t \<noteq> 0"
  shows "expire_loop now q m = (due now m q, filter (\<lambda>t. now < tm_expire_time t) q, m)"
  using assms
proof (induction q)
  case Nil
  show ?case by (simp add: due_def map_filter_simps)
next
  case (Cons t q)
  show ?case
  proof (cases "tm_expire_time t \<le> now")
    case True
    with Cons show ?thesis
      by (cases "tm_callback t") (auto simp: due_def current_def map_filter_simps)
  next
    case False
    with Cons.prems(1) have later: "\<forall>u \<in> set q. now < tm_expire_time u" by auto
    then have "filter (\<lambda>t. now < tm_expire_time t) q = q" by (simp add: filter_id_conv)
    moreover have "filter (\<lambda>t. tm_expire_time t \<le> now \<and> current m t) q = []"
      using later by (auto simp: filter_empty_conv)
    ultimately show ?thesis using False by (simp add: due_def map_filter_simps)
  qed
qed

text \<open>
  With versions 0 in the queue, as the race of \<open>mod_timer\<close> with a deletion leaves them: the \<open>j\<close>-th expired
  timer fires, and what remains of the map.
\<close>

definition fires :: "(int \<Rightarrow> int option) \<Rightarrow> 'cb timer list \<Rightarrow> nat \<Rightarrow> bool" where
  "fires m expired j = (tm_version (expired ! j) \<noteq> 0 \<and>
     (case m (tm_id (expired ! j)) of
        None \<Rightarrow> True
      | Some v \<Rightarrow> v = tm_version (expired ! j) \<or>
          (v = 0 \<and> (\<exists>i < j. tm_id (expired ! i) = tm_id (expired ! j) \<and> tm_version (expired ! i) = 0))))"

definition erased :: "(int \<Rightarrow> int option) \<Rightarrow> 'cb timer list \<Rightarrow> int \<Rightarrow> int option" where
  "erased m expired i =
     (if m i = Some 0 \<and> (\<exists>t \<in> set expired. tm_id t = i \<and> tm_version t = 0) then None else m i)"

lemma erased_Nil [simp]: "erased m [] = m"
  by (simp add: erased_def fun_eq_iff)

text \<open>What one expired timer makes of the map for those behind it.\<close>

lemma fires_Cons:
  "fires m (t # q) (Suc j) =
     fires (if tm_version t = 0 \<and> (m (tm_id t) = None \<or> m (tm_id t) = Some 0) then m(tm_id t := None) else m) q j"
  by (auto simp: fires_def less_Suc_eq_0_disj split: option.splits)

lemma erased_Cons:
  "erased m (t # q) =
     erased (if tm_version t = 0 \<and> (m (tm_id t) = None \<or> m (tm_id t) = Some 0) then m(tm_id t := None) else m) q"
  by (auto simp: erased_def fun_eq_iff)

lemma expire_loop_fires:
  assumes "queue_ok q"
  shows "expire_loop now q m =
    (let expired = filter (\<lambda>t. tm_expire_time t \<le> now) q
     in (List.map_filter tm_callback (nths expired {j. fires m expired j}),
         filter (\<lambda>t. now < tm_expire_time t) q, erased m expired))"
  using assms
proof (induction q arbitrary: m)
  case Nil
  show ?case by (simp add: map_filter_simps)
next
  case (Cons t q)
  show ?case
  proof (cases "tm_expire_time t \<le> now")
    case True
    have "queue_ok q" using Cons.prems by simp
    note IH = Cons.IH[OF this]
    have first: "fires m (t # es) 0 = (tm_version t \<noteq> 0 \<and> current m t)" for es
      by (auto simp: fires_def current_def split: option.splits)
    show ?thesis
      using True by (cases "tm_callback t")
        (auto simp: IH Let_def nths_Cons first fires_Cons erased_Cons current_def map_filter_simps simp del: fun_upd_apply)
  next
    case False
    with Cons.prems have later: "\<forall>u \<in> set q. now < tm_expire_time u" by auto
    then have "filter (\<lambda>t. now < tm_expire_time t) q = q" "filter (\<lambda>t. tm_expire_time t \<le> now) q = []"
      by (auto simp: filter_id_conv filter_empty_conv)
    with False show ?thesis by (simp add: map_filter_simps)
  qed
qed

lemma handle_timer_queue: "timer_queue (snd (handle_timer now c)) = fst (snd (expire_loop now (timer_queue c) (timer_map c)))"
  by (simp add: handle_timer_def case_prod_unfold Let_def)

text \<open>No expired timer stays in the queue, whatever the versions.\<close>

lemma expire_loop_rest:
  "queue_ok q \<Longrightarrow> fst (snd (expire_loop now q m)) = filter (\<lambda>t. now < tm_expire_time t) q"
proof (induction q arbitrary: m)
  case (Cons t q)
  show ?case
  proof (cases "tm_expire_time t \<le> now")
    case True
    have "queue_ok q" using Cons.prems by simp
    note IH = Cons.IH[OF this]
    have f: "filter (\<lambda>t. now < tm_expire_time t) (t # q) = filter (\<lambda>t. now < tm_expire_time t) q"
      using True by simp
    have "fst (snd (expire_loop now (t # q) m)) = fst (snd (expire_loop now q m)) \<or>
        fst (snd (expire_loop now (t # q) m)) = fst (snd (expire_loop now q (m(tm_id t := None))))"
      using True by (simp add: case_prod_unfold Let_def)
    then show ?thesis unfolding f by (elim disjE) (simp_all only: IH)
  next
    case False
    with Cons.prems have "\<forall>u \<in> set q. now < tm_expire_time u" by auto
    with False show ?thesis by (simp add: filter_id_conv)
  qed
qed simp

section \<open>Interleaving\<close>

text \<open>
  The server thread adds and renews timers; both threads delete; the timer thread fires. The state
  of the server thread is where it is in \<open>mod_timer\<close>.
\<close>

datatype 'cb mod_pc = Idle | Bumped int int "'cb option" | Version_read int int "'cb option" int

datatype 'cb clock_event =
    Ev_add int int int "'cb option" int
  | Ev_del int
  | Ev_del_all
  | Ev_bump int int "'cb option"
  | Ev_read
  | Ev_push int
  | Ev_fire int "'cb list"

type_synonym 'cb clock_state = "'cb clock \<times> 'cb mod_pc"

inductive clock_step :: "'cb clock_state \<Rightarrow> 'cb clock_event \<Rightarrow> 'cb clock_state \<Rightarrow> bool" where
  add: "clock_step (c, Idle) (Ev_add now i without cb v) (snd (add_timer now i without cb v c), Idle)"
| del: "clock_step (c, pc) (Ev_del i) (snd (del_timer i c), pc)"
| del_all: "clock_step (c, pc) Ev_del_all (snd (del_all_timer c), pc)"
| bump: "clock_step (c, Idle) (Ev_bump i without cb) (mod_timer_bump i c, Bumped i without cb)"
| read: "mod_timer_read i c = (v, c') \<Longrightarrow>
    clock_step (c, Bumped i without cb) Ev_read (c', Version_read i without cb v)"
| push: "clock_step (c, Version_read i without cb v) (Ev_push now) (snd (add_timer now i without cb v c), Idle)"
| fire: "handle_timer now c = (cbs, c') \<Longrightarrow> clock_step (c, pc) (Ev_fire now cbs) (c', pc)"

inductive_cases clock_stepE: "clock_step s e s'"

text \<open>Without interference the three parts are \<open>mod_timer\<close>.\<close>

lemma mod_timer_run:
  "run clock_step (c, Idle) [Ev_bump i without cb, Ev_read, Ev_push now] (snd (mod_timer now i without cb c), Idle)"
proof -
  let ?c1 = "mod_timer_bump i c"
  obtain v c2 where r: "mod_timer_read i ?c1 = (v, c2)" by force
  have "clock_step (c, Idle) (Ev_bump i without cb) (?c1, Bumped i without cb)" by (rule bump)
  moreover have "clock_step (?c1, Bumped i without cb) Ev_read (c2, Version_read i without cb v)" by (rule read[OF r])
  moreover have "clock_step (c2, Version_read i without cb v) (Ev_push now) (snd (add_timer now i without cb v c2), Idle)"
    by (rule push)
  moreover have "snd (mod_timer now i without cb c) = snd (add_timer now i without cb v c2)"
    by (simp add: mod_timer_def Let_def r case_prod_unfold)
  ultimately show ?thesis by (metis run_Cons run_one)
qed

text \<open>
  The steps of a server that adds an identifier once, with version 1, and does not renew it any more
  once it has been deleted, nor deletes it while it is being renewed. (\<open>WebServer\<close> does not keep to
  it: descriptors are used again.)
\<close>

fun renewing :: "'cb mod_pc \<Rightarrow> int option" where
  "renewing Idle = None"
| "renewing (Bumped i _ _) = Some i"
| "renewing (Version_read i _ _ _) = Some i"

definition orderly_step :: "'cb clock_state \<Rightarrow> 'cb clock_event \<Rightarrow> 'cb clock_state \<Rightarrow> bool" where
  "orderly_step s e s' = (clock_step s e s' \<and>
     (case e of
        Ev_add _ i _ _ v \<Rightarrow> timer_map (fst s) i = None \<and> v = 1
      | Ev_bump i _ _ \<Rightarrow> timer_map (fst s) i \<noteq> Some 0
      | Ev_del i \<Rightarrow> renewing (snd s) \<noteq> Some i
      | _ \<Rightarrow> True))"

definition versions_below :: "'cb clock \<Rightarrow> bool" where
  "versions_below c = (\<forall>t \<in> set (timer_queue c).
     1 \<le> tm_version t \<and> (\<exists>v. timer_map c (tm_id t) = Some v \<and> (v = 0 \<or> tm_version t \<le> v)))"

definition stamp :: "'cb timer \<Rightarrow> int \<times> int" where
  "stamp t = (tm_id t, tm_version t)"

text \<open>The version that the renewal under way is going to use is not in the queue.\<close>

fun pc_ok :: "'cb clock \<Rightarrow> 'cb mod_pc \<Rightarrow> bool" where
  "pc_ok c Idle = True"
| "pc_ok c (Bumped i _ _) = (\<exists>v \<ge> 1. timer_map c i = Some v \<and> (i, v) \<notin> stamp ` set (timer_queue c))"
| "pc_ok c (Version_read i _ _ v) = (1 \<le> v \<and> timer_map c i = Some v \<and> (i, v) \<notin> stamp ` set (timer_queue c))"

definition clock_inv :: "'cb clock_state \<Rightarrow> bool" where
  "clock_inv s = (queue_ok (timer_queue (fst s)) \<and> versions_below (fst s) \<and>
     (\<forall>i v. timer_map (fst s) i = Some v \<longrightarrow> 0 \<le> v) \<and>
     distinct (map stamp (timer_queue (fst s))) \<and> pc_ok (fst s) (snd s))"

lemma set_insort_stamp: "stamp ` set (insort_key f t q) = insert (stamp t) (stamp ` set q)"
  by (simp add: set_insort_key)

lemma distinct_insort_stamp:
  "distinct (map stamp (insort_key f t q)) \<longleftrightarrow> stamp t \<notin> stamp ` set q \<and> distinct (map stamp q)"
proof -
  have "mset (map stamp (insort_key f t q)) = mset (stamp t # map stamp q)" by simp
  then have "distinct (map stamp (insort_key f t q)) = distinct (stamp t # map stamp q)"
    by (rule mset_eq_imp_distinct_iff)
  then show ?thesis by simp
qed

lemma clock_inv_add:
  assumes "clock_inv (c, pc)" and "1 \<le> v" and "(i, v) \<notin> stamp ` set (timer_queue c)"
    and "timer_map c i = None \<or> timer_map c i = Some v"
  shows "clock_inv (snd (add_timer now i without cb v c), Idle)"
  using assms
  by (auto simp: clock_inv_def add_timer_def Let_def sorted_insort_key versions_below_def set_insort_key
      distinct_insort_stamp stamp_def)

lemma clock_inv_fire:
  assumes "clock_inv (c, pc)" and "handle_timer now c = (cbs, c')"
  shows "clock_inv (c', pc)"
proof -
  have v: "\<forall>t \<in> set (timer_queue c). tm_version t \<noteq> 0" using assms(1) by (force simp: clock_inv_def versions_below_def)
  have "queue_ok (timer_queue c)" using assms(1) by (simp add: clock_inv_def)
  from expire_loop_spec[OF this v, of now "timer_map c"] assms(2)
  have c': "c' = c\<lparr>timer_queue := filter (\<lambda>t. now < tm_expire_time t) (timer_queue c)\<rparr>"
    by (auto simp: handle_timer_def)
  have "pc_ok c pc" using assms(1) by (simp add: clock_inv_def)
  then have "pc_ok c' pc" by (cases pc) (auto simp: c')
  with assms(1) show ?thesis
    by (auto simp: clock_inv_def c' versions_below_def sorted_filter distinct_map_filter)
qed

lemma clock_inv_del:
  assumes "clock_inv (c, pc)" and "renewing pc \<noteq> Some i"
  shows "clock_inv (snd (del_timer i c), pc)"
proof -
  have "pc_ok c pc" using assms(1) by (simp add: clock_inv_def)
  then have "pc_ok (snd (del_timer i c)) pc"
    using assms(2) by (cases pc) (auto simp: del_timer_def split: option.splits)
  with assms(1) show ?thesis
    by (auto simp: clock_inv_def versions_below_def del_timer_def split: option.splits)
qed

lemma clock_inv_bump:
  assumes "clock_inv (c, Idle)" and "timer_map c i \<noteq> Some 0"
  shows "clock_inv (mod_timer_bump i c, Bumped i without cb)"
proof -
  let ?v = "map_value (timer_map c) i + 1"
  have v: "1 \<le> ?v" using assms by (auto simp: clock_inv_def map_value_def split: option.splits)
  have new: "(i, ?v) \<notin> stamp ` set (timer_queue c)"
    using assms by (force simp: clock_inv_def versions_below_def stamp_def map_value_def)
  show ?thesis using assms v new
    by (force simp: clock_inv_def mod_timer_bump_def versions_below_def map_value_def)
qed

lemma clock_inv_step: "clock_inv s \<Longrightarrow> orderly_step s e s' \<Longrightarrow> clock_inv s'"
proof -
  assume I: "clock_inv s" and st: "orderly_step s e s'"
  then have "clock_step s e s'" by (simp add: orderly_step_def)
  then show "clock_inv s'"
  proof (cases rule: clock_step.cases)
    case (add c now i without cb v)
    with st have new: "timer_map c i = None" "v = 1" by (simp_all add: orderly_step_def)
    then have "(i, v) \<notin> stamp ` set (timer_queue c)"
      using I add(1) by (force simp: clock_inv_def versions_below_def stamp_def)
    with clock_inv_add[of c Idle v i] I new add show ?thesis by simp
  next
    case (del c pc i)
    with clock_inv_del[of c pc i] I st show ?thesis by (simp add: orderly_step_def)
  next
    case (del_all c pc)
    have "pc_ok c pc" using I del_all(1) by (simp add: clock_inv_def)
    then have "pc_ok (snd (del_all_timer c)) pc" by (cases pc) (auto simp: del_all_timer_def)
    with I del_all show ?thesis by (simp add: clock_inv_def del_all_timer_def versions_below_def)
  next
    case (bump c i without cb)
    with I st clock_inv_bump[of c i] show ?thesis by (simp add: orderly_step_def)
  next
    case (read i c v c' without cb)
    then obtain u where u: "timer_map c i = Some u" "1 \<le> u" using I by (auto simp: clock_inv_def)
    with read(4) have "v = u" "c' = c" by (auto simp: mod_timer_read_def map_value_def fun_upd_idem)
    with I read u show ?thesis by (auto simp: clock_inv_def)
  next
    case (push c i without cb v now)
    with clock_inv_add[of c "Version_read i without cb v" v i] I show ?thesis by (simp add: clock_inv_def)
  next
    case (fire now c cbs c' pc)
    with I clock_inv_fire show ?thesis by simp
  qed
qed

interpretation clock: inductive_invariant orderly_step "(Thread_clockr_new, Idle)" "\<lambda>es. clock_inv"
proof unfold_locales
  show "clock_inv (Thread_clockr_new, Idle)"
    by (simp add: clock_inv_def Thread_clockr_new_def versions_below_def)
qed (rule clock_inv_step)

text \<open>A current timer of version 1 stays current when its identifier is added again: then there are two.\<close>

lemma insort_key_filter_mset:
  "mset (map g (filter P (insort_key f x q))) =
     (if P x then add_mset (g x) (mset (map g (filter P q))) else mset (map g (filter P q)))"
proof -
  have "mset (filter P (insort_key f x q)) = filter_mset P (add_mset x (mset q))" by simp
  then show ?thesis by (simp del: filter_insort)
qed

lemma added_twice:
  assumes "t \<in> set (timer_queue c)" and "tm_version t = 1"
  shows "\<not> distinct (map tm_id (filter (current (timer_map (snd (add_timer now (tm_id t) without cb 1 c))))
    (timer_queue (snd (add_timer now (tm_id t) without cb 1 c)))))" (is "\<not> distinct ?ids")
proof
  let ?m = "(timer_map c)(tm_id t \<mapsto> 1)"
  have "mset ?ids = add_mset (tm_id t) (mset (map tm_id (filter (current ?m) (timer_queue c))))"
    by (simp add: add_timer_def Let_def insort_key_filter_mset current_def del: mset_map)
  moreover have "tm_id t \<in># mset (map tm_id (filter (current ?m) (timer_queue c)))"
    using assms by (auto simp: current_def)
  moreover assume "distinct ?ids"
  ultimately show False by (metis distinct.simps(2) mset.simps(2) mset_eq_imp_distinct_iff ex_mset set_mset_mset)
qed

section \<open>Properties\<close>

text \<open>C26. \<open>handle_timer\<close> removes exactly the expired timers. Of these it runs, in the order of the queue,
  the callbacks of those that have a version other than 0 and whose version is the one in the map, or whose
  identifier the map does not know, or knows as deleted until an earlier expired timer with version 0 erased
  the entry. It erases exactly the entries of deleted identifiers that have an expired timer with version 0.\<close>

theorem handle_timer_fires:
  assumes "queue_ok (timer_queue c)"
  shows "handle_timer now c =
    (let expired = filter (\<lambda>t. tm_expire_time t \<le> now) (timer_queue c)
     in (List.map_filter tm_callback (nths expired {j. fires (timer_map c) expired j}),
         c\<lparr>timer_queue := filter (\<lambda>t. now < tm_expire_time t) (timer_queue c),
           timer_map := erased (timer_map c) expired\<rparr>))"
  using expire_loop_fires[OF assms, of now "timer_map c"] by (simp add: handle_timer_def Let_def)

text \<open>A renewed timer: the old one is skipped. A renewal that met a deletion: nothing runs for it, but a
  timer of the same identifier behind it does.\<close>

theorem handle_timer_fires_witness:
  "fst (handle_timer 12 (snd (mod_timer 11 5 1 (Some ''new'') (snd (add_timer 10 5 1 (Some ''old'') 1 Thread_clockr_new))))) =
    [''new''] \<and>
   handle_timer 12 (Thread_clockr_new\<lparr>timer_queue := [timer_new 5 10 (Some ''lost'') 0, timer_new 5 11 (Some ''later'') 1],
      timer_map := [5 \<mapsto> 0]\<rparr>) = ([''later''], Thread_clockr_new)"
proof (rule conjI)
  let ?c = "snd (mod_timer 11 5 1 (Some ''new'') (snd (add_timer 10 5 1 (Some ''old'') 1 Thread_clockr_new)))"
  have q: "timer_queue ?c = [timer_new 5 11 (Some ''old'') 1, timer_new 5 12 (Some ''new'') 2]" "timer_map ?c = [5 \<mapsto> 2]"
    by (simp_all add: mod_timer_def mod_timer_bump_def mod_timer_read_def add_timer_def Thread_clockr_new_def
      map_value_def Let_def)
  have "queue_ok (timer_queue ?c)" unfolding q by simp
  from handle_timer_fires[OF this, of 12] show "fst (handle_timer 12 ?c) = [''new'']"
    unfolding q by (simp add: Let_def nths_Cons fires_def map_filter_simps)
  let ?d = "Thread_clockr_new\<lparr>timer_queue := [timer_new 5 10 (Some ''lost'') 0, timer_new 5 11 (Some ''later'') 1],
      timer_map := [5 \<mapsto> 0]\<rparr> :: string clock"
  have "queue_ok (timer_queue ?d)" by simp
  from handle_timer_fires[OF this, of 12] show "handle_timer 12 ?d = ([''later''], Thread_clockr_new)"
    by (auto simp: Let_def nths_Cons fires_def map_filter_simps erased_def Thread_clockr_new_def)
qed

text \<open>C16. Let adding, renewing, deleting and firing interleave in any way, but such that an identifier is
  added once, with version 1, is not deleted while it is being renewed and not renewed after its deletion. Then
  at most one timer of every identifier counts, none that was deleted, and all the others in the queue are
  skipped when they expire. Adding an identifier again breaks this: if a timer of version 1 counts, then it
  and the new one count.\<close>

theorem one_current_timer:
  assumes "run orderly_step (Thread_clockr_new, Idle) es (c, pc)"
  shows "distinct (map tm_id (filter (current (timer_map c)) (timer_queue c))) \<and>
    (\<forall>t \<in> set (timer_queue c). \<exists>v. timer_map c (tm_id t) = Some v \<and>
       (if v = 0 then \<not> current (timer_map c) t else tm_version t \<le> v)) \<and>
    (\<forall>t \<in> set (filter (current (timer_map c)) (timer_queue c)). \<forall>now without cb.
       (let c' = snd (add_timer now (tm_id t) without cb 1 c)
        in tm_version t = 1 \<longrightarrow> \<not> distinct (map tm_id (filter (current (timer_map c')) (timer_queue c')))))"
proof (intro conjI ballI allI)
  have I: "clock_inv (c, pc)" by (rule clock.run_I[OF assms])
  have st: "map stamp (filter (current (timer_map c)) (timer_queue c)) =
      map (\<lambda>i. (i, the (timer_map c i))) (map tm_id (filter (current (timer_map c)) (timer_queue c)))"
    using I by (force simp: clock_inv_def versions_below_def stamp_def current_def)
  have "distinct (map stamp (filter (current (timer_map c)) (timer_queue c)))"
    using I by (simp add: clock_inv_def distinct_map_filter)
  then show "distinct (map tm_id (filter (current (timer_map c)) (timer_queue c)))"
    unfolding st using distinct_map by blast
  show "\<exists>v. timer_map c (tm_id t) = Some v \<and> (if v = 0 then \<not> current (timer_map c) t else tm_version t \<le> v)"
    if t: "t \<in> set (timer_queue c)" for t
  proof -
    obtain v where v: "1 \<le> tm_version t" "timer_map c (tm_id t) = Some v" "v = 0 \<or> tm_version t \<le> v"
      using I t by (auto simp: clock_inv_def versions_below_def)
    then show ?thesis by (intro exI[of _ v]) (auto simp: current_def)
  qed
  show "let c' = snd (add_timer now (tm_id t) without cb 1 c)
      in tm_version t = 1 \<longrightarrow> \<not> distinct (map tm_id (filter (current (timer_map c')) (timer_queue c')))"
    if "t \<in> set (filter (current (timer_map c)) (timer_queue c))" for t now without cb
    using added_twice[of t c now without cb] that by (simp add: Let_def)
qed

theorem one_current_timer_witness:
  "\<exists>es c. run orderly_step (Thread_clockr_new :: string clock, Idle) es (c, Idle) \<and> length (timer_queue c) = 2 \<and>
    length (filter (current (timer_map c)) (timer_queue c)) = 1 \<and>
    distinct (map tm_id (filter (current (timer_map c)) (timer_queue c))) \<and>
    (\<exists>es1 c1 c1'. run orderly_step (Thread_clockr_new :: string clock, Idle) es1 (c1, Idle) \<and>
      c1' = snd (add_timer 10 5 1 (Some ''again'') 1 c1) \<and>
      \<not> distinct (map tm_id (filter (current (timer_map c1')) (timer_queue c1'))))"
proof -
  let ?c1 = "snd (add_timer 10 5 1 (Some ''a'') 1 Thread_clockr_new)"
  let ?c2 = "mod_timer_bump 5 ?c1"
  let ?c3 = "snd (mod_timer_read 5 ?c2)"
  let ?c4 = "snd (add_timer 11 5 1 (Some ''b'') 2 ?c3)"
  have a: "orderly_step (Thread_clockr_new, Idle) (Ev_add 10 5 1 (Some ''a'') 1) (?c1, Idle)"
    by (simp add: orderly_step_def clock_step.add Thread_clockr_new_def)
  moreover have "orderly_step (?c1, Idle) (Ev_bump 5 1 (Some ''b'')) (?c2, Bumped 5 1 (Some ''b''))"
    by (simp add: orderly_step_def clock_step.bump add_timer_def Let_def)
  moreover have "mod_timer_read 5 ?c2 = (2, ?c3)"
    by (simp add: mod_timer_read_def mod_timer_bump_def map_value_def add_timer_def Let_def Thread_clockr_new_def)
  then have "orderly_step (?c2, Bumped 5 1 (Some ''b'')) Ev_read (?c3, Version_read 5 1 (Some ''b'') 2)"
    by (simp add: orderly_step_def clock_step.read)
  moreover have "orderly_step (?c3, Version_read 5 1 (Some ''b'') 2) (Ev_push 11) (?c4, Idle)"
    by (simp add: orderly_step_def clock_step.push)
  ultimately obtain es where r: "run orderly_step (Thread_clockr_new, Idle) es (?c4, Idle)"
    by (meson run_Cons run_one)
  have "length (timer_queue ?c4) = 2" "length (filter (current (timer_map ?c4)) (timer_queue ?c4)) = 1"
    by (simp_all add: add_timer_def mod_timer_bump_def mod_timer_read_def map_value_def Let_def
        Thread_clockr_new_def current_def)
  moreover have "distinct (map tm_id (filter (current (timer_map ?c4)) (timer_queue ?c4)))"
    using one_current_timer[OF r] by (rule conjunct1)
  moreover
  let ?t = "timer_new 5 11 (Some ''a'') 1"
  have c1: "timer_queue ?c1 = [?t]" "current (timer_map ?c1) ?t"
    by (simp_all add: add_timer_def Let_def Thread_clockr_new_def current_def)
  then have "?t \<in> set (filter (current (timer_map ?c1)) (timer_queue ?c1))" by simp
  with one_current_timer[OF run_one[where step = orderly_step, OF a], THEN conjunct2, THEN conjunct2]
  have "\<not> distinct (map tm_id (filter (current (timer_map (snd (add_timer 10 (tm_id ?t) 1 (Some ''again'') 1 ?c1))))
      (timer_queue (snd (add_timer 10 (tm_id ?t) 1 (Some ''again'') 1 ?c1)))))"
    by (metis (no_types, lifting) timer.select_convs(4) timer_new_def)
  then have "\<exists>es1 c1 c1'. run orderly_step (Thread_clockr_new :: string clock, Idle) es1 (c1, Idle) \<and>
      c1' = snd (add_timer 10 5 1 (Some ''again'') 1 c1) \<and>
      \<not> distinct (map tm_id (filter (current (timer_map c1')) (timer_queue c1')))"
    using run_one[where step = orderly_step, OF a] by (intro exI conjI) simp_all
  ultimately show ?thesis using r by blast
qed

text \<open>After \<open>del_timer\<close> no timer of that identifier fires any more, until it is added again. When it
  is added again with a version that a timer still in the queue has, as the server does when the
  descriptor of a closed connection is reused, that old timer counts again.\<close>

theorem deleted_timer_revives:
  assumes "timer_map c i = Some v" and "\<forall>t \<in> set (timer_queue c). 1 \<le> tm_version t"
  shows "\<exists>c'. del_timer i c = (True, c') \<and>
    (\<forall>t \<in> set (timer_queue c'). tm_id t = i \<longrightarrow> \<not> current (timer_map c') t) \<and>
    (\<forall>t \<in> set (timer_queue c). \<forall>now without cb. tm_id t = i \<and> tm_version t = 1 \<longrightarrow>
       t \<in> set (timer_queue (snd (add_timer now i without cb 1 c'))) \<and>
       current (timer_map (snd (add_timer now i without cb 1 c'))) t)"
  using assms by (auto simp: del_timer_def current_def add_timer_def Let_def set_insort_key)

theorem deleted_timer_revives_witness:
  "let c = snd (add_timer 10 5 1 (Some ''old'') 1 Thread_clockr_new);
       c' = snd (add_timer 10 5 1 (Some ''new'') 1 (snd (del_timer 5 c)))
   in \<exists>t \<in> set (timer_queue c'). tm_callback t = Some ''old'' \<and> current (timer_map c') t"
proof -
  let ?c = "snd (add_timer 10 5 1 (Some ''old'') 1 Thread_clockr_new)"
  let ?t = "\<lparr>tm_id = 5, tm_expire_time = 11, tm_callback = Some ''old'', tm_version = 1\<rparr>"
  have c: "timer_map ?c 5 = Some 1" "timer_queue ?c = [?t]"
    by (simp_all add: add_timer_def Let_def Thread_clockr_new_def)
  have "\<forall>t \<in> set (timer_queue ?c). 1 \<le> tm_version t" by (simp add: c(2))
  from deleted_timer_revives[OF c(1) this] obtain c' where
    c': "del_timer 5 ?c = (True, c')" and
    rev: "\<forall>t \<in> set (timer_queue ?c). \<forall>now without cb. tm_id t = 5 \<and> tm_version t = 1 \<longrightarrow>
       t \<in> set (timer_queue (snd (add_timer now 5 without cb 1 c'))) \<and>
       current (timer_map (snd (add_timer now 5 without cb 1 c'))) t" by blast
  have "?t \<in> set (timer_queue ?c)" by (simp add: c(2))
  from rev[rule_format, OF this, of 10 1 "Some ''new''"] c' show ?thesis
    by (auto simp: Let_def intro!: bexI[of _ ?t])
qed

text \<open>C39. \<open>mod_timer\<close> reads the version outside the lock. A deletion by the timer thread between the
  increment and the read gives the renewed timer the version 0, and it expires without its callback;
  a deletion after the read is undone, and the deleted identifier fires.\<close>

theorem mod_timer_race:
  assumes "timer_map c i = Some v" and "timer_queue c = []" and "1 \<le> v"
  shows "(\<exists>c1. run clock_step (c, Idle) [Ev_bump i without (Some cb), Ev_del i, Ev_read, Ev_push now] (c1, Idle) \<and>
      fst (handle_timer (now + without) c1) = [] \<and> timer_map (snd (handle_timer (now + without) c1)) i = None) \<and>
    (\<exists>c2. run clock_step (c, Idle) [Ev_bump i without (Some cb), Ev_read, Ev_del i, Ev_push now] (c2, Idle) \<and>
      timer_map c2 i = Some (v + 1) \<and> fst (handle_timer (now + without) c2) = [cb])"
proof -
  let ?b = "mod_timer_bump i c" and ?pc = "Bumped i without (Some cb)"
  let ?d = "snd (del_timer i ?b)"
  let ?c1 = "snd (add_timer now i without (Some cb) 0 ?d)"
  let ?d2 = "snd (del_timer i (snd (mod_timer_read i ?b)))"
  let ?c2 = "snd (add_timer now i without (Some cb) (v + 1) ?d2)"
  have bump: "clock_step (c, Idle) (Ev_bump i without (Some cb)) (?b, ?pc)" by (rule clock_step.bump)
  have r1: "mod_timer_read i ?d = (0, ?d)"
    using assms(1) by (simp add: mod_timer_read_def mod_timer_bump_def del_timer_def map_value_def fun_upd_idem)
  have r2: "mod_timer_read i ?b = (v + 1, snd (mod_timer_read i ?b))"
    using assms(1) by (simp add: mod_timer_read_def mod_timer_bump_def map_value_def)
  have run1: "run clock_step (c, Idle) [Ev_bump i without (Some cb), Ev_del i, Ev_read, Ev_push now] (?c1, Idle)"
    by (rule run_Cons[where step = clock_step, OF bump], rule run_Cons[where step = clock_step, OF clock_step.del], rule run_Cons[where step = clock_step, OF clock_step.read[OF r1]],
        rule run_one[where step = clock_step], rule clock_step.push)
  have run2: "run clock_step (c, Idle) [Ev_bump i without (Some cb), Ev_read, Ev_del i, Ev_push now] (?c2, Idle)"
    by (rule run_Cons[where step = clock_step, OF bump], rule run_Cons[where step = clock_step, OF clock_step.read[OF r2]], rule run_Cons[where step = clock_step, OF clock_step.del],
        rule run_one[where step = clock_step], rule clock_step.push)
  have "fst (handle_timer (now + without) ?c1) = []" "timer_map (snd (handle_timer (now + without) ?c1)) i = None"
    using assms by (simp_all add: handle_timer_def add_timer_def Let_def del_timer_def mod_timer_bump_def)
  moreover have "timer_map ?c2 i = Some (v + 1)" "fst (handle_timer (now + without) ?c2) = [cb]"
    using assms by (simp_all add: handle_timer_def add_timer_def Let_def del_timer_def mod_timer_bump_def
        mod_timer_read_def map_value_def)
  ultimately show ?thesis using run1 run2 by blast
qed

theorem mod_timer_race_witness:
  "\<exists>c c1. timer_map c 5 = Some 1 \<and>
    run clock_step (c, Idle) [Ev_bump 5 1 (Some ''task''), Ev_del 5, Ev_read, Ev_push 10] (c1, Idle) \<and>
    fst (handle_timer 11 c1) = []"
proof -
  let ?c = "Thread_clockr_new\<lparr>timer_map := [5 \<mapsto> 1]\<rparr>"
  have c: "timer_map ?c 5 = Some 1" "timer_queue ?c = []" by (simp_all add: Thread_clockr_new_def)
  from mod_timer_race[OF c, of 1 "''task''" 10] obtain c1 where
    "run clock_step (?c, Idle) [Ev_bump 5 1 (Some ''task''), Ev_del 5, Ev_read, Ev_push 10] (c1, Idle)"
    "fst (handle_timer 11 c1) = []" by auto
  with c(1) show ?thesis by (intro exI[of _ ?c] exI[of _ c1] conjI)
qed

end
