(* ===== verification/ThreadPool.thy ===== *)
theory ThreadPool
  imports Prelude "HOL-Library.Multiset"
begin

text \<open>
  The thread pool, \<open>utils/threads_pool.{h,cpp}\<close>: a queue of tasks under a mutex, worker threads that
  take the front task and run it outside the lock, and a stop flag. \<open>worker_step\<close> interleaves the
  workers with callers of \<open>enqueue\<close>, \<open>shutdown\<close> and the destructor; an event is what a thread does
  in one critical section, or the end of a task. A worker that finds neither a task nor the stop flag
  waits on the condition variable; waiting is not a step.
\<close>

datatype worker = Idle_worker | Running nat | Exited

record thread_pool =
  task_queue :: "nat list"
  stopped :: bool
  workers :: "worker list"

datatype thread_event =
    Enqueue nat
  | Enqueue_refused nat
  | Take nat nat
  | Finish nat nat
  | Worker_exit nat
  | Shutdown

section \<open>The operations under the lock\<close>

definition pthreads_new :: "nat \<Rightarrow> thread_pool" where
  "pthreads_new threadCount =
     \<lparr>task_queue = [], stopped = False,
      workers = replicate (if threadCount = 0 then 4 else threadCount) Idle_worker\<rparr>"

definition enqueue :: "nat \<Rightarrow> thread_pool \<Rightarrow> thread_pool res" where
  "enqueue task p =
     (if stopped p then Inl (Throws Runtime_error) else Inr (p\<lparr>task_queue := task_queue p @ [task]\<rparr>))"

text \<open>
  A worker inside its critical section: it waits, returns when the pool is stopped and the queue is
  empty, or takes the front task.
\<close>

datatype worker_choice = Wait | Return | Got nat

definition worker_section :: "thread_pool \<Rightarrow> worker_choice \<times> thread_pool" where
  "worker_section p =
     (if \<not> (stopped p \<or> task_queue p \<noteq> []) then (Wait, p)
      else if stopped p \<and> task_queue p = [] then (Return, p)
      else (Got (hd (task_queue p)), p\<lparr>task_queue := tl (task_queue p)\<rparr>))"

definition pendingTasks :: "thread_pool \<Rightarrow> nat" where
  "pendingTasks p = length (task_queue p)"

definition isRunning :: "thread_pool \<Rightarrow> bool" where
  "isRunning p = (\<not> stopped p)"

definition shutdown_flag :: "thread_pool \<Rightarrow> thread_pool" where
  "shutdown_flag p = p\<lparr>stopped := True\<rparr>"

text \<open>The destructor shuts down unless that has been done.\<close>

definition pthreads_destroy :: "thread_pool \<Rightarrow> thread_pool" where
  "pthreads_destroy p = (if stopped p then p else shutdown_flag p)"

text \<open>\<open>waitAll\<close> returns when it has seen an empty queue; \<open>shutdown\<close> when it has joined every worker.\<close>

definition waitAll_returns :: "thread_pool \<Rightarrow> bool" where
  "waitAll_returns p = (pendingTasks p = 0)"

definition all_joined :: "thread_pool \<Rightarrow> bool" where
  "all_joined p = (\<forall>w \<in> set (workers p). w = Exited)"

section \<open>Steps\<close>

inductive worker_step :: "thread_pool \<Rightarrow> thread_event \<Rightarrow> thread_pool \<Rightarrow> bool" where
  enqueue: "enqueue task p = Inr p' \<Longrightarrow> worker_step p (Enqueue task) p'"
| refused: "enqueue task p = Inl e \<Longrightarrow> worker_step p (Enqueue_refused task) p"
| take_task: "w < length (workers p) \<Longrightarrow> workers p ! w = Idle_worker \<Longrightarrow> worker_section p = (Got task, p') \<Longrightarrow>
    worker_step p (Take w task) (p'\<lparr>workers := (workers p)[w := Running task]\<rparr>)"
| finish: "w < length (workers p) \<Longrightarrow> workers p ! w = Running task \<Longrightarrow>
    worker_step p (Finish w task) (p\<lparr>workers := (workers p)[w := Idle_worker]\<rparr>)"
| worker_exit: "w < length (workers p) \<Longrightarrow> workers p ! w = Idle_worker \<Longrightarrow> worker_section p = (Return, p') \<Longrightarrow>
    worker_step p (Worker_exit w) (p'\<lparr>workers := (workers p)[w := Exited]\<rparr>)"
| shutdown: "worker_step p Shutdown (shutdown_flag p)"

inductive_cases worker_stepE: "worker_step p e p'"

section \<open>Histories\<close>

text \<open>The tasks accepted, started and finished in a history, each in the order of the events.\<close>

definition accepted :: "thread_event list \<Rightarrow> nat list" where
  "accepted es = List.map_filter (\<lambda>e. case e of Enqueue t \<Rightarrow> Some t | _ \<Rightarrow> None) es"

definition started :: "thread_event list \<Rightarrow> nat list" where
  "started es = List.map_filter (\<lambda>e. case e of Take _ t \<Rightarrow> Some t | _ \<Rightarrow> None) es"

definition finished :: "thread_event list \<Rightarrow> nat list" where
  "finished es = List.map_filter (\<lambda>e. case e of Finish _ t \<Rightarrow> Some t | _ \<Rightarrow> None) es"

lemma map_filter_snoc: "List.map_filter f (es @ [e]) = List.map_filter f es @ (case f e of None \<Rightarrow> [] | Some x \<Rightarrow> [x])"
  by (induction es) (simp_all add: map_filter_simps split: option.splits)

lemmas history_simps = accepted_def started_def finished_def map_filter_snoc

text \<open>The tasks the workers are running.\<close>

definition running :: "worker list \<Rightarrow> nat list" where
  "running ws = concat (map (\<lambda>w. case w of Running t \<Rightarrow> [t] | _ \<Rightarrow> []) ws)"

lemma running_simps [simp]:
  "running [] = []" "running (Idle_worker # ws) = running ws" "running (Exited # ws) = running ws"
  "running (Running t # ws) = t # running ws" "running (xs @ ys) = running xs @ running ys"
  by (simp_all add: running_def)

lemma mset_running_update:
  assumes "w < length ws"
  shows "mset (running (ws[w := x])) + mset (running [ws ! w]) = mset (running ws) + mset (running [x])"
proof -
  have "running ws = running (take w ws) @ running [ws ! w] @ running (drop (Suc w) ws)"
    using id_take_nth_drop[OF assms] by (metis append_Cons append_Nil running_simps(5))
  moreover have "running (ws[w := x]) = running (take w ws) @ running [x] @ running (drop (Suc w) ws)"
    using upd_conv_take_nth_drop[OF assms, of x] by (metis append_Cons append_Nil running_simps(5))
  ultimately show ?thesis by simp
qed

section \<open>The invariant\<close>

text \<open>
  Everything accepted is started or queued, in the order of acceptance; what is started is running
  or finished; no worker is gone while a task is queued; nothing is queued after the stop except what
  was there.
\<close>

definition threads_inv :: "nat \<Rightarrow> thread_event list \<Rightarrow> thread_pool \<Rightarrow> bool" where
  "threads_inv n es p =
     (accepted es = started es @ task_queue p \<and>
      mset (started es) = mset (finished es) + mset (running (workers p)) \<and>
      (Exited \<in> set (workers p) \<longrightarrow> stopped p \<and> task_queue p = []) \<and>
      (stopped p \<longleftrightarrow> Shutdown \<in> set es) \<and>
      length (workers p) = (if n = 0 then 4 else n))"

lemma threads_inv_start: "threads_inv n [] (pthreads_new n)"
  by (simp add: threads_inv_def pthreads_new_def accepted_def started_def finished_def map_filter_simps
      running_def)

lemma set_update_Exited: "Exited \<in> set (ws[w := x]) \<Longrightarrow> x \<noteq> Exited \<Longrightarrow> Exited \<in> set ws"
  using set_update_subset_insert[of ws w x] by auto

lemma threads_inv_step: "threads_inv n es p \<Longrightarrow> worker_step p e p' \<Longrightarrow> threads_inv n (es @ [e]) p'"
proof -
  assume I: "threads_inv n es p" and st: "worker_step p e p'"
  from st show "threads_inv n (es @ [e]) p'"
  proof (cases rule: worker_step.cases)
    case (enqueue task)
    with I show ?thesis by (auto simp: threads_inv_def enqueue_def history_simps split: if_splits)
  next
    case (refused task e)
    with I show ?thesis by (auto simp: threads_inv_def history_simps)
  next
    case (take_task w task p1)
    then have p1: "task_queue p = task # task_queue p1" "stopped p1 = stopped p" "workers p1 = workers p"
      by (auto simp: worker_section_def split: if_splits)
    then have ex: "Exited \<notin> set (workers p)" using I by (auto simp: threads_inv_def)
    have "mset (running ((workers p)[w := Running task])) = add_mset task (mset (running (workers p)))"
      using mset_running_update[of w "workers p" "Running task"] take_task(3,4) by simp
    with I p1 take_task ex set_update_Exited[of "workers p" w "Running task"] show ?thesis
      by (auto simp: threads_inv_def history_simps)
  next
    case (finish w task)
    have "add_mset task (mset (running ((workers p)[w := Idle_worker]))) = mset (running (workers p))"
      using mset_running_update[of w "workers p" Idle_worker] finish(3,4) by simp
    with I finish set_update_Exited[of "workers p" w Idle_worker] show ?thesis
      by (auto simp: threads_inv_def history_simps)
  next
    case (worker_exit w p1)
    then have p1: "p1 = p" "stopped p" "task_queue p = []" by (auto simp: worker_section_def split: if_splits)
    have "mset (running ((workers p)[w := Exited])) = mset (running (workers p))"
      using mset_running_update[of w "workers p" Exited] worker_exit(3,4) by simp
    with I p1 worker_exit show ?thesis by (auto simp: threads_inv_def history_simps)
  next
    case shutdown
    with I show ?thesis by (auto simp: threads_inv_def history_simps shutdown_flag_def)
  qed
qed

interpretation threads: inductive_invariant worker_step "pthreads_new n" "threads_inv n" for n
  by unfold_locales (rule threads_inv_start, rule threads_inv_step)

lemma running_none: "\<forall>w \<in> set ws. w = Exited \<Longrightarrow> running ws = []"
  by (induction ws) auto

text \<open>A worker that has not returned can go on once the pool is stopped.\<close>

lemma worker_progress:
  assumes "stopped p" and "w < length (workers p)" and "workers p ! w \<noteq> Exited"
  shows "\<exists>t p'. worker_step p (Take w t) p' \<or> worker_step p (Finish w t) p' \<or> worker_step p (Worker_exit w) p'"
proof (cases "workers p ! w")
  case Idle_worker
  show ?thesis
  proof (cases "task_queue p")
    case Nil
    then have "worker_section p = (Return, p)" using assms(1) by (simp add: worker_section_def)
    with worker_exit[OF assms(2) Idle_worker] show ?thesis by blast
  next
    case (Cons t q)
    then have "worker_section p = (Got t, p\<lparr>task_queue := q\<rparr>)" using assms(1) by (simp add: worker_section_def)
    with take_task[OF assms(2) Idle_worker] show ?thesis by blast
  qed
next
  case (Running t)
  with finish[OF assms(2)] show ?thesis by blast
qed (use assms(3) in simp)

section \<open>Properties\<close>

text \<open>C17. Tasks are started in the order in which they were accepted, none is lost and none is started
  twice; the accepted ones are finished, running or queued.\<close>

theorem tasks_in_order:
  assumes "run worker_step (pthreads_new n) es p"
  shows "accepted es = started es @ task_queue p \<and>
    mset (accepted es) = mset (finished es) + mset (running (workers p)) + mset (task_queue p)"
proof -
  have "threads_inv n es p" by (rule threads.run_I[OF assms])
  then show ?thesis by (simp add: threads_inv_def)
qed

theorem tasks_in_order_witness:
  "\<exists>es p. run worker_step (pthreads_new 1) es p \<and> started es = [7] \<and> task_queue p = [8] \<and>
    accepted es = started es @ task_queue p"
proof -
  let ?p0 = "pthreads_new 1"
  let ?p1 = "?p0\<lparr>task_queue := [7]\<rparr>" let ?p2 = "?p0\<lparr>task_queue := [7, 8]\<rparr>"
  let ?p3 = "?p0\<lparr>task_queue := [8], workers := [Running 7]\<rparr>" let ?es = "[Enqueue 7, Enqueue 8, Take 0 7]"
  have "worker_step ?p0 (Enqueue 7) ?p1" by (rule worker_step.enqueue) (simp add: enqueue_def pthreads_new_def)
  moreover have "worker_step ?p1 (Enqueue 8) ?p2" by (rule worker_step.enqueue) (simp add: enqueue_def pthreads_new_def)
  moreover have "worker_step ?p2 (Take 0 7) ?p3"
    using take_task[of 0 ?p2 7 "?p0\<lparr>task_queue := [8]\<rparr>"] by (simp add: worker_section_def pthreads_new_def)
  ultimately have r: "run worker_step ?p0 ?es ?p3" by (meson run_Cons run_one)
  moreover have "started ?es = [7]" by (simp add: started_def map_filter_simps)
  ultimately show ?thesis using tasks_in_order[OF r] by (intro exI[of _ ?es] exI[of _ ?p3]) simp
qed

text \<open>When \<open>shutdown\<close> has joined all workers, every task accepted before it has been finished; from
  the moment the stop flag is set, \<open>enqueue\<close> throws. As long as a worker has not returned there is a
  step of some worker: no worker waits for ever.\<close>

theorem shutdown_drains:
  assumes "run worker_step (pthreads_new n) es p"
  shows "(all_joined p \<longrightarrow> mset (finished es) = mset (accepted es) \<and> task_queue p = []) \<and>
    (Shutdown \<in> set es \<longrightarrow> enqueue task p = Inl (Throws Runtime_error)) \<and>
    (Shutdown \<in> set es \<and> \<not> all_joined p \<longrightarrow>
       (\<exists>w t p'. worker_step p (Take w t) p' \<or> worker_step p (Finish w t) p' \<or> worker_step p (Worker_exit w) p'))"
proof -
  have I: "threads_inv n es p" by (rule threads.run_I[OF assms])
  then have stop: "stopped p \<longleftrightarrow> Shutdown \<in> set es" and len: "workers p \<noteq> []"
    by (auto simp: threads_inv_def split: if_splits)
  have "mset (finished es) = mset (accepted es) \<and> task_queue p = []" if "all_joined p"
  proof -
    have "Exited \<in> set (workers p)" using len that by (metis all_joined_def list.set_sel(1))
    with I running_none[of "workers p"] that show ?thesis by (simp add: threads_inv_def all_joined_def)
  qed
  moreover have "\<exists>w t p'. worker_step p (Take w t) p' \<or> worker_step p (Finish w t) p' \<or> worker_step p (Worker_exit w) p'"
    if "stopped p" "\<not> all_joined p"
    using worker_progress[OF that(1)] that(2) by (metis all_joined_def in_set_conv_nth)
  moreover have "enqueue task p = Inl (Throws Runtime_error)" if "stopped p"
    using that by (simp add: enqueue_def)
  ultimately show ?thesis using stop by blast
qed

theorem shutdown_drains_witness:
  "\<exists>es p. run worker_step (pthreads_new 1) es p \<and> all_joined p \<and> mset (finished es) = {#7#} \<and>
    enqueue 9 p = Inl (Throws Runtime_error)"
proof -
  let ?p0 = "pthreads_new 1"
  let ?p1 = "?p0\<lparr>task_queue := [7]\<rparr>"
  let ?p2 = "?p1\<lparr>stopped := True\<rparr>"
  let ?p3 = "?p2\<lparr>task_queue := [], workers := [Running 7]\<rparr>"
  let ?p4 = "?p3\<lparr>workers := [Idle_worker]\<rparr>" let ?p5 = "?p3\<lparr>workers := [Exited]\<rparr>"
  let ?es = "[Enqueue 7, Shutdown, Take 0 7, Finish 0 7, Worker_exit 0]"
  have "worker_step ?p0 (Enqueue 7) ?p1" by (rule worker_step.enqueue) (simp add: enqueue_def pthreads_new_def)
  moreover have "worker_step ?p1 Shutdown ?p2"
    using worker_step.shutdown[of ?p1] by (simp add: shutdown_flag_def)
  moreover have "worker_step ?p2 (Take 0 7) ?p3"
    using take_task[of 0 ?p2 7 "?p2\<lparr>task_queue := []\<rparr>"] by (simp add: worker_section_def pthreads_new_def)
  moreover have "worker_step ?p3 (Finish 0 7) ?p4" using finish[of 0 ?p3 7] by simp
  moreover have "worker_step ?p4 (Worker_exit 0) ?p5"
    using worker_exit[of 0 ?p4 ?p4] by (simp add: worker_section_def)
  ultimately have r: "run worker_step ?p0 ?es ?p5" by (meson run_Cons run_one)
  have j: "all_joined ?p5" by (simp add: all_joined_def)
  have "finished ?es = [7]" by (simp add: finished_def map_filter_simps)
  with shutdown_drains[OF r, of 9] j r show ?thesis by (intro exI[of _ ?es] exI[of _ ?p5]) simp
qed

end
