(* ===== verification/Epoll.thy ===== *)
theory Epoll
  imports Prelude
begin

text \<open>
  \<open>network/epoll.{h,cpp}\<close>: the descriptor of the epoll instance, the array that receives events, and
  the registrations. The kernel's answers are arguments: the descriptor \<open>epoll_create\<close> returns, and
  the result of each \<open>epoll_ctl\<close>, which has an effect only when it is 0. The registrations are kept by the
  kernel; \<open>ep_interest\<close> is what the calls of the program have made of them.
\<close>

unbundle bit_operations_syntax

type_synonym events = "32 word"

definition EPOLLIN :: events where "EPOLLIN = 0x1"
definition EPOLLERR :: events where "EPOLLERR = 0x8"
definition EPOLLHUP :: events where "EPOLLHUP = 0x10"
definition EPOLLRDHUP :: events where "EPOLLRDHUP = 0x2000"

record event =
  ev_fd :: int
  ev_events :: events

record epoll =
  ep_fd :: int
  ep_max_events :: int
  ep_events :: "event list"
  ep_interest :: "int \<Rightarrow> events option"

section \<open>Operations\<close>

text \<open>
  \<open>epoll_create\<close> runs before the array is sized. \<open>resize\<close> converts its argument to \<open>size_t\<close>: a negative
  number is more than a vector can hold, and the exception leaves the descriptor open.
\<close>

definition Epoll_new :: "int \<Rightarrow> int \<Rightarrow> epoll res" where
  "Epoll_new max_events fd =
     (if max_events < 0 then Inl (Throws Length_error)
      else if fd < 0 then Inl (Throws Runtime_error)
      else Inr \<lparr>ep_fd = fd, ep_max_events = max_events,
                ep_events = replicate (nat max_events) \<lparr>ev_fd = 0, ev_events = 0\<rparr>,
                ep_interest = (\<lambda>_. None)\<rparr>)"

text \<open>The destructor: the descriptor it closes, if any.\<close>

definition Epoll_destroy :: "epoll \<Rightarrow> int option \<times> epoll" where
  "Epoll_destroy ep = (if 0 \<le> ep_fd ep then Some (ep_fd ep) else None, ep\<lparr>ep_events := []\<rparr>)"

definition ep_add :: "int \<Rightarrow> int \<Rightarrow> events \<Rightarrow> epoll \<Rightarrow> int \<times> epoll" where
  "ep_add ret fd evs ep =
     (ret, if ret = 0 then ep\<lparr>ep_interest := (ep_interest ep)(fd \<mapsto> evs)\<rparr> else ep)"

definition ep_del :: "int \<Rightarrow> int \<Rightarrow> epoll \<Rightarrow> int \<times> epoll" where
  "ep_del ret fd ep =
     (ret, if ret = 0 then ep\<lparr>ep_interest := (ep_interest ep)(fd := None)\<rparr> else ep)"

definition ep_mod :: "int \<Rightarrow> int \<Rightarrow> events \<Rightarrow> epoll \<Rightarrow> int \<times> epoll" where
  "ep_mod ret fd evs ep =
     (ret, if ret = 0 then ep\<lparr>ep_interest := (ep_interest ep)(fd \<mapsto> evs)\<rparr> else ep)"

text \<open>
  \<open>epoll_wait\<close> fills the first elements of the array, at most \<open>_max_events\<close> of them, and returns
  their number, or a negative number and nothing.
\<close>

definition ep_wait :: "int \<Rightarrow> event list \<Rightarrow> epoll \<Rightarrow> int \<times> epoll" where
  "ep_wait ret ready ep =
     (if ret < 0 then (ret, ep)
      else let got = take (nat (ep_max_events ep)) ready
           in (int (length got), ep\<lparr>ep_events := got @ drop (length got) (ep_events ep)\<rparr>))"

definition ep_events_ref :: "epoll \<Rightarrow> event list" where
  "ep_events_ref ep = ep_events ep"

definition get_epoll_fd :: "epoll \<Rightarrow> int res" where
  "get_epoll_fd ep = (if ep_fd ep < 0 then Inl (Throws Runtime_error) else Inr (ep_fd ep))"

lemmas epoll_defs = ep_add_def ep_del_def ep_mod_def ep_wait_def ep_events_ref_def get_epoll_fd_def

section \<open>The array and the registrations\<close>

text \<open>What the event loop relies on: the array keeps its size, and holds every event it is told of.\<close>

definition epoll_ok :: "epoll \<Rightarrow> bool" where
  "epoll_ok ep = (0 \<le> ep_fd ep \<and> 0 \<le> ep_max_events ep \<and> length (ep_events ep) = nat (ep_max_events ep))"

lemma epoll_ok_new: "Epoll_new n fd = Inr ep \<Longrightarrow> epoll_ok ep"
  by (auto simp: Epoll_new_def epoll_ok_def split: if_splits)

lemma epoll_ok_ctl:
  "epoll_ok (snd (ep_add r fd evs ep)) = epoll_ok ep"
  "epoll_ok (snd (ep_mod r fd evs ep)) = epoll_ok ep"
  "epoll_ok (snd (ep_del r fd ep)) = epoll_ok ep"
  by (simp_all add: epoll_defs epoll_ok_def)

lemma epoll_ok_wait: "epoll_ok ep \<Longrightarrow> epoll_ok (snd (ep_wait ret ready ep))"
  by (simp add: epoll_defs epoll_ok_def Let_def)

lemma epoll_fd_ok [simp]: "epoll_ok ep \<Longrightarrow> get_epoll_fd ep = Inr (ep_fd ep)"
  by (simp add: epoll_ok_def get_epoll_fd_def)

lemma ep_wait_events:
  assumes "epoll_ok ep" and "0 \<le> ret"
  shows "fst (ep_wait ret ready ep) \<le> ep_max_events ep" and
    "take (nat (fst (ep_wait ret ready ep))) (ep_events_ref (snd (ep_wait ret ready ep))) =
      take (nat (ep_max_events ep)) ready"
proof -
  have "take (min (length ready) k) ready = take k ready" for k by (simp add: min_def)
  with assms show "fst (ep_wait ret ready ep) \<le> ep_max_events ep"
    "take (nat (fst (ep_wait ret ready ep))) (ep_events_ref (snd (ep_wait ret ready ep))) =
      take (nat (ep_max_events ep)) ready"
    by (auto simp: epoll_defs epoll_ok_def Let_def)
qed

section \<open>The interface of a registry\<close>

text \<open>
  What the server expects of the registrations: adding, removing and changing one descriptor leaves
  the others alone, and a failed call leaves everything alone.
\<close>

locale watch_set =
  fixes add del :: "int \<Rightarrow> int \<Rightarrow> 'q \<Rightarrow> int \<times> 'q"
    and watched :: "'q \<Rightarrow> int set"
  assumes add_watched: "watched (snd (add r fd q)) = (if r = 0 then insert fd (watched q) else watched q)"
    and del_watched: "watched (snd (del r fd q)) = (if r = 0 then watched q - {fd} else watched q)"
    and answer: "fst (add r fd q) = r" "fst (del r fd q) = r"
begin

lemma add_del: "fd \<notin> watched q \<Longrightarrow> watched (snd (del 0 fd (snd (add 0 fd q)))) = watched q"
  by (simp add: add_watched del_watched)

lemma del_add: "fd \<in> watched q \<Longrightarrow> watched (snd (add 0 fd (snd (del 0 fd q)))) = watched q"
  by (auto simp: add_watched del_watched)

text \<open>Descriptors added one after another, when every call succeeds.\<close>

lemma add_all:
  "watched (fold (\<lambda>fd q. snd (add 0 fd q)) fds q) = set fds \<union> watched q"
  by (induction fds arbitrary: q) (auto simp: add_watched)

end

definition ep_watched :: "epoll \<Rightarrow> int set" where
  "ep_watched ep = dom (ep_interest ep)"

interpretation ep: watch_set "\<lambda>r fd. ep_add r fd EPOLLIN" ep_del ep_watched
  by unfold_locales (auto simp: epoll_defs ep_watched_def)

section \<open>Properties\<close>

text \<open>The array of events keeps the size it was built with through every wait, and the events a
  wait reports are the first ones that are ready, as many as the array holds; so the event loop never
  indexes outside of it.\<close>

theorem epoll_wait_bounded:
  assumes "Epoll_new max_events fd = Inr ep0" and "ep = fold (\<lambda>(ret, ready) e. snd (ep_wait ret ready e)) waits ep0"
    and "ep_wait ret ready ep = (n, ep')"
  shows "n \<le> int (length (ep_events_ref ep')) \<and> length (ep_events_ref ep') = nat max_events \<and>
    (0 \<le> ret \<longrightarrow> take (nat n) (ep_events_ref ep') = take (nat max_events) ready)"
proof -
  have keep: "epoll_ok (fold (\<lambda>(ret, ready) e. snd (ep_wait ret ready e)) ws e) \<and>
      ep_max_events (fold (\<lambda>(ret, ready) e. snd (ep_wait ret ready e)) ws e) = ep_max_events e"
    if "epoll_ok e" for ws e
    using that
  proof (induction ws arbitrary: e)
    case (Cons w ws)
    have "ep_max_events (snd (ep_wait (fst w) (snd w) e)) = ep_max_events e" by (simp add: epoll_defs Let_def)
    with Cons.IH[OF epoll_ok_wait[OF Cons.prems, of "fst w" "snd w"]] show ?case by (simp add: case_prod_unfold)
  qed simp
  have "ep_max_events ep0 = max_events" "epoll_ok ep0"
    using assms(1) epoll_ok_new by (auto simp: Epoll_new_def split: if_splits)
  with keep[of ep0 waits] have ep: "epoll_ok ep" "ep_max_events ep = max_events" by (simp_all add: assms(2))
  from epoll_ok_wait[OF ep(1), of ret ready] ep(2) assms(3) have ep': "epoll_ok ep'" "ep_max_events ep' = max_events"
    by (auto simp: epoll_defs Let_def split: if_splits)
  have len: "length (ep_events_ref ep') = nat max_events" using ep' by (simp add: epoll_ok_def ep_events_ref_def)
  moreover have "n \<le> int (nat max_events)"
    using assms(3) ep ep_wait_events(1)[OF ep(1), of ret ready] by (cases "ret < 0") (auto simp: ep_wait_def)
  moreover have "take (nat n) (ep_events_ref ep') = take (nat max_events) ready" if "0 \<le> ret"
    using ep_wait_events(2)[OF ep(1) that, of ready] assms(3) ep(2) by simp
  ultimately show ?thesis by simp
qed

theorem epoll_wait_bounded_witness:
  "let e = \<lparr>ev_fd = 5, ev_events = EPOLLIN\<rparr>; ep0 = projr (Epoll_new 2 9)
   in length (ep_events_ref (snd (ep_wait 3 [e, e, e] (snd (ep_wait 0 [] ep0))))) = 2"
proof -
  have new: "Epoll_new 2 9 = Inr (projr (Epoll_new 2 9))" by (simp add: Epoll_new_def)
  from epoll_wait_bounded[OF new _ surjective_pairing, of _ "[(0, [])]"] show ?thesis by (simp add: Let_def)
qed

end
