(* ===== verification/Tcp.thy ===== *)
theory Tcp
  imports Prelude
begin

text \<open>
  The listening socket, \<open>network/tcp.{h,cpp}\<close>. The answers of \<open>socket\<close>, \<open>setsockopt\<close>, \<open>bind\<close>, \<open>listen\<close> and
  \<open>accept\<close> are arguments; the calls that were made, with what they were given, are a result. The
  locale \<open>socket_calls\<close> counts the descriptors a list of calls leaves open; it is interpreted on the calls of
  this file.
\<close>

datatype syscall =
    Sys_socket int
  | Sys_setsockopt int
  | Sys_bind int "16 word"
  | Sys_listen int
  | Sys_close int

record tcp_socket =
  tcp_port :: int
  tcp_socket_fd :: int

record sock_answers =
  a_socket :: int
  a_setsockopt :: int
  a_bind :: int
  a_listen :: int

section \<open>Operations\<close>

text \<open>\<open>htons\<close> of the port, on a little-endian machine: the two bytes of the 16-bit value swapped.\<close>

definition htons :: "int \<Rightarrow> 16 word" where
  "htons port = word_rotr 8 (word_of_int port)"

definition tcp_create :: "sock_answers \<Rightarrow> tcp_socket \<Rightarrow> int \<times> tcp_socket \<times> syscall list" where
  "tcp_create a t =
     (let fd = a_socket a; t1 = t\<lparr>tcp_socket_fd := fd\<rparr>
      in if fd < 0 then (- 1, t1, [Sys_socket fd])
         else if a_setsockopt a < 0 then (a_setsockopt a, t1, [Sys_socket fd, Sys_setsockopt fd])
         else if a_bind a < 0
           then (a_bind a, t1, [Sys_socket fd, Sys_setsockopt fd, Sys_bind fd (htons (tcp_port t))])
         else if a_listen a < 0
           then (- 1, t1, [Sys_socket fd, Sys_setsockopt fd, Sys_bind fd (htons (tcp_port t)), Sys_listen fd])
         else (fd, t1, [Sys_socket fd, Sys_setsockopt fd, Sys_bind fd (htons (tcp_port t)), Sys_listen fd]))"

text \<open>
  The constructor throws when \<open>create\<close> fails. An object whose constructor throws is never destroyed,
  so nothing closes the descriptor it may already hold.
\<close>

definition tcp_socket_new :: "int \<Rightarrow> sock_answers \<Rightarrow> tcp_socket res \<times> syscall list" where
  "tcp_socket_new port a =
     (let (ret, t, calls) = tcp_create a \<lparr>tcp_port = port, tcp_socket_fd = - 1\<rparr>
      in (if ret < 0 then Inl (Throws Runtime_error) else Inr t, calls))"

definition tcp_socket_destroy :: "tcp_socket \<Rightarrow> syscall list" where
  "tcp_socket_destroy t = (if 0 \<le> tcp_socket_fd t then [Sys_close (tcp_socket_fd t)] else [])"

definition get_listen_fd :: "tcp_socket \<Rightarrow> int res" where
  "get_listen_fd t = (if tcp_socket_fd t < 0 then Inl (Throws Runtime_error) else Inr (tcp_socket_fd t))"

text \<open>\<open>accepted\<close> is the answer of \<open>accept\<close>.\<close>

definition Accept_tcp :: "int \<Rightarrow> tcp_socket \<Rightarrow> int res" where
  "Accept_tcp accepted t =
     bind_res (get_listen_fd t) (\<lambda>fd. Inr (if accepted < 0 then - 1 else accepted))"

lemma get_listen_fd_ok [simp]: "0 \<le> tcp_socket_fd t \<Longrightarrow> get_listen_fd t = Inr (tcp_socket_fd t)"
  by (simp add: get_listen_fd_def)

section \<open>Descriptors left open\<close>

locale socket_calls =
  fixes opens closes :: "'call \<Rightarrow> int set"
  assumes one: "opens c \<inter> closes c = {}"
begin

definition left_open :: "'call list \<Rightarrow> int set" where
  "left_open cs = fold (\<lambda>c fds. (fds - closes c) \<union> opens c) cs {}"

lemma left_open_snoc: "left_open (cs @ [c]) = (left_open cs - closes c) \<union> opens c"
  by (simp add: left_open_def)

lemma left_open_Nil [simp]: "left_open [] = {}"
  by (simp add: left_open_def)

lemma left_open_quiet: "opens c = {} \<Longrightarrow> closes c = {} \<Longrightarrow> left_open (cs @ [c]) = left_open cs"
  by (simp add: left_open_snoc)

lemma closed_after: "fd \<in> closes c \<Longrightarrow> fd \<notin> left_open (cs @ [c])"
  using one[of c] by (auto simp: left_open_snoc)

end

fun call_opens :: "syscall \<Rightarrow> int set" where
  "call_opens (Sys_socket fd) = (if fd < 0 then {} else {fd})"
| "call_opens _ = {}"

fun call_closes :: "syscall \<Rightarrow> int set" where
  "call_closes (Sys_close fd) = {fd}"
| "call_closes _ = {}"

interpretation calls: socket_calls call_opens call_closes
proof unfold_locales
  show "call_opens c \<inter> call_closes c = {}" for c by (cases c) simp_all
qed

definition open_after :: "syscall list \<Rightarrow> int set" where
  "open_after cs = calls.left_open cs"

lemma open_after_simps:
  "open_after [] = {}"
  "open_after [Sys_socket fd] = (if fd < 0 then {} else {fd})"
  "open_after [a, b] = (open_after [a] - call_closes b) \<union> call_opens b"
  "open_after [a, b, c] = (open_after [a, b] - call_closes c) \<union> call_opens c"
  "open_after [a, b, c, d] = (open_after [a, b, c] - call_closes d) \<union> call_opens d"
  "open_after (cs @ [e]) = (open_after cs - call_closes e) \<union> call_opens e"
  using calls.left_open_snoc[of "[a]"] calls.left_open_snoc[of "[a, b]"] calls.left_open_snoc[of "[a, b, c]"]
    calls.left_open_snoc[of "[]" "Sys_socket fd"] calls.left_open_snoc[of cs e]
  by (simp_all add: open_after_def)

section \<open>Properties\<close>

text \<open>C33. The constructor of the socket either completes all four calls and owns the descriptor it
  listens on, which its destructor closes; or it throws. When \<open>setsockopt\<close>, \<open>bind\<close> or \<open>listen\<close> is what
  failed, the exception leaves the descriptor open for good.\<close>

theorem socket_constructor:
  "(case tcp_socket_new port a of
      (Inr t, calls) \<Rightarrow> 0 \<le> a_socket a \<and> 0 \<le> a_setsockopt a \<and> 0 \<le> a_bind a \<and> 0 \<le> a_listen a \<and>
        get_listen_fd t = Inr (a_socket a) \<and> Sys_listen (a_socket a) \<in> set calls \<and>
        open_after calls = {a_socket a} \<and> open_after (calls @ tcp_socket_destroy t) = {}
    | (Inl e, calls) \<Rightarrow> e = Throws Runtime_error \<and>
        (if a_socket a < 0 then open_after calls = {}
         else (a_setsockopt a < 0 \<or> a_bind a < 0 \<or> a_listen a < 0) \<and> open_after calls = {a_socket a}))"
  by (simp add: tcp_socket_new_def tcp_create_def tcp_socket_destroy_def Let_def open_after_simps del: append.simps)

end
