(* ===== verification/KvLog.thy ===== *)
theory KvLog
  imports CStrings
begin

text \<open>
  The log, \<open>log/log.cpp\<close> and \<open>log/Log.h\<close>. The local time and whether \<open>fopen\<close> succeeds are arguments;
  the message is the text that the format and its arguments expand to. What is appended to which file
  is recorded in order in \<open>appended\<close>; what has certainly left the stream's own buffer is \<open>on_disk\<close>. \<open>snprintf\<close> and \<open>vsnprintf\<close> return the length of the whole text, also when
  they store less of it.
\<close>

definition SPLIT_LINES :: int where "SPLIT_LINES = 1000000"
definition LOG_BUFFER_SIZE :: int where "LOG_BUFFER_SIZE = 1024"

record log_time =
  tm_year :: int
  tm_mon :: int
  tm_mday :: int
  tm_hour :: int
  tm_min :: int
  tm_sec :: int
  tv_usec :: int

record kv_log =
  dir_name :: string
  log_name :: string
  max_log_lines :: int
  max_log_buffer_size :: int
  used_lines :: int
  today :: int
  log_fp :: "string option"
  appended :: "(string \<times> string) list"
  on_disk :: "(string \<times> string) list"

text \<open>\<open>%0wd\<close>: decimal output padded with zeros.\<close>

definition pad_int :: "nat \<Rightarrow> int \<Rightarrow> string" where
  "pad_int w i = (let d = show_int i in replicate (w - length d) CHR ''0'' @ d)"

section \<open>Opening the log\<close>

text \<open>\<open>strrchr\<close>: the text up to and including the last slash, and the rest.\<close>

fun split_last_slash :: "string \<Rightarrow> (string \<times> string) option" where
  "split_last_slash [] = None"
| "split_last_slash (c # s) =
     (case split_last_slash s of
        Some (d, f) \<Rightarrow> Some (c # d, f)
      | None \<Rightarrow> if c = CHR ''/'' then Some ([c], s) else None)"

definition date_text :: "log_time \<Rightarrow> string" where
  "date_text t = show_int (tm_year t + 1900) @ CHR ''_'' # pad_int 2 (tm_mon t + 1) @ CHR ''_'' # pad_int 2 (tm_mday t)"

definition log_init :: "string \<Rightarrow> int \<Rightarrow> int \<Rightarrow> log_time \<Rightarrow> bool \<Rightarrow> kv_log \<Rightarrow> bool \<times> kv_log" where
  "log_init file_name log_buffer_size split_lines t open_ok l =
     (let l1 = l\<lparr>max_log_buffer_size := log_buffer_size, max_log_lines := split_lines\<rparr>;
          (name, l2) = (case split_last_slash file_name of
             None \<Rightarrow> (c_snprintf 255 (date_text t @ CHR ''_'' # file_name), l1)
           | Some (d, f) \<Rightarrow>
               (c_snprintf 255 (d @ date_text t @ CHR ''_'' # f), l1\<lparr>dir_name := d, log_name := f\<rparr>));
          l3 = l2\<lparr>today := tm_mday t\<rparr>
      in if open_ok then (True, l3\<lparr>log_fp := Some name\<rparr>) else (False, l3\<lparr>log_fp := None\<rparr>))"

text \<open>The constructor of the only instance, which has static storage.\<close>

definition kv_log_new :: "log_time \<Rightarrow> bool \<Rightarrow> kv_log" where
  "kv_log_new t open_ok =
     snd (log_init ''./webserver'' LOG_BUFFER_SIZE SPLIT_LINES t open_ok
       \<lparr>dir_name = [], log_name = [], max_log_lines = 0, max_log_buffer_size = 0, used_lines = 0,
        today = 0, log_fp = None, appended = [], on_disk = []\<rparr>)"

section \<open>Writing a line\<close>

definition label_of :: "int \<Rightarrow> string" where
  "label_of level =
     (if level = 0 then ''[debug]: '' else if level = 1 then ''[info]: ''
      else if level = 2 then ''[warning]: '' else if level = 3 then ''[error]: '' else ''[info]: '')"

definition stamp_text :: "int \<Rightarrow> log_time \<Rightarrow> string" where
  "stamp_text level t =
     show_int (tm_year t + 1900) @ CHR ''-'' # pad_int 2 (tm_mon t + 1) @ CHR ''_'' # pad_int 2 (tm_mday t) @
     SP # pad_int 2 (tm_hour t) @ CHR '':'' # pad_int 2 (tm_min t) @ CHR '':'' # pad_int 2 (tm_sec t) @
     CHR ''.'' # pad_int 6 (tv_usec t) @ SP # label_of level"

definition rotates :: "log_time \<Rightarrow> kv_log \<Rightarrow> bool" where
  "rotates t l = (today l \<noteq> tm_mday t \<or> c_rem (used_lines l) (max_log_lines l) = 0)"

definition rotated_name :: "log_time \<Rightarrow> kv_log \<Rightarrow> string" where
  "rotated_name t l =
     (let tail = c_snprintf 16 (date_text t)
      in c_snprintf 255
           (if today l \<noteq> tm_mday t then dir_name l @ tail @ log_name l
            else dir_name l @ tail @ log_name l @ CHR ''.'' # show_int (used_lines l div max_log_lines l)))"

text \<open>
  The line: the stamp goes to the first 48 bytes of the buffer, the message behind it, then a newline
  and a zero. The message is bounded by the capacity of the whole buffer, not by what the stamp has
  left of it, and the newline goes behind the full length of the message. A stamp that does not fit
  leaves its terminating zero in front of the message.
\<close>

definition format_line :: "int \<Rightarrow> log_time \<Rightarrow> string \<Rightarrow> int \<Rightarrow> string res" where
  "format_line level t msg capacity =
     (let n = length (stamp_text level t); m = length msg;
          stored = c_snprintf (nat (capacity - 1)) msg
      in if capacity < int (n + length stored + 1) \<or> capacity < int (n + m + 2) then Inl Overflow_write
         else if 48 \<le> n then Inr (c_snprintf 48 (stamp_text level t))
         else Inr (stamp_text level t @ msg @ [NL]))"

definition write_log :: "int \<Rightarrow> string \<Rightarrow> log_time \<Rightarrow> bool \<Rightarrow> kv_log \<Rightarrow> kv_log res" where
  "write_log level msg t open_ok l =
     (case log_fp l of
        None \<Rightarrow> Inr l
      | Some fp \<Rightarrow>
          (let l1 = l\<lparr>used_lines := used_lines l + 1\<rparr>;
               l2 = (if rotates t l1
                     then l1\<lparr>on_disk := appended l1,
                             log_fp := (if open_ok then Some (rotated_name t l1) else None)\<rparr> else l1)
           in case log_fp l2 of
                None \<Rightarrow> Inr l2
              | Some file \<Rightarrow>
                  bind_res (format_line level t msg (max_log_buffer_size l2)) (\<lambda>line.
                    Inr (l2\<lparr>appended := appended l2 @ [(file, line)]\<rparr>))))"

definition flush_log :: "kv_log \<Rightarrow> kv_log" where
  "flush_log l = (case log_fp l of None \<Rightarrow> l | Some _ \<Rightarrow> l\<lparr>on_disk := appended l\<rparr>)"

text \<open>The destructor closes the stream.\<close>

definition kv_log_destroy :: "kv_log \<Rightarrow> kv_log" where
  "kv_log_destroy l = (case log_fp l of None \<Rightarrow> l | Some _ \<Rightarrow> l\<lparr>on_disk := appended l, log_fp := None\<rparr>)"

text \<open>The macros \<open>LOG_DEBUG\<close>, \<open>LOG_INFO\<close>, \<open>LOG_WARN\<close> and \<open>LOG_ERROR\<close>: level 0 to 3.\<close>

definition LOG_FLAG :: bool where "LOG_FLAG = True"

definition LOG :: "int \<Rightarrow> string \<Rightarrow> log_time \<Rightarrow> bool \<Rightarrow> kv_log \<Rightarrow> kv_log res" where
  "LOG level msg t open_ok l =
     (if LOG_FLAG then bind_res (write_log level msg t open_ok l) (\<lambda>l'. Inr (flush_log l')) else Inr l)"

section \<open>Lines that fit\<close>

text \<open>A message that leaves room for the stamp, the newline and the zero.\<close>

definition line_fits :: "int \<Rightarrow> log_time \<Rightarrow> string \<Rightarrow> kv_log \<Rightarrow> bool" where
  "line_fits level t msg l = (int (length (stamp_text level t @ msg)) + 2 \<le> max_log_buffer_size l)"

lemma format_line_fits:
  assumes "line_fits level t msg l"
  shows "format_line level t msg (max_log_buffer_size l) =
    Inr (if 48 \<le> length (stamp_text level t) then take 47 (stamp_text level t) else stamp_text level t @ msg @ [NL])"
proof -
  have "length (c_snprintf (nat (max_log_buffer_size l - 1)) msg) \<le> length msg" by (simp add: c_snprintf_def)
  with assms show ?thesis by (simp add: format_line_def line_fits_def c_snprintf_def Let_def)
qed

text \<open>No message changes the size of the buffer.\<close>

lemma LOG_capacity: "LOG level msg t open_ok l = Inr l' \<Longrightarrow> max_log_buffer_size l' = max_log_buffer_size l"
  by (auto simp: LOG_def write_log_def flush_log_def bind_res_eq_Inr Let_def split: option.splits if_splits)

lemma LOG_returns:
  assumes "line_fits level t msg l"
  shows "\<exists>l'. LOG level msg t open_ok l = Inr l' \<and> max_log_buffer_size l' = max_log_buffer_size l"
proof (cases "log_fp l")
  case None
  then show ?thesis by (simp add: LOG_def write_log_def flush_log_def)
next
  case (Some fp)
  show ?thesis
  proof (cases "rotates t (l\<lparr>used_lines := used_lines l + 1\<rparr>) \<and> \<not> open_ok")
    case True
    with Some show ?thesis by (simp add: LOG_def write_log_def flush_log_def Let_def)
  next
    case False
    then show ?thesis
      using Some format_line_fits[OF assms] by (auto simp: LOG_def write_log_def flush_log_def Let_def)
  qed
qed

section \<open>Properties\<close>

definition june3 :: log_time where
  "june3 = \<lparr>tm_year = 126, tm_mon = 5, tm_mday = 3, tm_hour = 8, tm_min = 5, tm_sec = 9, tv_usec = 42\<rparr>"

lemma june3_stamp: "length (stamp_text level june3) < 48"
proof -
  have d: "length (show_int i) \<le> 1" if "0 \<le> i" "i < 10" for i
    using that length_show_nat[of "nat i" 0] by (simp add: show_int_def)
  have dd: "length (show_int i) \<le> 4" if "0 \<le> i" "i < 10000" for i
    using that length_show_nat[of "nat i" 3] by (simp add: show_int_def)
  have p: "length (pad_int w i) \<le> max w 4" if "0 \<le> i" "i < 10000" for w i
    using dd[OF that] by (simp add: pad_int_def Let_def)
  have p2: "length (pad_int 2 i) = 2" if "0 \<le> i" "i < 10" for i
    using d[OF that] by (simp add: pad_int_def Let_def)
  show ?thesis
    using dd[of 2026] p2[of 6] p2[of 3] p2[of 8] p2[of 5] p2[of 9] p[of 42 6]
    by (simp add: stamp_text_def june3_def label_of_def)
qed

lemma june3_log:
  "max_log_buffer_size (kv_log_new june3 True) = 1024" "max_log_lines (kv_log_new june3 True) = 1000000"
  "used_lines (kv_log_new june3 True) = 0" "today (kv_log_new june3 True) = tm_mday june3"
  "appended (kv_log_new june3 True) = []"
  by (simp_all add: kv_log_new_def log_init_def case_prod_unfold Let_def LOG_BUFFER_SIZE_def SPLIT_LINES_def
      split: option.splits)

text \<open>C12. On the day the log was opened, and until the number of lines reaches the limit, the macros put every message
  on disk as one line of the same file, in the order of the calls, if the messages fit the buffer and the stamps
  have less than 48 bytes.\<close>

theorem log_history:
  assumes "log_fp l = Some file" and "0 \<le> used_lines l" and "used_lines l + int (length calls) < max_log_lines l"
    and "\<forall>(level, msg, t) \<in> set calls. tm_mday t = today l \<and> length (stamp_text level t) < 48 \<and> line_fits level t msg l"
  shows "\<exists>l'. run_steps (\<lambda>(level, msg, t) l. bind_res (LOG level msg t open_ok l) (\<lambda>l'. Inr ((), l'))) calls l =
      Inr (map (\<lambda>_. ()) calls, l') \<and>
    on_disk l' = (if calls = [] then on_disk l
      else appended l @ map (\<lambda>(level, msg, t). (file, stamp_text level t @ msg @ [NL])) calls) \<and>
    used_lines l' = used_lines l + int (length calls) \<and> log_fp l' = Some file"
proof -
  let ?step = "\<lambda>(level, msg, t) l. bind_res (LOG level msg t open_ok l) (\<lambda>l'. Inr ((), l'))"
  let ?line = "\<lambda>(level, msg, t). (file, stamp_text level t @ msg @ [NL])"
  define l1 where "l1 = (\<lambda>(l :: kv_log) k. l\<lparr>used_lines := used_lines l + int (length k), appended := appended l @ map ?line k,
      on_disk := (if k = [] then on_disk l else appended l @ map ?line k)\<rparr>)"
  have "run_steps ?step calls l = Inr (map (\<lambda>_. ()) calls, l1 l calls)"
    using assms
  proof (induction calls arbitrary: l)
    case Nil
    then show ?case by (simp add: l1_def)
  next
    case (Cons c cs)
    obtain level msg t where c: "c = (level, msg, t)" by (cases c)
    let ?l = "l\<lparr>used_lines := used_lines l + 1\<rparr>"
    have "c_rem (used_lines ?l) (max_log_lines ?l) = used_lines l + 1"
      using Cons.prems(2,3) by (simp add: c_rem_nonneg)
    then have rot: "\<not> rotates t ?l" using Cons.prems(2,4) c by (simp add: rotates_def)
    have fits: "line_fits level t msg l" "length (stamp_text level t) < 48" using Cons.prems(4) c by auto
    have one: "LOG level msg t open_ok l = Inr (l1 l [c])"
      using Cons.prems(1) rot format_line_fits[OF fits(1)] fits(2) c
      by (simp add: LOG_def LOG_FLAG_def write_log_def flush_log_def l1_def Let_def)
    have "run_steps ?step cs (l1 l [c]) = Inr (map (\<lambda>_. ()) cs, l1 (l1 l [c]) cs)"
      using Cons.prems by (intro Cons.IH) (auto simp: l1_def line_fits_def)
    moreover have "l1 (l1 l [c]) cs = l1 l (c # cs)" by (simp add: l1_def c)
    ultimately show ?case using one c by simp
  qed
  then show ?thesis using assms(1) by (intro exI[of _ "l1 l calls"]) (auto simp: l1_def)
qed

theorem log_history_witness:
  "\<exists>file l'. log_fp (kv_log_new june3 True) = Some file \<and>
    run_steps (\<lambda>(level, msg, t) l. bind_res (LOG level msg t True l) (\<lambda>l'. Inr ((), l')))
      [(1, ''one'', june3), (3, ''two'', june3)] (kv_log_new june3 True) = Inr ([(), ()], l') \<and>
    on_disk l' = [(file, stamp_text 1 june3 @ ''one'' @ [NL]), (file, stamp_text 3 june3 @ ''two'' @ [NL])]"
proof -
  let ?l = "kv_log_new june3 True" and ?calls = "[(1, ''one'', june3), (3, ''two'', june3)] :: (int \<times> string \<times> log_time) list"
  obtain f where f: "log_fp ?l = Some f" by (simp add: kv_log_new_def log_init_def case_prod_unfold Let_def)
  have fits: "\<forall>(level, msg, t) \<in> set ?calls. tm_mday t = today ?l \<and> length (stamp_text level t) < 48 \<and> line_fits level t msg ?l"
    using june3_stamp[of 1] june3_stamp[of 3] by (simp add: june3_log line_fits_def)
  have room: "0 \<le> used_lines ?l" "used_lines ?l + int (length ?calls) < max_log_lines ?l"
    by (simp_all add: june3_log)
  from log_history[OF f room fits, of True] show ?thesis
    using f by (auto simp: june3_log)
qed

text \<open>C32. \<open>write_log\<close> on every branch, for a stamp of less than 48 bytes. A closed log ignores the message. An
  open one counts it, and keeps its file unless the day is not the one the log was opened on or the count is a
  multiple of the limit; then the file is flushed and closed and another opened, under the date between directory
  and name, with the number of the part when the day is the same. If that open fails the message is
  lost and the log closed. Otherwise one line, the stamp, the message and a newline, goes to the file if both and
  two more bytes fit into the buffer, and behind the buffer if they do not. Nothing updates the day the
  log was opened on, so from the next day on every line closes and opens the file.\<close>

theorem write_log_line:
  assumes "length (stamp_text level t) < 48" and "0 \<le> used_lines l" and "0 < max_log_lines l"
  shows "write_log level msg t open_ok l =
    (case log_fp l of
       None \<Rightarrow> Inr l
     | Some file \<Rightarrow>
         (let n = used_lines l + 1;
              next_day = (today l \<noteq> tm_mday t);
              new_file = (next_day \<or> n mod max_log_lines l = 0);
              dated = dir_name l @ take 15 (date_text t) @ log_name l;
              name = take 254 (if next_day then dated else dated @ ''.'' @ show_int (n div max_log_lines l));
              l' = l\<lparr>used_lines := n, on_disk := (if new_file then appended l else on_disk l)\<rparr>;
              line = stamp_text level t @ msg @ [NL]
          in if new_file \<and> \<not> open_ok then Inr (l'\<lparr>log_fp := None\<rparr>)
             else if max_log_buffer_size l < int (length line) + 1 then Inl Overflow_write
             else if new_file then Inr (l'\<lparr>log_fp := Some name, appended := appended l @ [(name, line)]\<rparr>)
             else Inr (l'\<lparr>appended := appended l @ [(file, line)]\<rparr>)))"
proof (cases "log_fp l")
  case None
  then show ?thesis by (simp add: write_log_def)
next
  case (Some f)
  let ?l1 = "l\<lparr>used_lines := used_lines l + 1\<rparr>"
  have rot: "rotates t ?l1 = (today l \<noteq> tm_mday t \<or> (used_lines l + 1) mod max_log_lines l = 0)"
    using assms(2) by (simp add: rotates_def c_rem_nonneg)
  have name: "rotated_name t ?l1 = take 254 (if today l \<noteq> tm_mday t then dir_name l @ take 15 (date_text t) @ log_name l
      else (dir_name l @ take 15 (date_text t) @ log_name l) @ ''.'' @ show_int ((used_lines l + 1) div max_log_lines l))"
    by (simp add: rotated_name_def c_snprintf_def Let_def)
  have "length (c_snprintf (nat (max_log_buffer_size l - 1)) msg) \<le> length msg" by (simp add: c_snprintf_def)
  then have line: "format_line level t msg (max_log_buffer_size l) =
      (if max_log_buffer_size l < int (length (stamp_text level t @ msg @ [NL])) + 1 then Inl Overflow_write
       else Inr (stamp_text level t @ msg @ [NL]))"
    using assms(1) by (auto simp: format_line_def Let_def)
  define new where "new = (today l \<noteq> tm_mday t \<or> (used_lines l + 1) mod max_log_lines l = 0)"
  show ?thesis unfolding write_log_def Some Let_def option.case rot name new_def[symmetric]
    by (cases new; cases open_ok) (simp_all add: line Some split: if_split)
qed

text \<open>A line on the day of the first file, one on the next day, and one whose file cannot be opened.\<close>

theorem write_log_line_witness:
  "let l = kv_log_new june3 True; next_day = l\<lparr>today := 2\<rparr> in
    \<exists>file other l1 l2. log_fp l = Some file \<and>
      write_log 1 ''hello'' june3 True l = Inr l1 \<and> appended l1 = [(file, stamp_text 1 june3 @ ''hello'' @ [NL])] \<and>
      write_log 1 ''hello'' june3 True next_day = Inr l2 \<and> appended l2 = [(other, stamp_text 1 june3 @ ''hello'' @ [NL])] \<and>
      today l2 = 2 \<and> log_fp l2 = Some other \<and>
      write_log 1 ''hello'' june3 False next_day = Inr (next_day\<lparr>used_lines := 1, on_disk := [], log_fp := None\<rparr>)"
proof -
  let ?l = "kv_log_new june3 True"
  obtain f where f: "log_fp ?l = Some f" by (simp add: kv_log_new_def log_init_def case_prod_unfold Let_def)
  have n: "0 \<le> used_lines ?l" "0 < max_log_lines ?l" "0 \<le> used_lines (?l\<lparr>today := 2\<rparr>)" "0 < max_log_lines (?l\<lparr>today := 2\<rparr>)"
    by (simp_all add: june3_log)
  have d: "tm_mday june3 = 3" by (simp add: june3_def)
  note one = write_log_line[OF june3_stamp n(1,2), of 1 "''hello''"] and
    two = write_log_line[OF june3_stamp n(3,4), of 1 "''hello''"]
  have fits: "\<not> 1024 < int (length (stamp_text 1 june3 @ ''hello'' @ [NL])) + 1" using june3_stamp[of 1] by simp
  show ?thesis unfolding Let_def one two using f fits by (simp add: june3_log d)
qed

end
