(* ===== verification/WebServer.thy ===== *)
theory WebServer
  imports ConnPool HttpTask TimerClock ThreadPool Epoll Tcp KvLog
begin

text \<open>
  The server, \<open>Webserver.{h,cpp}\<close>: the engine, the connection pool, the timers, the listening socket, the
  epoll registrations, the signal pipe and the log, with one definition per member function and
  \<open>handle_event\<close> for the body of the event loop. What the kernel answers (accepted descriptors, bytes on
  a socket, results of system calls, the time) and the contents of uninitialised memory are an
  argument of each step. What the server sends and which descriptors it closes are recorded in the state.
  \<open>THREAD_POOL_FLAG\<close> is false in the source, so handlers run in the event loop and the thread pool stays
  idle; a callback of the timer thread is one step. Console output is left out.
\<close>

definition TIME_OUT :: int where "TIME_OUT = 1"
definition MAX_EVENTS :: int where "MAX_EVENTS = 1024"
definition PORT :: int where "PORT = 2025"

datatype task = Timer_task int int | Timer_log int

text \<open>
  The members of the class, then the log, the installed signal handlers (with their restart flag),
  the signals sent to the pipe and not yet received, and the records of what went out.
\<close>

record server =
  sv_epoll :: epoll
  sv_tcp :: tcp_socket
  sv_threads :: thread_pool
  sv_pool :: conn_pool
  sv_clock :: "task clock"
  sv_pipe_fd :: "(int \<times> int) option"
  sv_stop_flag :: bool
  sv_kv :: kvstate
  sv_log :: kv_log
  sv_handlers :: "int \<Rightarrow> bool option"
  sv_pipe_data :: "int list"
  sv_sent :: "(int \<times> string) list"
  sv_closed :: "int list"

text \<open>The answers of the environment during one step.\<close>

record env =
  e_now :: int
  e_accept :: int
  e_peer :: sockaddr_in
  e_sock :: sock
  e_recv_error :: bool
  e_ctl :: int
  e_stk :: "nat \<Rightarrow> cptr"
  e_order :: "header_list \<Rightarrow> header_list"
  e_time :: log_time
  e_open :: bool

section \<open>Logging\<close>

definition log_at :: "int \<Rightarrow> string \<Rightarrow> env \<Rightarrow> server \<Rightarrow> server res" where
  "log_at level msg e s =
     bind_res (LOG level msg (e_time e) (e_open e) (sv_log s)) (\<lambda>l. Inr (s\<lparr>sv_log := l\<rparr>))"

definition LOG_INFO :: "string \<Rightarrow> env \<Rightarrow> server \<Rightarrow> server res" where
  "LOG_INFO msg e s = log_at 1 msg e s"

definition LOG_ERROR :: "string \<Rightarrow> env \<Rightarrow> server \<Rightarrow> server res" where
  "LOG_ERROR msg e s = log_at 3 msg e s"

text \<open>A format with one \<open>%d\<close>, expanded.\<close>

definition fd_msg :: "string \<Rightarrow> int \<Rightarrow> string \<Rightarrow> string" where
  "fd_msg before fd after = before @ show_int fd @ after"

section \<open>Timers\<close>

definition ws_add_timer :: "int \<Rightarrow> int \<Rightarrow> int \<Rightarrow> int \<Rightarrow> server \<Rightarrow> bool \<times> server" where
  "ws_add_timer now fd timeout version s =
     (let (ret, c) = add_timer now fd timeout (Some (Timer_task fd timeout)) version (sv_clock s)
      in (0 < ret, s\<lparr>sv_clock := c\<rparr>))"

definition ws_mod_timer :: "int \<Rightarrow> int \<Rightarrow> int \<Rightarrow> server \<Rightarrow> bool \<times> server" where
  "ws_mod_timer now fd timeout s =
     (let (ret, c) = mod_timer now fd timeout (Some (Timer_task fd timeout)) (sv_clock s)
      in (ret, s\<lparr>sv_clock := c\<rparr>))"

definition ws_del_timer :: "int \<Rightarrow> server \<Rightarrow> bool \<times> server" where
  "ws_del_timer fd s = (let (ret, c) = del_timer fd (sv_clock s) in (ret, s\<lparr>sv_clock := c\<rparr>))"

definition ws_del_all_timer :: "server \<Rightarrow> bool \<times> server" where
  "ws_del_all_timer s = (let (ret, c) = del_all_timer (sv_clock s) in (ret, s\<lparr>sv_clock := c\<rparr>))"

definition add_timer_log :: "int \<Rightarrow> int \<Rightarrow> int \<Rightarrow> int \<Rightarrow> server \<Rightarrow> bool \<times> server" where
  "add_timer_log now fd timeout version s =
     (let (ret, c) = add_timer now fd timeout (Some (Timer_log fd)) version (sv_clock s)
      in (ret \<noteq> 0, s\<lparr>sv_clock := c\<rparr>))"

section \<open>Connections\<close>

definition close_conn :: "env \<Rightarrow> int \<Rightarrow> server \<Rightarrow> (bool \<times> server) res" where
  "close_conn e conn_fd s =
     bind_res (pool_get conn_fd (sv_pool s)) (\<lambda>conn.
       if conn = Null_addr then Inr (False, s)
       else let s1 = s\<lparr>sv_epoll := snd (ep_del (e_ctl e) conn_fd (sv_epoll s))\<rparr>;
                s2 = snd (ws_del_timer conn_fd s1)
            in bind_res (Release conn (sv_pool s2)) (\<lambda>(closed, p).
                 let s3 = s2\<lparr>sv_pool := p,
                             sv_closed := sv_closed s2 @ (case closed of Some fd \<Rightarrow> [fd] | None \<Rightarrow> [])\<rparr>
                 in bind_res (LOG_INFO (fd_msg ''close conn fd: '' conn_fd []) e s3) (\<lambda>s4. Inr (True, s4))))"

text \<open>\<open>deal_NewConn\<close> returns \<open>false\<close>, that is the descriptor 0, when it fails.\<close>

definition deal_NewConn :: "env \<Rightarrow> server \<Rightarrow> (int \<times> server) res" where
  "deal_NewConn e s =
     bind_res (Accept_tcp (e_accept e) (sv_tcp s)) (\<lambda>conn_fd.
       if conn_fd < 0 then Inr (0, s)
       else let s1 = s\<lparr>sv_epoll := snd (ep_add (e_ctl e) conn_fd EPOLLIN (sv_epoll s))\<rparr>
            in bind_res (acquire (sv_pool s1)) (\<lambda>(conn, p).
                 if conn = Null_addr then Inr (0, s1\<lparr>sv_pool := p\<rparr>)
                 else bind_res (add_map conn_fd conn (e_peer e) (e_now e) p) (\<lambda>p'.
                        Inr (conn_fd, s1\<lparr>sv_pool := p'\<rparr>))))"

definition deal_Read :: "env \<Rightarrow> int \<Rightarrow> server \<Rightarrow> (bool \<times> server) res" where
  "deal_Read e conn_fd s0 =
     bind_res (pool_get conn_fd (sv_pool s0)) (\<lambda>conn.
       if conn = Null_addr then Inr (False, s0)
       else bind_res (LOG_INFO (fd_msg ''deal_Read conn fd: '' conn_fd []) e s0) (\<lambda>s.
         bind_res (pool_object (sv_pool s) conn) (\<lambda>c.
           bind_res (conn_read (e_sock e) (e_now e) c) (\<lambda>(ret, pending, c1).
             let s1 = s\<lparr>sv_pool := pool_update (sv_pool s) conn c1\<rparr>
             in if ret \<le> 0
                then bind_res (close_conn e conn_fd s1) (\<lambda>(r, s2).
                       bind_res (LOG_ERROR (fd_msg ''close conn fd: '' conn_fd []) e s2) (\<lambda>s3. Inr (False, s3)))
                else bind_res (convert_request registered_parsers c1) (\<lambda>(success, c2).
                  let s2 = s1\<lparr>sv_pool := pool_update (sv_pool s1) conn c2\<rparr>
                  in if \<not> success then Inr (False, s2)
                     else case ci_request c2 of
                       None \<Rightarrow> Inl Bad_pointer
                     | Some request \<Rightarrow>
                         (case get_handler (get_key_URL request) registered_routes of
                            None \<Rightarrow> Inr (False, s2)
                          | Some handler \<Rightarrow>
                              bind_res (run_handler (e_order e) (e_stk e) handler c2 (sv_kv s2)) (\<lambda>(sent, c3, kv').
                                Inr (True, s2\<lparr>sv_kv := kv',
                                  sv_pool := pool_update (sv_pool s2) conn (c3\<lparr>ci_last_active_time := e_now e\<rparr>),
                                  sv_sent := sv_sent s2 @ sent\<rparr>))))))))"

definition timer_task :: "env \<Rightarrow> int \<Rightarrow> int \<Rightarrow> server \<Rightarrow> (bool \<times> server) res" where
  "timer_task e fd timeout s =
     bind_res (pool_get fd (sv_pool s)) (\<lambda>conn.
       if conn = Null_addr then Inr (False, s)
       else bind_res (pool_object (sv_pool s) conn) (\<lambda>c.
         if ci_last_active_time c + timeout \<le> e_now e
         then bind_res (LOG_ERROR (fd_msg ''conn fd: '' fd '' timeout'') e s) (\<lambda>s1.
                bind_res (close_conn e fd s1) (\<lambda>(r, s'). Inr (True, s')))
         else Inr (False, s)))"

section \<open>Signals\<close>

definition SIGINT :: int where "SIGINT = 2"
definition SIGTERM :: int where "SIGTERM = 15"

text \<open>\<open>ret\<close> is the answer of \<open>sigaction\<close>, which is asserted not to fail.\<close>

definition add_sig :: "int \<Rightarrow> int \<Rightarrow> bool \<Rightarrow> server \<Rightarrow> server res" where
  "add_sig ret signal restart s =
     (if ret = - 1 then Inl Assert_failed else Inr (s\<lparr>sv_handlers := (sv_handlers s)(signal \<mapsto> restart)\<rparr>))"

text \<open>The handler sends the number of the signal to the pipe, once there is one.\<close>

definition sigint_handler :: "int \<Rightarrow> server \<Rightarrow> server" where
  "sigint_handler signal s =
     (case sv_pipe_fd s of None \<Rightarrow> s | Some _ \<Rightarrow> s\<lparr>sv_pipe_data := sv_pipe_data s @ [signal]\<rparr>)"

text \<open>
  A signal without a handler has its default action. It ends the process, except for the Linux signals
  that are ignored (SIGCHLD, SIGCONT, SIGURG, SIGWINCH) or suspend the process until it is continued
  (SIGSTOP, SIGTSTP, SIGTTIN, SIGTTOU). SIGPIPE, which \<open>send\<close> raises when the peer has closed its end, ends it.
\<close>

definition SIGPIPE :: int where "SIGPIPE = 13"

definition outlived :: "int \<Rightarrow> bool" where
  "outlived sig = (sig \<in> {17, 18, 19, 20, 21, 22, 23, 28})"

fun deliver :: "int list \<Rightarrow> server \<Rightarrow> server res" where
  "deliver [] s = Inr s"
| "deliver (sig # sigs) s =
     (case sv_handlers s sig of
        None \<Rightarrow> if outlived sig then deliver sigs s else Inl Exits
      | Some _ \<Rightarrow> deliver sigs (sigint_handler sig s))"

text \<open>
  \<open>recv\<close> takes up to 1024 numbers from the pipe. It waits when there are none; an error is an answer of
  the environment.
\<close>

fun scan_signals :: "int list \<Rightarrow> bool \<Rightarrow> bool" where
  "scan_signals [] stop_server = stop_server"
| "scan_signals (sig # sigs) stop_server =
     scan_signals sigs (if sig = SIGTERM \<or> sig = SIGINT then True else stop_server)"

definition del_signal :: "env \<Rightarrow> server \<Rightarrow> (bool \<times> server) res" where
  "del_signal e s =
     (if e_recv_error e then Inr (False, s)
      else if sv_pipe_data s = [] then Inl Blocks
      else Inr (True, s\<lparr>sv_stop_flag := scan_signals (take 1024 (sv_pipe_data s)) (sv_stop_flag s),
                        sv_pipe_data := drop 1024 (sv_pipe_data s)\<rparr>))"

section \<open>The event loop\<close>

definition handle_event :: "env \<Rightarrow> event \<Rightarrow> server \<Rightarrow> server res" where
  "handle_event e ev s =
     bind_res (get_listen_fd (sv_tcp s)) (\<lambda>listen_fd.
       if ev_fd ev = listen_fd then
         bind_res (deal_NewConn e s) (\<lambda>(conn_fd, s1).
           LOG_INFO (fd_msg ''add_timer conn fd: '' conn_fd []) e
             (snd (ws_add_timer (e_now e) conn_fd TIME_OUT 1 s1)))
       else if ev_events ev AND (EPOLLERR OR EPOLLHUP OR EPOLLRDHUP) \<noteq> 0 then
         bind_res (close_conn e (ev_fd ev) s) (\<lambda>(r, s1).
           LOG_ERROR (fd_msg ''close conn fd: '' (ev_fd ev) []) e s1)
       else case sv_pipe_fd s of
         None \<Rightarrow> Inl Bad_pointer
       | Some (pipe_read, pipe_write) \<Rightarrow>
           if ev_fd ev = pipe_read \<and> ev_events ev AND EPOLLIN \<noteq> 0 then
             bind_res (del_signal e s) (\<lambda>(success, s1).
               if \<not> success then LOG_ERROR ''del_signal failed'' e s1 else Inr s1)
           else if ev_events ev AND EPOLLIN \<noteq> 0 then
             bind_res (deal_Read e (ev_fd ev) s) (\<lambda>(r, s1).
               LOG_INFO (fd_msg ''mod_timer conn fd: '' (ev_fd ev) []) e
                 (snd (ws_mod_timer (e_now e) (ev_fd ev) TIME_OUT s1)))
           else Inr s)"

text \<open>The events of one return of \<open>epoll_wait\<close>; the stop flag ends the round.\<close>

fun event_round :: "(env \<times> event) list \<Rightarrow> server \<Rightarrow> server res" where
  "event_round [] s = Inr s"
| "event_round ((e, ev) # evs) s =
     (if sv_stop_flag s then Inr s else bind_res (handle_event e ev s) (\<lambda>s'. event_round evs s'))"

text \<open>
  One turn of the loop: the signals that arrive while it waits, the answer of \<open>epoll_wait\<close> and the
  events that are ready, and the answers of the environment while each of them is handled.
\<close>

record round =
  rd_signals :: "int list"
  rd_ret :: int
  rd_ready :: "event list"
  rd_env :: "nat \<Rightarrow> env"

definition loop_turn :: "round \<Rightarrow> server \<Rightarrow> server res" where
  "loop_turn r s0 =
     bind_res (deliver (rd_signals r) s0) (\<lambda>s.
       bind_res (get_epoll_fd (sv_epoll s)) (\<lambda>epfd.
         let (ret, ep) = ep_wait (rd_ret r) (rd_ready r) (sv_epoll s); s1 = s\<lparr>sv_epoll := ep\<rparr>
         in if ret < 0 then Inr s1
            else if ret = 0 then Inr s1
            else event_round (map (\<lambda>i. (rd_env r i, ep_events_ref ep ! i)) [0..<nat ret]) s1))"

fun event_turns :: "round list \<Rightarrow> server \<Rightarrow> (bool \<times> server) res" where
  "event_turns [] s = Inr (sv_stop_flag s, s)"
| "event_turns (r # rs) s =
     (if sv_stop_flag s then Inr (True, s) else bind_res (loop_turn r s) (\<lambda>s'. event_turns rs s'))"

text \<open>The loop over given turns: whether it has ended, and the server.\<close>

definition EventLoop :: "env \<Rightarrow> round list \<Rightarrow> server \<Rightarrow> (bool \<times> server) res" where
  "EventLoop e rounds s = bind_res (LOG_INFO ''server start'' e s) (\<lambda>s1. event_turns rounds s1)"

text \<open>The timer thread: the callbacks that \<open>handle_timer\<close> collected, one after the other.\<close>

fun run_callbacks :: "env \<Rightarrow> task list \<Rightarrow> server \<Rightarrow> server res" where
  "run_callbacks e [] s = Inr s"
| "run_callbacks e (Timer_task fd timeout # cbs) s =
     bind_res (timer_task e fd timeout s) (\<lambda>(r, s'). run_callbacks e cbs s')"
| "run_callbacks e (Timer_log fd # cbs) s = run_callbacks e cbs s"

definition fire_timers :: "env \<Rightarrow> server \<Rightarrow> server res" where
  "fire_timers e s =
     (let (cbs, c) = handle_timer (e_now e) (sv_clock s) in run_callbacks e cbs (s\<lparr>sv_clock := c\<rparr>))"

section \<open>Starting and stopping\<close>

text \<open>What the environment answers to the constructor.\<close>

record start_env =
  st_epoll_fd :: int
  st_sockets :: sock_answers
  st_concurrency :: nat
  st_malloc :: bool
  st_socketpair :: int
  st_pipe :: "int \<times> int"
  st_add_pipe :: int
  st_sigaction :: int
  st_add_listen :: int
  st_log :: kv_log
  st_kv :: kvstate
  st_readable :: bool

text \<open>
  The members are built in the order of their declaration; then the pipe, the signal handlers, the
  registration of the listening socket, and the engine, which loads the file.
\<close>

definition Webserver_new :: "start_env \<Rightarrow> string option \<Rightarrow> server res" where
  "Webserver_new a db =
     bind_res (Epoll_new MAX_EVENTS (st_epoll_fd a)) (\<lambda>ep.
       bind_res (fst (tcp_socket_new PORT (st_sockets a))) (\<lambda>tcp.
         bind_res (Conn_pool_new 10240 1024 (st_malloc a)) (\<lambda>p.
           let s0 = \<lparr>sv_epoll = ep, sv_tcp = tcp, sv_threads = pthreads_new (st_concurrency a), sv_pool = p,
                     sv_clock = Thread_clockr_new, sv_pipe_fd = Some (st_pipe a), sv_stop_flag = False,
                     sv_kv = st_kv a, sv_log = st_log a, sv_handlers = (\<lambda>_. None), sv_pipe_data = [],
                     sv_sent = [], sv_closed = []\<rparr>
           in if st_socketpair a < 0 then Inl (Throws Runtime_error)
              else let (r1, ep1) = ep_add (st_add_pipe a) (fst (st_pipe a)) EPOLLIN ep
                   in if r1 < 0 then Inl (Throws Runtime_error)
                      else bind_res (add_sig (st_sigaction a) SIGINT True (s0\<lparr>sv_epoll := ep1\<rparr>)) (\<lambda>s1.
                        bind_res (add_sig (st_sigaction a) SIGTERM True s1) (\<lambda>s2.
                          bind_res (get_listen_fd (sv_tcp s2)) (\<lambda>listen_fd.
                            let (r2, ep2) = ep_add (st_add_listen a) listen_fd EPOLLIN (sv_epoll s2)
                            in if r2 < 0 then Inl (Throws Runtime_error)
                               else bind_res (init_kvengine (st_readable a) db (sv_kv s2)) (\<lambda>kv.
                                      Inr (s2\<lparr>sv_epoll := ep2, sv_kv := kv\<rparr>))))))))"

text \<open>The body of the destructor closes the pipe and saves the table.\<close>

definition Webserver_shutdown :: "bool \<Rightarrow> string option \<Rightarrow> server \<Rightarrow> (string option \<times> server) res" where
  "Webserver_shutdown writable db s =
     (let s1 = (case sv_pipe_fd s of
                  None \<Rightarrow> s
                | Some (r, w) \<Rightarrow> s\<lparr>sv_closed := sv_closed s @ [r, w], sv_pipe_fd := None\<rparr>)
      in bind_res (exit_kvengine writable db (sv_kv s1)) (\<lambda>(db', kv'). Inr (db', s1\<lparr>sv_kv := kv'\<rparr>)))"

text \<open>
  Then the members are destroyed, the last one declared first: the timers, the pool, the threads, the
  listening socket, epoll.
\<close>

definition destroy_members :: "server \<Rightarrow> server res" where
  "destroy_members s =
     (let s1 = s\<lparr>sv_clock := clock_stop (sv_clock s)\<rparr>
      in bind_res (Conn_pool_destroy (sv_pool s1)) (\<lambda>fds.
           let (epfd, ep) = Epoll_destroy (sv_epoll s1)
           in Inr (s1\<lparr>sv_threads := pthreads_destroy (sv_threads s1), sv_epoll := ep,
                      sv_closed := sv_closed s1 @ fds @
                        (if 0 \<le> tcp_socket_fd (sv_tcp s1) then [tcp_socket_fd (sv_tcp s1)] else []) @
                        (case epfd of Some fd \<Rightarrow> [fd] | None \<Rightarrow> [])\<rparr>)))"

definition Webserver_destroy :: "bool \<Rightarrow> string option \<Rightarrow> server \<Rightarrow> (string option \<times> server) res" where
  "Webserver_destroy writable db s =
     bind_res (Webserver_shutdown writable db s) (\<lambda>(db', s1).
       bind_res (destroy_members s1) (\<lambda>s2. Inr (db', s2)))"

text \<open>
  \<open>main\<close>, as far as the given turns of the loop take it: the file when the process has ended, or
  the server that is still running.
\<close>

definition main_program ::
  "start_env \<Rightarrow> string option \<Rightarrow> env \<Rightarrow> round list \<Rightarrow> bool \<Rightarrow> ((string option \<times> server) + server) res" where
  "main_program a db e rounds writable =
     bind_res (Webserver_new a db) (\<lambda>s.
       bind_res (EventLoop e rounds s) (\<lambda>(ended, s').
         if ended then bind_res (Webserver_destroy writable db s') (\<lambda>r. Inr (Inl r))
         else Inr (Inr s')))"

section \<open>What logging needs and leaves alone\<close>

text \<open>
  A log message of the server fits when the buffer has its size, the stamp is not absurdly long and
  the descriptor is a 32-bit number.
\<close>

definition log_ready :: "env \<Rightarrow> server \<Rightarrow> bool" where
  "log_ready e s = (max_log_buffer_size (sv_log s) = LOG_BUFFER_SIZE \<and>
     (\<forall>level. length (stamp_text level (e_time e)) \<le> 100))"

lemma length_show_int: "int32 i \<Longrightarrow> length (show_int i) \<le> 11"
proof -
  assume i: "int32 i"
  then have "nat (abs i) < 10 ^ Suc 9" by (auto simp: int32_def nat_less_iff abs_if)
  then have "length (show_nat (nat (abs i))) \<le> Suc 9" by (rule length_show_nat)
  then show ?thesis by (cases "i < 0") (simp_all add: show_int_def)
qed

lemma fd_msg_fits [simp]: "int32 fd \<Longrightarrow> length a + length b \<le> 80 \<Longrightarrow> length (fd_msg a fd b) \<le> 100"
  using length_show_int[of fd] by (simp add: fd_msg_def)

text \<open>The server after a message.\<close>

definition logged :: "int \<Rightarrow> string \<Rightarrow> env \<Rightarrow> server \<Rightarrow> server" where
  "logged level msg e s = s\<lparr>sv_log := projr (LOG level msg (e_time e) (e_open e) (sv_log s))\<rparr>"

lemma logged_fields [simp]:
  "sv_epoll (logged l msg e s) = sv_epoll s" "sv_tcp (logged l msg e s) = sv_tcp s"
  "sv_threads (logged l msg e s) = sv_threads s" "sv_pool (logged l msg e s) = sv_pool s"
  "sv_clock (logged l msg e s) = sv_clock s" "sv_pipe_fd (logged l msg e s) = sv_pipe_fd s"
  "sv_stop_flag (logged l msg e s) = sv_stop_flag s" "sv_kv (logged l msg e s) = sv_kv s"
  "sv_handlers (logged l msg e s) = sv_handlers s" "sv_pipe_data (logged l msg e s) = sv_pipe_data s"
  "sv_sent (logged l msg e s) = sv_sent s" "sv_closed (logged l msg e s) = sv_closed s"
  by (simp_all add: logged_def)

lemma LOG_fits:
  assumes "log_ready e s" and "length msg \<le> 100"
  shows "\<exists>l. LOG level msg (e_time e) (e_open e) (sv_log s) = Inr l \<and> max_log_buffer_size l = LOG_BUFFER_SIZE"
proof -
  have len: "length (stamp_text level (e_time e)) \<le> 100" using assms(1) by (simp add: log_ready_def)
  have cap: "max_log_buffer_size (sv_log s) = 1024" using assms(1) by (simp add: log_ready_def LOG_BUFFER_SIZE_def)
  have "line_fits level (e_time e) msg (sv_log s)" unfolding line_fits_def cap length_append using len assms(2) by linarith
  from LOG_returns[OF this] cap show ?thesis by (simp add: LOG_BUFFER_SIZE_def)
qed

lemma log_at_logged:
  "log_ready e s \<Longrightarrow> length msg \<le> 100 \<Longrightarrow> log_at level msg e s = Inr (logged level msg e s)"
  using LOG_fits[of e s msg level] by (auto simp: log_at_def logged_def)

lemma LOG_ok [simp]:
  "log_ready e s \<Longrightarrow> length msg \<le> 100 \<Longrightarrow> LOG_INFO msg e s = Inr (logged 1 msg e s)"
  "log_ready e s \<Longrightarrow> length msg \<le> 100 \<Longrightarrow> LOG_ERROR msg e s = Inr (logged 3 msg e s)"
  by (simp_all add: LOG_INFO_def LOG_ERROR_def log_at_logged)

lemma log_ready_logged [simp]:
  "log_ready e s \<Longrightarrow> length msg \<le> 100 \<Longrightarrow> log_ready e' (logged level msg e s) = log_ready e' s"
  using LOG_fits[of e s msg level] by (auto simp: log_ready_def logged_def)

lemma log_ready_updates [simp]:
  "log_ready e (s\<lparr>sv_epoll := x1\<rparr>) = log_ready e s" "log_ready e (s\<lparr>sv_pool := x2\<rparr>) = log_ready e s"
  "log_ready e (s\<lparr>sv_clock := x3\<rparr>) = log_ready e s" "log_ready e (s\<lparr>sv_kv := x4\<rparr>) = log_ready e s"
  "log_ready e (s\<lparr>sv_sent := x5\<rparr>) = log_ready e s" "log_ready e (s\<lparr>sv_closed := x6\<rparr>) = log_ready e s"
  "log_ready e (s\<lparr>sv_stop_flag := x7\<rparr>) = log_ready e s" "log_ready e (s\<lparr>sv_pipe_data := x8\<rparr>) = log_ready e s"
  by (simp_all add: log_ready_def)

text \<open>Whatever it does, a message changes nothing but the log.\<close>

lemma LOG_others:
  "LOG_INFO msg e s = Inr s' \<Longrightarrow> s' = s\<lparr>sv_log := sv_log s'\<rparr>"
  "LOG_ERROR msg e s = Inr s' \<Longrightarrow> s' = s\<lparr>sv_log := sv_log s'\<rparr>"
  by (auto simp: LOG_INFO_def LOG_ERROR_def log_at_def bind_res_eq_Inr)

end
