(* ===== verification/KvProps.thy ===== *)
theory KvProps
  imports KvSpec
begin

text \<open>
  The properties of the key-value engine, \<open>kv_core/\<close>. \<open>boot\<close> is the engine right after
  \<open>kvstore_hash_create\<close> on an allocator that never refuses; the witnesses start from it.
\<close>

definition boot :: kvstate where
  "boot = snd (kvstore_hash_create Ref_Hash (boot_state (\<lambda>_. False) (\<lambda>_. 0)))"

lemma boot_ok: "kv_rel boot Map.empty" "plenty boot"
  unfolding boot_def by (rule boot_rel, simp add: zeroed_def, rule boot_plenty)

lemma ascii_hashable: "hashable ''k''" "hashable ''l''"
  by (rule hashable_if_ascii, simp)+

lemma show_nat_1: "show_nat (Suc 0) = ''1''"
  by (subst show_nat.simps) (simp add: digit_char_def char_of_def bit_0)

lemma boot_one_key:
  "\<exists>s. kv_rel s [''k'' \<mapsto> ''v''] \<and> plenty s"
  using tbl.set_new[OF boot_ok ascii_hashable(1), of "''v''"] by auto

section \<open>The blocks a table owns\<close>

definition live_blocks :: "kvstate \<Rightarrow> addr set" where
  "live_blocks s = {b. h_blk (hp s) b \<noteq> None}"

lemma live_blocks_card:
  assumes "kv_rel s m"
  shows "finite (live_blocks s)" and "card (live_blocks s) = 1 + 3 * card (dom m)"
proof -
  obtain E where E: "table_rel s E" "m = contents E" using assms by (auto simp: kv_rel_def)
  obtain f where sh: "shape (hp s) (ht_nodes (Hash s)) f E" using E(1) by (rule table_relE)
  let ?A = "\<Union>i < MAX_TABLE_SIZE. set (addrs (E i))"
  have live: "live_blocks s = insert (ht_nodes (Hash s)) ?A"
    using shape_owned[OF sh] shape_array[OF sh] chain_live[OF shape_chain[OF sh]]
    by (fastforce simp: live_blocks_def)
  show "finite (live_blocks s)" by (simp add: live)
  have "card ?A = (\<Sum>i < MAX_TABLE_SIZE. card (set (addrs (E i))))"
    using shape_disjoint[OF sh] by (intro card_UN_disjoint) auto
  also have "\<dots> = (\<Sum>i < MAX_TABLE_SIZE. 3 * length (E i))"
    using shape_addrs(3)[OF sh] by (intro sum.cong) (auto simp: distinct_card length_addrs)
  also have "\<dots> = 3 * cells E" by (simp add: cells_def sum_distrib_left)
  finally have "card ?A = 3 * card (dom m)" using cells_card(2)[OF table_rel_keys[OF E(1)]] E(2) by simp
  moreover have "ht_nodes (Hash s) \<notin> ?A" using shape_addrs(2)[OF sh] by auto
  ultimately show "card (live_blocks s) = 1 + 3 * card (dom m)" by (simp add: live)
qed

section \<open>Properties\<close>

text \<open>C1. Any sequence of well-formed requests gets, from \<open>kvstore_request\<close>, exactly the replies the
  specification gives for a map, and leaves a table that stands for the map of the specification:
  \<open>HSET\<close> never overwrites, \<open>HMOD\<close> only overwrites, \<open>HDEL\<close> removes, \<open>HCOUNT\<close> counts the keys.\<close>

theorem engine_history:
  assumes "kv_rel s m" and "plenty s" and "\<forall>c \<in> set cs. command_ok c"
  shows "\<exists>s'. run_steps (serve_command stk) cs s = Inr (fst (spec_run spec_command cs m), s') \<and>
    kv_rel s' (snd (spec_run spec_command cs m)) \<and> plenty s'"
  using eng.run_refines[of s m cs stk] assms by blast

theorem engine_history_witness:
  "\<exists>s'. run_steps (serve_command (\<lambda>_. Wild))
      [HSet ''k'' ''v'', HSet ''k'' ''w'', HGet ''k'', HMod ''k'' ''x'', HGet ''k'', HCount, HDel ''k'', HGet ''k'']
      boot =
    Inr ([Some ''SUCCESS'', Some ''EXISTS'', Some ''v'', Some ''SUCCESS'', Some ''x'', Some ''1'',
          Some ''SUCCESS'', Some ''NO EXIST''], s') \<and> kv_rel s' Map.empty"
  using engine_history[OF boot_ok, of
      "[HSet ''k'' ''v'', HSet ''k'' ''w'', HGet ''k'', HMod ''k'' ''x'', HGet ''k'', HCount, HDel ''k'', HGet ''k'']"
      "\<lambda>_. Wild"] ascii_hashable
  by (auto simp: word_ok_def Let_def show_nat_1)

text \<open>C6. A map whose pairs fit on a line of the file, without separators in the keys, survives
  \<open>exit_kvengine\<close> followed by \<open>init_kvengine\<close> in a new process.\<close>

theorem engine_restart:
  assumes "kv_rel s m" and "\<And>k v. m k = Some v \<Longrightarrow> storable (k, v)" and "zeroed junk"
  shows "\<exists>file' s1 s2. exit_kvengine True file s = Inr (Some file', s1) \<and>
    init_kvengine True (Some file') (boot_state (\<lambda>_. False) junk) = Inr s2 \<and> kv_rel s2 m \<and> plenty s2"
  by (rule restart) (rule assms, rule assms(2), simp, rule assms(3))

theorem engine_restart_witness:
  "\<exists>s file' s1 s2. kv_rel s [''k'' \<mapsto> ''v''] \<and> exit_kvengine True None s = Inr (Some file', s1) \<and>
    init_kvengine True (Some file') (boot_state (\<lambda>_. False) (\<lambda>_. 0)) = Inr s2 \<and>
    hash_value ''k'' s2 = Inr (Some ''v'')"
proof -
  obtain s where s: "kv_rel s [''k'' \<mapsto> ''v'']" using boot_one_key by blast
  have st: "storable (k, v)" if "[''k'' \<mapsto> ''v''] k = Some v" for k v :: string
    using that by (auto simp: storable_def BUFFER_LENGTH_def split: if_splits)
  have "zeroed (\<lambda>_. 0)" by (simp add: zeroed_def)
  from engine_restart[OF s st this, of None] s tbl.get_law ascii_hashable(1) show ?thesis by fastforce
qed

text \<open>C7. No request leaks or loses memory: after any sequence of well-formed requests exactly the
  bucket array and three blocks for every key are live.\<close>

theorem engine_memory:
  assumes "kv_rel s m" and "plenty s" and "\<forall>c \<in> set cs. command_ok c"
  shows "\<exists>rs s'. run_steps (serve_command stk) cs s = Inr (rs, s') \<and>
    card (live_blocks s') = 1 + 3 * card (dom (snd (spec_run spec_command cs m)))"
proof -
  obtain s' where s': "run_steps (serve_command stk) cs s = Inr (fst (spec_run spec_command cs m), s')"
    "kv_rel s' (snd (spec_run spec_command cs m))"
    using eng.run_refines[of s m cs stk] assms by blast
  from s'(1) live_blocks_card(2)[OF s'(2)] show ?thesis by blast
qed

theorem engine_memory_witness:
  "\<exists>rs s'. run_steps (serve_command (\<lambda>_. Null)) [HSet ''k'' ''v'', HSet ''l'' ''w'', HDel ''k''] boot =
    Inr (rs, s') \<and> card (live_blocks s') = 4"
proof -
  have "dom (snd (spec_run spec_command [HSet ''k'' ''v'', HSet ''l'' ''w'', HDel ''k''] Map.empty)) = {''l''}"
    by (auto simp: Let_def split: if_splits)
  then show ?thesis
    using engine_memory[OF boot_ok, of "[HSet ''k'' ''v'', HSet ''l'' ''w'', HDel ''k'']" "\<lambda>_. Null"]
      ascii_hashable by (simp add: word_ok_def)
qed

text \<open>C25. \<open>dest_hashtable\<close> terminates on a well-formed table without a fault, and leaves two live blocks
  for every key of the table: it frees the cells and the array, not the keys and values.\<close>

theorem destroy_leaks:
  assumes "kv_rel s m"
  shows "\<exists>s'. dest_hashtable Ref_Hash s = Inr s' \<and> card (live_blocks s') = 2 * card (dom m)"
proof -
  obtain E where E: "table_rel s E" "m = contents E" using assms by (auto simp: kv_rel_def)
  from dest_hashtable_ok[OF E(1)] card_leaked[OF E(1)] cells_card(2)[OF table_rel_keys[OF E(1)]] E(2)
  show ?thesis by (auto simp: live_blocks_def)
qed

theorem destroy_leaks_witness:
  "\<exists>s s'. kv_rel s [''k'' \<mapsto> ''v''] \<and> dest_hashtable Ref_Hash s = Inr s' \<and> card (live_blocks s') = 2"
proof -
  obtain s where s: "kv_rel s [''k'' \<mapsto> ''v'']" using boot_one_key by blast
  from destroy_leaks[OF s] s show ?thesis by auto
qed

text \<open>The bucket array is never cleared. If the memory it got holds a non-zero value in the slot of
  a key (other than the address of a live block), the first lookup of that key in the new table
  dereferences a wild pointer.\<close>

theorem init_uncleared:
  assumes "\<not> fail 1" and "hashable k" and "1 < junk (slot k)"
  shows "kvs_hash_get Ref_Hash (Str k) (snd (kvstore_hash_create Ref_Hash (boot_state fail junk))) =
    Inl Bad_pointer"
  unfolding kvs_hash_get_def kvstore_hash_create_def using assms by (rule init_junk_wild)

theorem init_uncleared_witness:
  "kvs_hash_get Ref_Hash (Str ''k'')
     (snd (kvstore_hash_create Ref_Hash (boot_state (\<lambda>_. False) (\<lambda>_. 7)))) = Inl Bad_pointer"
  by (rule init_uncleared[OF _ ascii_hashable(1)]) simp_all

text \<open>\<open>char\<close> is signed: a key whose characters sum to a negative number that is no multiple of the
  table size has a negative index, and every operation on it accesses the array out of bounds.\<close>

theorem negative_hash_out_of_bounds:
  assumes "kv_rel s m" and "hash_sum 0 k < 0" and "hash_sum 0 k mod int MAX_TABLE_SIZE \<noteq> 0"
  shows "kvs_hash_get Ref_Hash (Str k) s = Inl Out_of_bounds \<and>
    kvs_hash_set Ref_Hash (Str k) (Str v) s = Inl Out_of_bounds \<and>
    kvs_hash_delete Ref_Hash (Str k) s = Inl Out_of_bounds \<and>
    kvs_hash_modify Ref_Hash (Str k) (Str v) s = Inl Out_of_bounds"
proof -
  have "hash_index k \<noteq> 0"
    using assms(2,3) by (auto simp: hash_index_def c_rem_def mod_eq_0_iff_dvd)
  moreover have "hash_index k \<le> 0" using assms(2) by (simp add: hash_index_def c_rem_def)
  ultimately have "\<not> hashable k" by (simp add: hashable_def)
  from negative_index[OF assms(1) this] show ?thesis
    by (simp add: kvs_hash_get_def kvs_hash_set_def kvs_hash_delete_def)
qed

theorem negative_hash_out_of_bounds_witness:
  "kvs_hash_set Ref_Hash (Str [CHR 0xE9, CHR 0x94, CHR 0xAE]) (Str ''v'') boot = Inl Out_of_bounds"
proof -
  have "hash_sum 0 [CHR 0xE9, CHR 0x94, CHR 0xAE] = - 213" by (simp add: schar_def Let_def of_char_def)
  then show ?thesis
    using negative_hash_out_of_bounds[OF boot_ok(1), of "[CHR 0xE9, CHR 0x94, CHR 0xAE]" "''v''"]
    by (simp add: MAX_TABLE_SIZE_def)
qed

text \<open>A refused allocation is fatal. Inserting a new key then writes through a null pointer,
  because the result of \<open>_create_node\<close> is not tested; modifying a key stops at \<open>assert(0)\<close>.\<close>

theorem refused_allocation:
  assumes "kv_rel s m" and "hashable k" and "\<not> allocs_ok 1 (hp s)"
  shows "(m k = None \<longrightarrow> kvs_hash_set Ref_Hash (Str k) (Str v) s = Inl Bad_pointer) \<and>
    (m k \<noteq> None \<longrightarrow> kvs_hash_modify Ref_Hash (Str k) (Str v) s = Inl Assert_failed)"
proof -
  have "\<not> allocs_ok 3 (hp s)" using assms(3) by (auto simp: allocs_ok_def intro!: bexI[of _ 1])
  with kv_rel_put(2)[OF assms(1,2)] kv_rel_modify(2)[OF assms(1,2)] assms(3) show ?thesis by blast
qed

theorem refused_allocation_witness:
  "kvs_hash_set Ref_Hash (Str ''k'') (Str ''v'')
     (snd (kvstore_hash_create Ref_Hash (boot_state (\<lambda>a. 1 < a) (\<lambda>_. 0)))) = Inl Bad_pointer"
proof -
  let ?s = "snd (init_hashtable Ref_Hash (boot_state (\<lambda>a. 1 < a) (\<lambda>_. 0)))"
  have "kv_rel ?s Map.empty" by (rule init_zeroed_rel) (simp_all add: zeroed_def)
  moreover have "\<not> allocs_ok 1 (hp ?s)" by (simp add: init_ok allocs_ok_def)
  ultimately show ?thesis
    using refused_allocation[of ?s Map.empty "''k''" "''v''"] ascii_hashable(1)
    by (simp add: kvstore_hash_create_def)
qed

text \<open>\<open>HSET\<close> without a value reads slot 2 of the uninitialised token array: a null there is answered
  \<open>ERROR\<close>, a leftover string is stored under the key as if the client had sent it, and any other
  pointer is dereferenced.\<close>

theorem hset_without_value:
  assumes "kv_rel s m" and "plenty s" and "hashable k" and "m k = None" and "c_words msg = [''HSET'', k]"
  shows "\<exists>m'. (stk 2 = Null \<longrightarrow> kvstore_request (Str msg) (Some w) stk s = Inr (0, Some ''ERROR'', m', s)) \<and>
    (stk 2 = Wild \<longrightarrow> kvstore_request (Str msg) (Some w) stk s = Inl Bad_pointer) \<and>
    (\<forall>junk. stk 2 = Str junk \<longrightarrow>
       (\<exists>s'. kvstore_request (Str msg) (Some w) stk s = Inr (0, Some ''SUCCESS'', m', s') \<and>
         kv_rel s' (m(k \<mapsto> junk))))"
proof -
  let ?t = "with_words [''HSET'', k] stk"
  obtain m' where req: "kvstore_request (Str msg) (Some w) stk s =
      bind_res (kvstore_parser_protocol (Some w) ?t 2 s) (\<lambda>(w, s'). Inr (0, w, m', s'))"
    using request_words[OF assms(5), of "Some w" stk s] by (auto simp: KVSTORE_MAX_TOKENS_def)
  have t: "?t 0 = Str ''HSET''" "?t 1 = Str k" "?t 2 = stk 2" by (simp_all add: with_words_def)
  note prot = protocol_hset_short[OF t(1,2), of 2 w s, unfolded t(3)]
  show ?thesis
  proof (cases "stk 2")
    case Null
    then show ?thesis using req prot by (auto simp: hash_set_null)
  next
    case Wild
    then show ?thesis using req prot hash_set_wild[OF assms(1,3,4)] plenty_allocs[OF assms(2)] by auto
  next
    case (Str junk)
    obtain s' where "kvs_hash_set Ref_Hash (Str k) (Str junk) s = Inr (0, s')" "kv_rel s' (m(k \<mapsto> junk))"
      using tbl.set_new[OF assms(1-4)] by blast
    with Str req prot show ?thesis by (intro exI[of _ m']) auto
  qed
qed

theorem hset_without_value_witness:
  "\<exists>m' s'. kvstore_request (Str ''HSET k'') (Some []) (\<lambda>_. Str ''old'') boot =
     Inr (0, Some ''SUCCESS'', m', s') \<and> hash_value ''k'' s' = Inr (Some ''old'')"
proof -
  have "c_words ''HSET k'' = [''HSET'', ''k'']"
    using c_words_join[of "[''HSET'', ''k'']"] by (simp add: word_ok_def)
  from hset_without_value[OF boot_ok ascii_hashable(1) _ this, where w = "[]" and stk = "\<lambda>_. Str ''old''"]
  obtain m' s' where "kvstore_request (Str ''HSET k'') (Some []) (\<lambda>_. Str ''old'') boot =
      Inr (0, Some ''SUCCESS'', m', s')" "kv_rel s' [''k'' \<mapsto> ''old'']" by auto
  moreover from this(2) have "hash_value ''k'' s' = Inr (Some ''old'')"
    using tbl.get_law ascii_hashable(1) by fastforce
  ultimately show ?thesis by blast
qed

text \<open>A first word that is no command reads one element past the end of \<open>commands\<close>; the ten commands
  of the table without an implementation (\<open>SET\<close> to \<open>RCOUNT\<close>) are answered \<open>ERROR\<close> and change nothing.\<close>

theorem unknown_command:
  assumes "c_words msg = name # args" and "length args < KVSTORE_MAX_TOKENS"
  shows "(name \<notin> set commands \<longrightarrow> kvstore_request (Str msg) (Some w) stk s = Inl Out_of_bounds) \<and>
    (name \<in> set (take 10 commands) \<longrightarrow>
       (\<exists>m'. kvstore_request (Str msg) (Some w) stk s = Inr (0, Some ''ERROR'', m', s)))"
proof -
  let ?n = "int (length (name # args))" and ?t = "with_words (name # args) stk"
  have t: "?t 0 = Str name" by (simp add: with_words_def)
  have n: "?n \<noteq> 0" by simp
  obtain m' where "kvstore_request (Str msg) (Some w) stk s =
      bind_res (kvstore_parser_protocol (Some w) ?t ?n s) (\<lambda>(w, s'). Inr (0, w, m', s'))"
    using request_words[OF assms(1), of "Some w" stk s] assms(2) by auto
  with protocol_unknown[of name ?t ?n w s] protocol_legacy[of name ?t ?n w s] t n show ?thesis by auto
qed

theorem unknown_command_witness:
  "kvstore_request (Str ''PING'') (Some []) (\<lambda>_. Null) boot = Inl Out_of_bounds"
proof -
  have "c_words ''PING'' = [''PING'']" using c_words_join[of "[''PING'']"] by (simp add: word_ok_def)
  from unknown_command[OF this, where w = "[]" and stk = "\<lambda>_. Null" and s = boot] show ?thesis
    by (simp add: commands_def KVSTORE_MAX_TOKENS_def)
qed

text \<open>C29. The token array has 128 slots and the splitting loop does not stop there: a message is split
  without a fault if and only if it has at most 128 words.\<close>

theorem token_overflow:
  "returns (kvstore_split_token (Str msg) stk) \<longleftrightarrow> length (c_words msg) \<le> KVSTORE_MAX_TOKENS"
proof (cases "length (c_words msg) \<le> KVSTORE_MAX_TOKENS")
  case True
  with split_token_words[of msg stk] show ?thesis by (auto simp: returns_iff)
next
  case False
  then have "split_loop 0 [] msg stk = Inl Overflow_write" by (intro split_loop_overflow) auto
  with False show ?thesis by (simp add: kvstore_split_token_def)
qed

text \<open>A key that contains the separator of the file format comes back from disk as another key: the
  line written for key \<open>a:b\<close> and value \<open>v\<close> is loaded as key \<open>a\<close> with value \<open>b:v\<close>.\<close>

theorem separator_in_key:
  assumes "kv_rel s m" and "plenty s" and "hashable a" and "m a = None" and "COLON \<notin> set a"
    and "NL \<notin> set (a @ b @ v)" and "NUL \<notin> set (a @ b @ v)" and "length (a @ b @ v) + 3 < BUFFER_LENGTH"
  shows "\<exists>s'. load_from_disk Ref_Hash (Str db_name) True (Some (line_of (a @ COLON # b, v))) s = Inr (0, s') \<and>
    kv_rel s' (m(a \<mapsto> b @ COLON # v))"
proof -
  obtain s' where s': "put_kv_hashtable Ref_Hash (Str a) (Str (b @ COLON # v)) s = Inr (0, s')"
    "kv_rel s' (m(a \<mapsto> b @ COLON # v))"
    using tbl.set_new[OF assms(1-4), of "b @ COLON # v"] by (auto simp: kvs_hash_set_def)
  have "c_fgets BUFFER_LENGTH (line_of (a @ COLON # b, v) @ []) = Some (line_of (a @ COLON # b, v), [])"
    using c_fgets_line[of "a @ COLON # b @ COLON # v" BUFFER_LENGTH "[]"] assms(6,8)
    by (simp add: line_of_def)
  then have "load_lines Ref_Hash (line_of (a @ COLON # b, v)) s = Inr s'"
    using load_line_colon[OF assms(5-7), of Ref_Hash s] s'(1)
    by (subst load_lines.simps) (simp add: load_lines.simps[of _ "[]"] c_fgets_def)
  with s'(2) show ?thesis by (auto simp: load_from_disk_def)
qed

theorem separator_in_key_witness:
  "\<exists>s'. load_from_disk Ref_Hash (Str db_name) True (Some (line_of (''k:x'', ''v''))) boot = Inr (0, s') \<and>
    hash_value ''k'' s' = Inr (Some ''x:v'')"
proof -
  obtain s' where s': "load_from_disk Ref_Hash (Str db_name) True (Some (line_of (''k:x'', ''v''))) boot = Inr (0, s')"
    "kv_rel s' [''k'' \<mapsto> ''x:v'']"
    using separator_in_key[OF boot_ok ascii_hashable(1), of "''x''" "''v''"] by (auto simp: BUFFER_LENGTH_def)
  from tbl.get_law[OF s'(2) ascii_hashable(1)] s'(1) show ?thesis by simp
qed

lemma delete_results: "delete_kv_hashtable hash key s = Inr (r, s') \<Longrightarrow> r \<le> 0"
  by (auto simp: delete_kv_hashtable_def bind_res_eq_Inr split: if_splits)

lemma modify_results: "kvs_hash_modify hash key v s = Inr (r, s') \<Longrightarrow> r \<le> 0"
  by (auto simp: kvs_hash_modify_def bind_res_eq_Inr case_prod_unfold Let_def split: if_splits)

lemma write_reply_nonpos: "r \<le> 0 \<Longrightarrow> write_reply r p = (if r = 0 then ''SUCCESS'' else ''ERROR'')"
  by (auto simp: order_le_less)

text \<open>The reply \<open>NO EXIST\<close> of \<open>HDEL\<close> and \<open>HMOD\<close> is dead code: in any state whatsoever, when the
  command returns, it replies \<open>SUCCESS\<close> or \<open>ERROR\<close>, because a missing key is reported as a negative
  result.\<close>

theorem no_exist_unreachable:
  assumes "tokens 0 = Str name" and "name = ''HDEL'' \<or> name = ''HMOD''" and "count \<noteq> 0"
    and "kvstore_parser_protocol (Some w) tokens count s = Inr (reply, s')"
  shows "reply = Some ''SUCCESS'' \<or> reply = Some ''ERROR''"
  using assms(2)
proof
  assume "name = ''HDEL''"
  with assms obtain r where "kvs_hash_delete Ref_Hash (tokens 1) s = Inr (r, s')"
    "reply = Some (write_reply r ''NO EXIST'')"
    by (auto simp: kvstore_parser_protocol_def kvstore_hash_delete_def bind_res_eq_Inr cmd_defs Let_def)
  with delete_results show ?thesis by (auto simp: write_reply_nonpos kvs_hash_delete_def)
next
  assume "name = ''HMOD''"
  with assms obtain r where "kvs_hash_modify Ref_Hash (tokens 1) (tokens 2) s = Inr (r, s')"
    "reply = Some (write_reply r ''NO EXIST'')"
    by (auto simp: kvstore_parser_protocol_def kvstore_hash_modify_def bind_res_eq_Inr cmd_defs Let_def)
  with modify_results show ?thesis by (auto simp: write_reply_nonpos)
qed

theorem no_exist_unreachable_witness:
  "kvstore_parser_protocol (Some []) (with_words [''HDEL'', ''k''] (\<lambda>_. Null)) 2 boot = Inr (Some ''ERROR'', boot)"
proof -
  have run: "kvstore_parser_protocol (Some []) (with_words [''HDEL'', ''k''] (\<lambda>_. Null)) 2 boot =
      Inr (Some (write_reply (- 1) ''NO EXIST''), boot)"
    using tbl.del_absent[OF boot_ok(1) ascii_hashable(1)]
    by (simp add: kvstore_parser_protocol_def with_words_def kvstore_hash_delete_def cmd_defs Let_def)
  have "Some (write_reply (- 1) ''NO EXIST'') = Some ''SUCCESS'' \<or>
      Some (write_reply (- 1) ''NO EXIST'') = Some ''ERROR''"
    by (rule no_exist_unreachable[OF _ _ _ run, of "''HDEL''"]) (simp_all add: with_words_def)
  with run show ?thesis by simp
qed

text \<open>C30. The hash of a key of fewer than 2 to the 24 bytes is computed without overflow of its C
  \<open>int\<close>, its index is below the table size, and it is a valid index for every 7-bit ASCII key.\<close>

theorem hash_range:
  assumes "length k < 2 ^ 24"
  shows "(\<forall>n \<le> length k. - (2 ^ 31) \<le> hash_sum 0 (take n k) \<and> hash_sum 0 (take n k) < 2 ^ 31) \<and>
    - int MAX_TABLE_SIZE < hash_index k \<and> hash_index k < int MAX_TABLE_SIZE \<and>
    ((\<forall>c \<in> set k. of_char c < (128 :: int)) \<longrightarrow> 0 \<le> hash_index k)"
proof -
  have "- (2 ^ 31) \<le> hash_sum 0 (take n k) \<and> hash_sum 0 (take n k) < 2 ^ 31" if "n \<le> length k" for n
    using hash_sum_bounds[of "take n k"] assms that by simp
  moreover have "- int MAX_TABLE_SIZE < hash_index k"
    unfolding hash_index_def by (rule c_rem_bounds) simp
  ultimately show ?thesis using hash_index_less[of k] hashable_if_ascii[of k] by (simp add: hashable_def)
qed

theorem hash_range_witness: "0 \<le> hash_index ''kvstore'' \<and> hash_index ''kvstore'' < int MAX_TABLE_SIZE"
  using hash_range[of "''kvstore''"] by simp

end
