(* ===== verification/ConnProps.thy ===== *)
theory ConnProps
  imports ConnInfo
begin

text \<open>
  The properties of a connection: which requests it accepts as its buffer fills up, and what the
  request's data pointer shows when the buffer still holds bytes of an earlier request.
\<close>


lemma put_size: "length body < 10 \<Longrightarrow> length (client_message put_head body) = 79 + length body"
proof -
  assume b: "length body < 10"
  then have "length (show_nat (length body)) = 1" by (subst show_nat.simps) simp
  then show ?thesis by (simp add: client_message_def length_put_message)
qed

lemma put_no_NUL: "NUL \<notin> set body \<Longrightarrow> NUL \<notin> set (client_message put_head body)"
proof -
  assume "NUL \<notin> set body"
  moreover have "NUL \<notin> set (show_nat (length body))"
    using show_nat_digits[of "length body"] by (auto simp: c_isdigit_def)
  ultimately show ?thesis
    by (simp add: client_message_def head_text_def head_lines_def put_head_def request_line_def
        length_field_def CONTENT_LENGTH_def CRLF_def)
qed


text \<open>C37. Nothing clears the buffer between requests. When an earlier request \<open>old\<close> was longer than
  an accepted one, its remaining bytes follow the body: the C string at the data pointer is the body
  with the end of the earlier request appended.\<close>

theorem conn_stale_bytes:
  assumes "conn_at t c" and "client_ok cl" and "c_method cl = ''GET'' \<or> c_method cl = ''POST''"
    and "m = client_message cl body" and "t + 2 * int (length m) \<le> RING_BUFFER_SIZE"
    and "get_buffer (ci_read_buffer c) = old @ NUL # zeros" and "length m \<le> length old"
    and "NUL \<notin> set (old @ body)"
  shows "\<exists>c' c'' r d. conn_read (Bytes m) now c = Inr (int (length m), Bytes [], c') \<and>
    convert_request registered_parsers c' = Inr (True, c'') \<and> ci_request c'' = Some r \<and> rq_data r = Some d \<and>
    c_str (drop d (get_buffer (ci_read_buffer c''))) = body @ drop (length m) old"
proof -
  have fits: "t + int (length m) \<le> RING_BUFFER_SIZE" using assms(5) by linarith
  obtain c' r d where "conn_read (Bytes m) now c = Inr (int (length m), Bytes [], c')"
    "convert_request registered_parsers c' = Inr (True, c'\<lparr>ci_request := Some r\<rparr>)" "rq_data r = Some d"
    "drop d (get_buffer (ci_read_buffer c')) = body @ drop (length m) (old @ NUL # zeros)"
    using read_and_convert[OF assms(1-4) fits, of now] assms(5) unfolding assms(6)
    by auto
  moreover have "c_str (body @ drop (length m) (old @ NUL # zeros)) = body @ drop (length m) old"
  proof -
    have "NUL \<notin> set (body @ drop (length m) old)" using assms(8) by (auto dest: in_set_dropD)
    from c_str_id[OF this, of zeros] assms(7) show ?thesis by simp
  qed
  ultimately show ?thesis
    by (intro exI[of _ c'] exI[of _ "c'\<lparr>ci_request := Some r\<rparr>"] exI[of _ r] exI[of _ d]) simp
qed

theorem conn_stale_bytes_witness:
  "\<exists>c0 c1 c2 r d. conn_read (Bytes (client_message put_head ''HSET k w'')) 7 ConnectionInfo_new = Inr (87, Bytes [], c0) \<and>
    conn_read (Bytes (client_message put_head ''HGET k'')) 8 c0 = Inr (85, Bytes [], c1) \<and>
    convert_request registered_parsers c1 = Inr (True, c2) \<and> ci_request c2 = Some r \<and> rq_data r = Some d \<and>
    c_str (drop d (get_buffer (ci_read_buffer c2))) = ''HGET k w''"
proof -
  let ?m1 = "client_message put_head ''HSET k w''" and ?m2 = "client_message put_head ''HGET k''"
  have l: "length ?m1 = 87" "length ?m2 = 85" using put_size[of "''HSET k w''"] put_size[of "''HGET k''"] by simp_all
  have post: "c_method put_head = ''GET'' \<or> c_method put_head = ''POST''" by (simp add: put_head_def)
  have "?m1 \<noteq> []" using l(1) by auto
  moreover have "0 + int (length ?m1) \<le> RING_BUFFER_SIZE" by (simp add: l RING_BUFFER_SIZE_def)
  ultimately obtain c0 where c0: "conn_read (Bytes ?m1) 7 ConnectionInfo_new = Inr (87, Bytes [], c0)"
    "conn_at 87 c0" and
    b: "get_buffer (ci_read_buffer c0) = ?m1 @ drop 87 (get_buffer (ci_read_buffer ConnectionInfo_new))"
    using conn_read_ok[OF conn_new_at, of ?m1 7] by (auto simp: l RING_BUFFER_SIZE_def)
  have "drop 87 (get_buffer (ci_read_buffer ConnectionInfo_new)) = NUL # replicate 936 NUL"
    using replicate_Suc[of 936 NUL]
    by (simp add: ConnectionInfo_new_def ring_buffer_new_def get_buffer_def RING_BUFFER_SIZE_def del: replicate_Suc)
  with b have b': "get_buffer (ci_read_buffer c0) = ?m1 @ NUL # replicate 936 NUL" by simp
  have "NUL \<notin> set ?m1" by (rule put_no_NUL) simp
  then have "NUL \<notin> set (?m1 @ ''HGET k'')" by simp
  from conn_stale_bytes[OF c0(2) put_head_ok post refl _ b' _ this, of 8]
  obtain c1 c2 r d where "conn_read (Bytes ?m2) 8 c0 = Inr (85, Bytes [], c1)"
    "convert_request registered_parsers c1 = Inr (True, c2)" "ci_request c2 = Some r" "rq_data r = Some d"
    "c_str (drop d (get_buffer (ci_read_buffer c2))) = ''HGET k'' @ drop 85 ?m1"
    by (auto simp: l RING_BUFFER_SIZE_def)
  moreover have "drop 85 ?m1 = '' w''"
  proof -
    have "length (head_text (head_lines put_head (SP # show_nat (length ''HSET k w'')))) = 79"
      using l(1) by (simp add: client_message_def)
    then show ?thesis by (simp add: client_message_def)
  qed
  ultimately show ?thesis using c0(1) by auto
qed

end
