(* ===== verification/ServerConn.thy ===== *)
theory ServerConn
  imports WebServer KvProps ConnProps
begin

text \<open>
  What the properties of the server share: which state of the server serves a connection, the frame of
  each kind of event, a key-value request followed from the socket to the table, the callbacks that
  cannot succeed, and the first connection of a fresh server.
\<close>

section \<open>A server that is up\<close>

text \<open>The server listens and has its pipe; \<open>client_fd\<close> is a descriptor of neither.\<close>

definition listening :: "server \<Rightarrow> bool" where
  "listening s = (0 \<le> tcp_socket_fd (sv_tcp s) \<and> sv_pipe_fd s \<noteq> None)"

definition client_fd :: "server \<Rightarrow> int \<Rightarrow> bool" where
  "client_fd s fd = (0 \<le> fd \<and> fd < 2 ^ 31 \<and> fd \<noteq> tcp_socket_fd (sv_tcp s) \<and>
     (\<forall>r w. sv_pipe_fd s = Some (r, w) \<longrightarrow> fd \<noteq> r))"

abbreviation readable :: "int \<Rightarrow> event" where
  "readable fd \<equiv> \<lparr>ev_fd = fd, ev_events = EPOLLIN\<rparr>"

abbreviation new_conn :: "server \<Rightarrow> event" where
  "new_conn s \<equiv> readable (tcp_socket_fd (sv_tcp s))"

lemma EPOLLIN_bits [simp]:
  "EPOLLIN AND (EPOLLERR OR EPOLLHUP OR EPOLLRDHUP) = 0" "EPOLLIN AND EPOLLIN \<noteq> 0" "EPOLLIN \<noteq> 0"
  by (simp_all add: EPOLLIN_def EPOLLERR_def EPOLLHUP_def EPOLLRDHUP_def)

lemma client_int32: "client_fd s fd \<Longrightarrow> int32 fd"
  by (simp add: client_fd_def int32_def)

lemma client_fd_same:
  "sv_tcp s' = sv_tcp s \<Longrightarrow> sv_pipe_fd s' = sv_pipe_fd s \<Longrightarrow> client_fd s' fd = client_fd s fd"
  "sv_tcp s' = sv_tcp s \<Longrightarrow> sv_pipe_fd s' = sv_pipe_fd s \<Longrightarrow> listening s' = listening s"
  by (simp_all add: client_fd_def listening_def)

lemma timer_fields [simp]:
  "sv_epoll (snd (ws_add_timer now fd T v s)) = sv_epoll s" "sv_epoll (snd (ws_mod_timer now fd T s)) = sv_epoll s"
  "sv_tcp (snd (ws_add_timer now fd T v s)) = sv_tcp s" "sv_tcp (snd (ws_mod_timer now fd T s)) = sv_tcp s"
  "sv_pool (snd (ws_add_timer now fd T v s)) = sv_pool s" "sv_pool (snd (ws_mod_timer now fd T s)) = sv_pool s"
  "sv_kv (snd (ws_add_timer now fd T v s)) = sv_kv s" "sv_kv (snd (ws_mod_timer now fd T s)) = sv_kv s"
  "sv_sent (snd (ws_add_timer now fd T v s)) = sv_sent s" "sv_sent (snd (ws_mod_timer now fd T s)) = sv_sent s"
  "sv_closed (snd (ws_add_timer now fd T v s)) = sv_closed s" "sv_closed (snd (ws_mod_timer now fd T s)) = sv_closed s"
  "sv_pipe_fd (snd (ws_add_timer now fd T v s)) = sv_pipe_fd s" "sv_pipe_fd (snd (ws_mod_timer now fd T s)) = sv_pipe_fd s"
  "sv_stop_flag (snd (ws_add_timer now fd T v s)) = sv_stop_flag s" "sv_stop_flag (snd (ws_mod_timer now fd T s)) = sv_stop_flag s"
  "sv_pipe_data (snd (ws_add_timer now fd T v s)) = sv_pipe_data s" "sv_pipe_data (snd (ws_mod_timer now fd T s)) = sv_pipe_data s"
  "log_ready e (snd (ws_add_timer now fd T v s)) = log_ready e s" "log_ready e (snd (ws_mod_timer now fd T s)) = log_ready e s"
  "sv_clock (snd (ws_add_timer now fd T v s)) = snd (add_timer now fd T (Some (Timer_task fd T)) v (sv_clock s))"
  "sv_clock (snd (ws_mod_timer now fd T s)) = snd (mod_timer now fd T (Some (Timer_task fd T)) (sv_clock s))"
  by (simp_all add: ws_add_timer_def ws_mod_timer_def case_prod_unfold Let_def)

text \<open>What renewing a timer does to the clock.\<close>

lemma mod_timer_clock:
  "timer_map (snd (mod_timer now fd T cb c)) = (timer_map c)(fd \<mapsto> map_value (timer_map c) fd + 1)"
  "timer_queue (snd (mod_timer now fd T cb c)) =
    insort_key tm_expire_time \<lparr>tm_id = fd, tm_expire_time = now + T, tm_callback = cb,
      tm_version = map_value (timer_map c) fd + 1\<rparr> (timer_queue c)"
  by (simp_all add: mod_timer_def mod_timer_bump_def mod_timer_read_def add_timer_def map_value_def
      case_prod_unfold Let_def)

text \<open>The branch of the event loop for a readable connection and for the listening socket.\<close>

lemma handle_client:
  assumes "listening s" and "client_fd s fd"
  shows "handle_event e (readable fd) s =
    bind_res (deal_Read e fd s) (\<lambda>(r, s1).
      LOG_INFO (fd_msg ''mod_timer conn fd: '' fd []) e (snd (ws_mod_timer (e_now e) fd TIME_OUT s1)))"
  using assms by (auto simp: handle_event_def listening_def client_fd_def)

lemma handle_client_ok:
  assumes "listening s" and "client_fd s fd" and "deal_Read e fd s = Inr (r, s1)" and "log_ready e s1"
  shows "handle_event e (readable fd) s =
    Inr (logged 1 (fd_msg ''mod_timer conn fd: '' fd []) e (snd (ws_mod_timer (e_now e) fd TIME_OUT s1)))"
  using assms(4) client_int32[OF assms(2)] by (simp add: handle_client[OF assms(1,2)] assms(3))

lemma handle_new:
  assumes "listening s" and "deal_NewConn e s = Inr (fd, s1)" and "log_ready e s1" and "int32 fd"
  shows "handle_event e (new_conn s) s =
    Inr (logged 1 (fd_msg ''add_timer conn fd: '' fd []) e (snd (ws_add_timer (e_now e) fd TIME_OUT 1 s1)))"
  using assms by (simp add: handle_event_def listening_def)

section \<open>A connection of the server\<close>

text \<open>Descriptor \<open>fd\<close> is served by the live object at address \<open>a\<close>, on which \<open>t\<close> bytes have been read.\<close>

definition serves :: "server \<Rightarrow> int \<Rightarrow> nat \<Rightarrow> int \<Rightarrow> ConnectionInfo \<Rightarrow> bool" where
  "serves s fd a t c = (pool_get fd (sv_pool s) = Inr (Block a) \<and> objs (sv_pool s) a = Some c \<and>
     conn_at t c \<and> ci_fd c = fd \<and> write_idle c)"

lemma serves_pool: "sv_pool s' = sv_pool s \<Longrightarrow> serves s' fd a t c = serves s fd a t c"
  by (simp add: serves_def)

lemma pool_update_simps [simp]:
  "id_map (pool_update p (Block a) c) = id_map p"
  "objs (pool_update p (Block a) c) = (objs p)(a \<mapsto> c)"
  "free_list (pool_update p (Block a) c) = free_list p"
  by (simp_all add: pool_update_def)

lemma pool_get_update [simp]: "pool_get fd (pool_update p (Block a) c) = pool_get fd p"
  by (simp add: pool_get_def)

lemma pool_update_twice [simp]: "pool_update (pool_update p (Block a) c) (Block a) c' = pool_update p (Block a) c'"
  by (simp add: pool_update_def)

text \<open>A key-value command in a POST request, arriving on a connection whose buffer shows no old bytes.\<close>

definition kv_client :: "client_head \<Rightarrow> bool" where
  "kv_client cl = (client_ok cl \<and> c_method cl = ''POST'' \<and> c_url cl = ''/usr/kvstore'')"

lemma deal_read_command:
  assumes kv: "kv_rel (sv_kv s) m" "plenty (sv_kv s)" "command_ok cmd"
    and conn: "serves s fd a t c" and log: "log_ready e s" "int32 fd"
    and client: "kv_client cl" "e_sock e = Bytes msg" "msg = client_message cl (command_msg cmd)"
    and fits: "t + 2 * int (length msg) \<le> RING_BUFFER_SIZE"
    and clean: "get_buffer (ci_read_buffer c) ! length msg = NUL" "NUL \<notin> set (command_msg cmd)"
  shows "\<exists>s' c'. deal_Read e fd s = Inr (True, s') \<and>
    kv_rel (sv_kv s') (snd (spec_command cmd m)) \<and> plenty (sv_kv s') \<and>
    sv_sent s' = sv_sent s @ [send_simple_response (e_order e) fd set_success] \<and>
    serves s' fd a (t + int (length msg)) c' \<and> ci_last_active_time c' = e_now e \<and>
    take BUFFER_LENGTH (get_buffer (ci_write_buffer c')) = reply_bytes (the (fst (spec_command cmd m))) \<and>
    drop (length msg) (get_buffer (ci_read_buffer c')) = drop (length msg) (get_buffer (ci_read_buffer c)) \<and>
    sv_clock s' = sv_clock s \<and> sv_closed s' = sv_closed s \<and> sv_tcp s' = sv_tcp s \<and>
    sv_pipe_fd s' = sv_pipe_fd s \<and> sv_stop_flag s' = sv_stop_flag s \<and> (\<forall>e'. log_ready e' s' = log_ready e' s)"
proof -
  let ?rb = "get_buffer (ci_read_buffer c)"
  let ?s0 = "logged 1 (fd_msg ''deal_Read conn fd: '' fd []) e s"
  have c: "pool_get fd (sv_pool s) = Inr (Block a)" "objs (sv_pool s) a = Some c" "conn_at t c"
    "ci_fd c = fd" "write_idle c" using conn by (simp_all add: serves_def)
  have cl: "client_ok cl" "c_method cl = ''GET'' \<or> c_method cl = ''POST''" "c_method cl @ c_url cl = ''POST/usr/kvstore''"
    using client(1) by (simp_all add: kv_client_def)
  have pos: "0 < length msg" unfolding client(3) by (simp add: client_message_def head_text_def CRLF_def)
  have t0: "0 \<le> t" using c(3) by (simp add: conn_at_def rb_ok_def)
  have fits1: "t + int (length msg) \<le> RING_BUFFER_SIZE" using fits pos by linarith
  have small: "t + int (length msg) < RING_BUFFER_SIZE" using fits pos by linarith
  from read_and_convert[OF c(3) cl(1,2) client(3) fits1, of "e_now e"] fits small t0 obtain c1 r d where
    c1: "conn_read (Bytes msg) (e_now e) c = Inr (int (length msg), Bytes [], c1)"
      "conn_at (t + int (length msg)) c1" "ci_fd c1 = ci_fd c" "ci_write_buffer c1 = ci_write_buffer c" and
    conv: "convert_request registered_parsers c1 = Inr (True, c1\<lparr>ci_request := Some r\<rparr>)"
      "get_key_URL r = ''POST/usr/kvstore''" "rq_data r = Some d"
      "drop d (get_buffer (ci_read_buffer c1)) = command_msg cmd @ drop (length msg) ?rb"
    unfolding cl(3) by auto
  let ?c2 = "c1\<lparr>ci_request := Some r\<rparr>" and ?rb1 = "get_buffer (ci_read_buffer c1)"
  have len: "length msg < length ?rb" "length ?rb1 = length ?rb"
    using c(3) c1(2) small t0 by (simp_all add: conn_at_def rb_ok_def get_buffer_def)
  then have "drop (length msg) ?rb = NUL # drop (Suc (length msg)) ?rb" using clean(1) by (simp add: Cons_nth_drop_Suc[symmetric])
  then have msg: "c_str_at (get_buffer (ci_read_buffer ?c2)) d = Inr (command_msg cmd)"
    using conv(4) c_str_id[OF clean(2)] by (simp add: c_str_at_def)
  have behind: "drop (length msg) ?rb1 = drop (length msg) ?rb" and d: "d + length (command_msg cmd) = length msg"
  proof -
    have "length ?rb1 - d = length (command_msg cmd) + (length ?rb - length msg)"
      using arg_cong[OF conv(4), of length] by simp
    then show d: "d + length (command_msg cmd) = length msg"
      using len by (cases "d \<le> length ?rb1") auto
    have "drop (length (command_msg cmd)) (drop d ?rb1) = drop (length msg) ?rb" by (simp add: conv(4))
    then show "drop (length msg) ?rb1 = drop (length msg) ?rb" using d by (simp add: add.commute)
  qed
  have "write_idle ?c2" using c(5) c1(4) by (simp add: write_idle_def)
  moreover have "rb_ok (ci_read_buffer ?c2)" using c1(2) by (simp add: conn_at_def)
  moreover have "ci_request ?c2 = Some r" by simp
  ultimately obtain c3 kv' where
    task: "http_task_get2 (e_order e) (e_stk e) ?c2 (sv_kv s) =
      Inr ([send_simple_response (e_order e) (ci_fd ?c2) set_success], c3, kv')"
      "kv_rel kv' (snd (spec_command cmd m))" "plenty kv'" "ci_fd c3 = ci_fd ?c2"
      "rb_ok (ci_read_buffer c3)" "rb_head (ci_read_buffer c3) = rb_head (ci_read_buffer ?c2)"
      "rb_tail (ci_read_buffer c3) = rb_tail (ci_read_buffer ?c2)" "write_idle c3"
      "take BUFFER_LENGTH (get_buffer (ci_write_buffer c3)) = reply_bytes (the (fst (spec_command cmd m)))"
      "drop (length msg) (get_buffer (ci_read_buffer c3)) = drop (length msg) (get_buffer (ci_read_buffer ?c2))"
    using task_get2_command[OF kv, of ?c2 r d "e_order e" "e_stk e"] conv(3) msg unfolding d by blast
  let ?c' = "c3\<lparr>ci_last_active_time := e_now e\<rparr>"
  let ?s' = "?s0\<lparr>sv_kv := kv', sv_pool := pool_update (sv_pool s) (Block a) ?c',
      sv_sent := sv_sent s @ [send_simple_response (e_order e) fd set_success]\<rparr>"
  have "deal_Read e fd s = Inr (True, ?s')"
    using c pos client(2) conv task(1) c1(3) log
    by (simp add: deal_Read_def pool_object_def c1(1) handler_of)
  moreover have "conn_at (t + int (length msg)) ?c'" using c1(2) task(5-7) by (simp add: conn_at_def)
  moreover have "write_idle ?c'" using task(8) by (simp add: write_idle_def)
  ultimately show ?thesis
    using task c c1(3) behind log by (intro exI[of _ ?s'] exI[of _ ?c']) (simp add: serves_def)
qed

text \<open>The whole event, with the renewal of the timer.\<close>

lemma kv_event:
  assumes kv: "kv_rel (sv_kv s) m" "plenty (sv_kv s)" "command_ok cmd"
    and conn: "serves s fd a t c" and log: "log_ready e s"
    and client: "kv_client cl" "e_sock e = Bytes msg" "msg = client_message cl (command_msg cmd)"
    and fits: "t + 2 * int (length msg) \<le> RING_BUFFER_SIZE"
    and clean: "get_buffer (ci_read_buffer c) ! length msg = NUL" "NUL \<notin> set (command_msg cmd)"
    and up: "listening s" "client_fd s fd" and timer: "timer_map (sv_clock s) fd = Some v"
  shows "\<exists>s' c'. handle_event e (readable fd) s = Inr s' \<and>
    kv_rel (sv_kv s') (snd (spec_command cmd m)) \<and> plenty (sv_kv s') \<and>
    sv_sent s' = sv_sent s @ [send_simple_response (e_order e) fd set_success] \<and>
    serves s' fd a (t + int (length msg)) c' \<and>
    take BUFFER_LENGTH (get_buffer (ci_write_buffer c')) = reply_bytes (the (fst (spec_command cmd m))) \<and>
    drop (length msg) (get_buffer (ci_read_buffer c')) = drop (length msg) (get_buffer (ci_read_buffer c)) \<and>
    timer_map (sv_clock s') fd = Some (v + 1) \<and>
    (\<exists>T \<in> set (timer_queue (sv_clock s')). tm_id T = fd \<and> tm_version T = v + 1 \<and> tm_expire_time T = e_now e + TIME_OUT) \<and>
    sv_tcp s' = sv_tcp s \<and> sv_pipe_fd s' = sv_pipe_fd s \<and> sv_stop_flag s' = sv_stop_flag s \<and>
    (\<forall>e'. log_ready e' s' = log_ready e' s)"
proof -
  obtain s1 c' where s1: "deal_Read e fd s = Inr (True, s1)" "kv_rel (sv_kv s1) (snd (spec_command cmd m))"
    "plenty (sv_kv s1)" "sv_sent s1 = sv_sent s @ [send_simple_response (e_order e) fd set_success]"
    "serves s1 fd a (t + int (length msg)) c'"
    "take BUFFER_LENGTH (get_buffer (ci_write_buffer c')) = reply_bytes (the (fst (spec_command cmd m)))"
    "drop (length msg) (get_buffer (ci_read_buffer c')) = drop (length msg) (get_buffer (ci_read_buffer c))"
    "sv_clock s1 = sv_clock s" "sv_tcp s1 = sv_tcp s" "sv_pipe_fd s1 = sv_pipe_fd s"
    "sv_stop_flag s1 = sv_stop_flag s" "\<forall>e'. log_ready e' s1 = log_ready e' s"
    using deal_read_command[OF kv conn log client_int32[OF up(2)] client fits clean] by blast
  have log1: "log_ready e s1" using s1(12) log by simp
  let ?s' = "logged 1 (fd_msg ''mod_timer conn fd: '' fd []) e (snd (ws_mod_timer (e_now e) fd TIME_OUT s1))"
  let ?T = "\<lparr>tm_id = fd, tm_expire_time = e_now e + TIME_OUT, tm_callback = Some (Timer_task fd TIME_OUT),
      tm_version = v + 1\<rparr>"
  note ev = handle_client_ok[OF up s1(1) log1]
  have clock: "timer_map (sv_clock ?s') fd = Some (v + 1)" "?T \<in> set (timer_queue (sv_clock ?s'))"
    using timer s1(8) by (simp_all add: mod_timer_clock map_value_def set_insort_key)
  have "serves ?s' fd a (t + int (length msg)) c'" using s1(5) by (simp add: serves_def)
  moreover have "\<forall>e'. log_ready e' ?s' = log_ready e' s" using log1 s1(12) client_int32[OF up(2)] by simp
  ultimately show ?thesis
    using ev clock s1 by (intro exI[of _ ?s'] exI[of _ c']) (auto intro: bexI[of _ ?T])
qed

section \<open>Callbacks that cannot succeed\<close>

text \<open>Callbacks never bring an identifier or an object of the pool back.\<close>

lemma LOG_pool:
  "LOG_INFO msg e s = Inr s' \<Longrightarrow> sv_pool s' = sv_pool s" "LOG_ERROR msg e s = Inr s' \<Longrightarrow> sv_pool s' = sv_pool s"
  by (drule LOG_others, metis (no_types) server.select_convs(4) server.surjective server.update_convs(9))+

lemma close_conn_pool:
  assumes "close_conn e fd s = Inr (r, s')"
  shows "id_map (sv_pool s') = id_map (sv_pool s)" and "objs (sv_pool s) a = None \<Longrightarrow> objs (sv_pool s') a = None"
proof -
  obtain conn where g: "pool_get fd (sv_pool s) = Inr conn"
    using assms by (auto simp: close_conn_def bind_res_eq_Inr)
  have del: "sv_pool (snd (ws_del_timer fd x)) = sv_pool x" for x
    by (simp add: ws_del_timer_def case_prod_unfold Let_def)
  show "id_map (sv_pool s') = id_map (sv_pool s)"
    "objs (sv_pool s) a = None \<Longrightarrow> objs (sv_pool s') a = None"
    using assms g del
    by (cases conn; auto simp: close_conn_def Let_def bind_res_eq_Inr Release_def pool_object_def dest!: LOG_pool)+
qed

lemma timer_task_pool:
  assumes "timer_task e fd timeout s = Inr (r, s')"
  shows "id_map (sv_pool s') = id_map (sv_pool s)" and "objs (sv_pool s) a = None \<Longrightarrow> objs (sv_pool s') a = None"
proof -
  have "s' = s \<or> (\<exists>msg s1 r. LOG_ERROR msg e s = Inr s1 \<and> close_conn e fd s1 = Inr (r, s'))"
    using assms by (auto simp: timer_task_def bind_res_eq_Inr split: if_splits)
  then show "id_map (sv_pool s') = id_map (sv_pool s)" "objs (sv_pool s) a = None \<Longrightarrow> objs (sv_pool s') a = None"
    using LOG_pool(2) close_conn_pool by metis+
qed

text \<open>A descriptor whose entry of the map is missing, or leads to an object that is dead.\<close>

definition orphan :: "int \<Rightarrow> conn_pool \<Rightarrow> bool" where
  "orphan fd p = (map_find (<) (to_size_t fd) (id_map p) = None \<or>
     (\<exists>a. map_find (<) (to_size_t fd) (id_map p) = Some (Block a) \<and> objs p a = None))"

lemma doomed_callbacks:
  assumes "Timer_task fd timeout \<in> set cbs" and "orphan fd (sv_pool s)"
  shows "\<not> returns (run_callbacks e cbs s)"
  using assms
proof (induction cbs arbitrary: s)
  case (Cons cb cbs)
  have doomed: "timer_task e fd T s = Inl Bad_pointer" for T
    using Cons.prems(2) by (auto simp: timer_task_def pool_get_def pool_object_def orphan_def)
  show ?case
  proof (cases cb)
    case (Timer_task fd' T)
    show ?thesis
    proof (cases "timer_task e fd' T s")
      case (Inl f)
      with Timer_task show ?thesis by simp
    next
      case (Inr rs)
      obtain r s' where rs: "rs = (r, s')" by (cases rs)
      with doomed[of T] Inr have "fd' \<noteq> fd" by auto
      with Timer_task Cons.prems(1) have "Timer_task fd timeout \<in> set cbs" by auto
      moreover have "orphan fd (sv_pool s')"
        using Cons.prems(2) timer_task_pool[OF Inr[unfolded rs]] by (auto simp: orphan_def)
      ultimately show ?thesis using Cons.IH[of s'] Inr rs Timer_task by auto
    qed
  next
    case (Timer_log fd')
    with Cons show ?thesis by auto
  qed
qed simp

lemma fire_due:
  assumes "queue_ok (timer_queue c)" and "\<forall>t \<in> set (timer_queue c). tm_version t \<noteq> 0"
    and "t \<in> set (timer_queue c)" and "tm_expire_time t \<le> now" and "current (timer_map c) t"
    and "tm_callback t = Some cb"
  shows "cb \<in> set (fst (handle_timer now c))"
  using expire_loop_spec[OF assms(1,2)] assms(3-6)
  by (force simp: handle_timer_def due_def List.map_filter_def)

text \<open>Clocks with a sorted queue and no timer of version 0.\<close>

definition clock_ok :: "task clock \<Rightarrow> bool" where
  "clock_ok c = (queue_ok (timer_queue c) \<and> (\<forall>t \<in> set (timer_queue c). tm_version t \<noteq> 0))"

lemma clock_ok_push: "clock_ok c \<Longrightarrow> v \<noteq> 0 \<Longrightarrow> clock_ok (snd (add_timer now i without cb v c))"
  by (auto simp: clock_ok_def add_timer_def Let_def sorted_insort_key set_insort_key)

lemma fire_doomed:
  assumes "clock_ok (sv_clock s)" and "t \<in> set (timer_queue (sv_clock s))" and "tm_expire_time t \<le> e_now e"
    and "current (timer_map (sv_clock s)) t" and "tm_callback t = Some (Timer_task fd T)" and "orphan fd (sv_pool s)"
  shows "\<not> returns (fire_timers e s)"
proof -
  obtain cbs c where h: "handle_timer (e_now e) (sv_clock s) = (cbs, c)" by force
  with fire_due[OF _ _ assms(2-5)] assms(1) have "Timer_task fd T \<in> set cbs" by (simp add: clock_ok_def)
  from doomed_callbacks[OF this, of "s\<lparr>sv_clock := c\<rparr>" e] assms(6) h show ?thesis
    by (simp add: fire_timers_def)
qed

section \<open>A server with one connection\<close>

lemma first_connection:
  assumes "Conn_pool_new nb 1024 True = Inr (sv_pool s)" and "4 \<le> nb" and "listening s" and "log_ready e s"
    and "e_accept e = fd" and "0 \<le> fd" and "int32 fd"
  shows "\<exists>s1. handle_event e (new_conn s) s = Inr s1 \<and>
    serves s1 fd 0 0 (ConnectionInfo_new\<lparr>ci_fd := fd, ci_last_active_time := e_now e, ci_addr := e_peer e\<rparr>) \<and>
    sv_kv s1 = sv_kv s \<and> sv_tcp s1 = sv_tcp s \<and> sv_pipe_fd s1 = sv_pipe_fd s \<and> sv_sent s1 = sv_sent s \<and>
    sv_closed s1 = sv_closed s \<and> sv_stop_flag s1 = sv_stop_flag s \<and> (\<forall>e'. log_ready e' s1 = log_ready e' s) \<and>
    sv_clock s1 = snd (add_timer (e_now e) fd TIME_OUT (Some (Timer_task fd TIME_OUT)) 1 (sv_clock s))"
proof -
  obtain p1 where p1: "acquire (sv_pool s) = Inr (Block 0, p1)"
    "objs p1 = (\<lambda>b. if b = 0 then Some ConnectionInfo_new else None)" "id_map p1 = []"
    using server_pool_first[OF assms(1,2)] by blast
  let ?c1 = "ConnectionInfo_new\<lparr>ci_fd := fd, ci_last_active_time := e_now e, ci_addr := e_peer e\<rparr>"
  let ?q1 = "pool_update p1 (Block 0) ?c1\<lparr>id_map := [(to_size_t fd, Block 0)]\<rparr>"
  have a1: "add_map fd (Block 0) (e_peer e) (e_now e) p1 = Inr ?q1"
    using p1(2,3) by (simp add: add_map_def pool_object_def Let_def)
  let ?s0 = "s\<lparr>sv_epoll := snd (ep_add (e_ctl e) fd EPOLLIN (sv_epoll s)), sv_pool := ?q1\<rparr>"
  have "deal_NewConn e s = Inr (fd, ?s0)"
    using assms(3,5,6) p1(1) a1 by (simp add: deal_NewConn_def Accept_tcp_def listening_def)
  note new = this
  let ?s1 = "logged 1 (fd_msg ''add_timer conn fd: '' fd []) e (snd (ws_add_timer (e_now e) fd TIME_OUT 1 ?s0))"
  have ev: "handle_event e (new_conn s) s = Inr ?s1"
    using handle_new[OF assms(3) new] assms(4,7) by simp
  have "conn_at 0 ?c1" using conn_new_at by (simp add: conn_at_def)
  moreover have "write_idle ?c1" using write_idle_new by (simp add: write_idle_def)
  ultimately show ?thesis
    using ev assms(4,7) by (intro exI[of _ ?s1]) (simp add: serves_def pool_get_def)
qed

text \<open>
  The server of the witnesses: built by the constructor, with descriptor 3 for epoll, 4 for the
  listening socket and 5 and 6 for the pipe, and no file on disk.
\<close>

definition start0 :: start_env where
  "start0 = \<lparr>st_epoll_fd = 3, st_sockets = \<lparr>a_socket = 4, a_setsockopt = 0, a_bind = 0, a_listen = 0\<rparr>,
     st_concurrency = 8, st_malloc = True, st_socketpair = 0, st_pipe = (5, 6), st_add_pipe = 0,
     st_sigaction = 0, st_add_listen = 0, st_log = kv_log_new june3 True,
     st_kv = boot_state (\<lambda>_. False) (\<lambda>_. 0), st_readable = True\<rparr>"

definition server0 :: server where
  "server0 = projr (Webserver_new start0 None)"

definition env0 :: "int \<Rightarrow> int \<Rightarrow> sock \<Rightarrow> env" where
  "env0 now fd input = \<lparr>e_now = now, e_accept = fd, e_peer = \<lparr>sin_addr = 1, sin_port = 2\<rparr>, e_sock = input,
     e_recv_error = False, e_ctl = 0, e_stk = (\<lambda>_. Null), e_order = id, e_time = june3, e_open = True\<rparr>"

lemma server0_new: "Webserver_new start0 None = Inr server0"
  and server0_fields: "sv_kv server0 = boot" "Conn_pool_new 10240 1024 True = Inr (sv_pool server0)"
    "sv_clock server0 = Thread_clockr_new" "tcp_socket_fd (sv_tcp server0) = 4" "sv_pipe_fd server0 = Some (5, 6)"
    "sv_stop_flag server0 = False" "sv_log server0 = kv_log_new june3 True" "sv_sent server0 = []"
    "sv_closed server0 = []" "sv_pipe_data server0 = []" "sv_handlers server0 = [SIGINT \<mapsto> True, SIGTERM \<mapsto> True]"
    "epoll_ok (sv_epoll server0)" "ep_max_events (sv_epoll server0) = MAX_EVENTS"
proof -
  obtain p where p: "Conn_pool_new 10240 1024 True = Inr p" by (simp add: Conn_pool_new_def)
  obtain ep where ep: "Epoll_new MAX_EVENTS 3 = Inr ep" by (simp add: Epoll_new_def MAX_EVENTS_def)
  have kv: "init_kvengine True None (boot_state (\<lambda>_. False) (\<lambda>_. 0)) = Inr boot"
    by (simp add: init_kvengine_def boot_def load_from_disk_def case_prod_unfold)
  have new: "\<exists>s. Webserver_new start0 None = Inr s \<and> sv_kv s = boot \<and> sv_pool s = p \<and>
    sv_clock s = Thread_clockr_new \<and> tcp_socket_fd (sv_tcp s) = 4 \<and> sv_pipe_fd s = Some (5, 6) \<and>
    sv_stop_flag s = False \<and> sv_log s = kv_log_new june3 True \<and> sv_sent s = [] \<and> sv_closed s = [] \<and>
    sv_pipe_data s = [] \<and> sv_handlers s = [SIGINT \<mapsto> True, SIGTERM \<mapsto> True] \<and> epoll_ok (sv_epoll s) \<and>
    ep_max_events (sv_epoll s) = MAX_EVENTS"
    using epoll_ok_new[OF ep] ep
    by (simp add: Webserver_new_def start0_def p ep kv tcp_socket_new_def tcp_create_def add_sig_def ep_add_def Let_def
        epoll_ok_def, auto simp: Epoll_new_def split: if_splits)
  then show "Webserver_new start0 None = Inr server0" by (auto simp: server0_def)
  from new p show "sv_kv server0 = boot" "Conn_pool_new 10240 1024 True = Inr (sv_pool server0)"
    "sv_clock server0 = Thread_clockr_new" "tcp_socket_fd (sv_tcp server0) = 4" "sv_pipe_fd server0 = Some (5, 6)"
    "sv_stop_flag server0 = False" "sv_log server0 = kv_log_new june3 True" "sv_sent server0 = []"
    "sv_closed server0 = []" "sv_pipe_data server0 = []" "sv_handlers server0 = [SIGINT \<mapsto> True, SIGTERM \<mapsto> True]"
    "epoll_ok (sv_epoll server0)" "ep_max_events (sv_epoll server0) = MAX_EVENTS"
    by (auto simp: server0_def)
qed

lemma env0_fields [simp]:
  "e_now (env0 now fd i) = now" "e_accept (env0 now fd i) = fd" "e_sock (env0 now fd i) = i" "e_time (env0 now fd i) = june3"
  "e_recv_error (env0 now fd i) = False" "e_order (env0 now fd i) = id"
  "e_peer (env0 now fd i) = \<lparr>sin_addr = 1, sin_port = 2\<rparr>" "e_open (env0 now fd i) = True"
  by (simp_all add: env0_def)

lemma server0_up:
  "listening server0" "log_ready (env0 now x i) server0" "0 \<le> fd \<Longrightarrow> fd < 100 \<Longrightarrow> fd \<notin> {4, 5} \<Longrightarrow> client_fd server0 fd"
  using june3_stamp[THEN less_imp_le, THEN order_trans, of 100]
  by (simp_all add: listening_def log_ready_def client_fd_def server0_fields june3_log LOG_BUFFER_SIZE_def)

text \<open>The first connection of that server, on descriptor 7.\<close>

lemma server0_first:
  "\<exists>s1. handle_event (env0 100 7 Peer_closed) (new_conn server0) server0 = Inr s1 \<and>
    serves s1 7 0 0 (ConnectionInfo_new\<lparr>ci_fd := 7, ci_last_active_time := 100, ci_addr := \<lparr>sin_addr = 1, sin_port = 2\<rparr>\<rparr>) \<and>
    sv_kv s1 = boot \<and> listening s1 \<and> client_fd s1 7 \<and> sv_closed s1 = [] \<and> sv_sent s1 = [] \<and>
    sv_stop_flag s1 = False \<and> (\<forall>now x i. log_ready (env0 now x i) s1) \<and> timer_map (sv_clock s1) 7 = Some 1 \<and>
    timer_queue (sv_clock s1) = [\<lparr>tm_id = 7, tm_expire_time = 101, tm_callback = Some (Timer_task 7 TIME_OUT), tm_version = 1\<rparr>]"
proof -
  have "int32 7" by (simp add: int32_def)
  from first_connection[OF server0_fields(2) _ server0_up(1,2) _ _ this, of 100 7 Peer_closed]
  obtain s1 where s1: "handle_event (env0 100 7 Peer_closed) (new_conn server0) server0 = Inr s1"
    "serves s1 7 0 0 (ConnectionInfo_new\<lparr>ci_fd := 7, ci_last_active_time := 100, ci_addr := \<lparr>sin_addr = 1, sin_port = 2\<rparr>\<rparr>)"
    "sv_kv s1 = sv_kv server0" "sv_tcp s1 = sv_tcp server0" "sv_pipe_fd s1 = sv_pipe_fd server0" "sv_sent s1 = sv_sent server0"
    "sv_closed s1 = sv_closed server0" "sv_stop_flag s1 = sv_stop_flag server0" "\<forall>e'. log_ready e' s1 = log_ready e' server0"
    "sv_clock s1 = snd (add_timer 100 7 TIME_OUT (Some (Timer_task 7 TIME_OUT)) 1 (sv_clock server0))"
    by auto
  have "listening s1" "client_fd s1 7" using server0_up(1) server0_up(3)[of 7] client_fd_same[OF s1(4,5)] by simp_all
  with s1 server0_up(2) show ?thesis
    by (intro exI[of _ s1]) (simp add: server0_fields add_timer_def Thread_clockr_new_def Let_def TIME_OUT_def)
qed

end
