(* ===== verification/ServerProps.thy ===== *)
theory ServerProps
  imports ServerConn
begin

text \<open>
  Properties that span the components of the server: key-value requests from the socket to the table,
  one and many; the end of the server on a signal and its next start; and what closed, refused and
  concurrent connections do to it.
\<close>

section \<open>What events leave alone\<close>

text \<open>What no event changes: the descriptors and handlers of the server and the size of its event array.\<close>

definition wired :: "server \<Rightarrow> server \<Rightarrow> bool" where
  "wired s s' = (sv_tcp s' = sv_tcp s \<and> sv_pipe_fd s' = sv_pipe_fd s \<and> sv_handlers s' = sv_handlers s \<and>
     ep_max_events (sv_epoll s') = ep_max_events (sv_epoll s) \<and> (epoll_ok (sv_epoll s) \<longrightarrow> epoll_ok (sv_epoll s')))"

text \<open>What only the event of the pipe changes: the stop flag and the signals in the pipe.\<close>

definition undisturbed :: "server \<Rightarrow> server \<Rightarrow> bool" where
  "undisturbed s s' = (wired s s' \<and> sv_stop_flag s' = sv_stop_flag s \<and> sv_pipe_data s' = sv_pipe_data s)"

lemma undisturbed_refl [simp]: "undisturbed s s"
  by (simp add: undisturbed_def wired_def)

lemma undisturbed_trans: "undisturbed s t \<Longrightarrow> undisturbed t u \<Longrightarrow> undisturbed s u"
  by (simp add: undisturbed_def wired_def)

lemma ep_max_ctl [simp]:
  "ep_max_events (snd (ep_add r fd evs ep)) = ep_max_events ep" "ep_max_events (snd (ep_del r fd ep)) = ep_max_events ep"
  "ep_max_events (snd (ep_wait n ready ep)) = ep_max_events ep"
  by (simp_all add: ep_add_def ep_del_def ep_wait_def Let_def)

lemma undisturbed_updates [simp]:
  "undisturbed s (t\<lparr>sv_pool := p\<rparr>) = undisturbed s t" "undisturbed s (t\<lparr>sv_kv := kv\<rparr>) = undisturbed s t"
  "undisturbed s (t\<lparr>sv_sent := x\<rparr>) = undisturbed s t" "undisturbed s (t\<lparr>sv_closed := y\<rparr>) = undisturbed s t"
  "undisturbed s (t\<lparr>sv_clock := c\<rparr>) = undisturbed s t" "undisturbed s (t\<lparr>sv_log := l\<rparr>) = undisturbed s t"
  "undisturbed s (t\<lparr>sv_epoll := snd (ep_add r fd evs (sv_epoll t))\<rparr>) = undisturbed s t"
  "undisturbed s (t\<lparr>sv_epoll := snd (ep_del r fd (sv_epoll t))\<rparr>) = undisturbed s t"
  by (auto simp: undisturbed_def wired_def epoll_ok_ctl)

lemma undisturbed_wait:
  "undisturbed s t \<Longrightarrow> undisturbed s (t\<lparr>sv_epoll := snd (ep_wait n ready (sv_epoll t))\<rparr>)"
  by (auto simp: undisturbed_def wired_def epoll_ok_wait)

lemma undisturbed_timers [simp]:
  "undisturbed s (snd (ws_del_timer fd t)) = undisturbed s t"
  "undisturbed s (snd (ws_add_timer now fd T v t)) = undisturbed s t"
  "undisturbed s (snd (ws_mod_timer now fd T t)) = undisturbed s t"
  by (simp_all add: ws_del_timer_def ws_add_timer_def ws_mod_timer_def case_prod_unfold Let_def)

lemma undisturbed_log:
  "LOG_INFO msg e t = Inr s' \<Longrightarrow> undisturbed s t \<Longrightarrow> undisturbed s s'"
  "LOG_ERROR msg e t = Inr s' \<Longrightarrow> undisturbed s t \<Longrightarrow> undisturbed s s'"
  by (drule LOG_others, metis undisturbed_updates(6))+

lemma undisturbed_close: "close_conn e fd t = Inr (r, s') \<Longrightarrow> undisturbed s t \<Longrightarrow> undisturbed s s'"
  by (auto simp: close_conn_def bind_res_eq_Inr Let_def split: if_splits elim!: undisturbed_log)

lemma undisturbed_new: "deal_NewConn e t = Inr (fd, s') \<Longrightarrow> undisturbed s t \<Longrightarrow> undisturbed s s'"
  by (auto simp: deal_NewConn_def bind_res_eq_Inr Let_def split: if_splits)

lemma undisturbed_closed_read:
  "close_conn e fd (t\<lparr>sv_pool := p\<rparr>) = Inr (r, s2) \<Longrightarrow> LOG_ERROR msg e s2 = Inr s3 \<Longrightarrow> undisturbed s t \<Longrightarrow> undisturbed s s3"
  using undisturbed_log(2)[OF _ undisturbed_close[of e fd "t\<lparr>sv_pool := p\<rparr>" r s2 s]] by simp

lemma undisturbed_read:
  assumes "deal_Read e fd t = Inr (r, s')" and "undisturbed s t"
  shows "undisturbed s s'"
proof -
  have bind: "(case bind_res m f of Inl _ \<Rightarrow> True | Inr x \<Rightarrow> P x)" if "\<And>x. m = Inr x \<Longrightarrow> case f x of Inl _ \<Rightarrow> True | Inr x \<Rightarrow> P x"
    for m :: "'x res" and f :: "'x \<Rightarrow> 'y res" and P using that by (cases m) auto
  obtain conn where conn: "pool_get fd (sv_pool t) = Inr conn" using assms(1) by (auto simp: deal_Read_def bind_res_eq_Inr)
  show ?thesis
  proof (cases "conn = Null_addr")
    case False
    obtain s1 where s1: "LOG_INFO (fd_msg ''deal_Read conn fd: '' fd []) e t = Inr s1"
      using assms(1) conn False by (auto simp: deal_Read_def bind_res_eq_Inr)
    have u: "undisturbed s s1" using undisturbed_log(1)[OF s1 assms(2)] .
    have "case deal_Read e fd t of Inl _ \<Rightarrow> True | Inr x \<Rightarrow> undisturbed s (snd x)"
      unfolding deal_Read_def Let_def conn s1 bind_res_Inr using False u
      by (auto intro!: bind split: option.split prod.split elim!: undisturbed_closed_read)
    then show ?thesis using assms(1) by simp
  qed (use assms conn in \<open>simp add: deal_Read_def\<close>)
qed

lemma undisturbed_event:
  assumes "handle_event e ev s = Inr s'" and "sv_pipe_fd s = Some (r, w)" and "ev_fd ev \<noteq> r"
  shows "undisturbed s s'"
  using assms undisturbed_refl[of s]
  by (auto simp: handle_event_def bind_res_eq_Inr split: if_splits
      dest!: undisturbed_log[where s = s] undisturbed_close[where s = s] undisturbed_new[where s = s] undisturbed_read[where s = s])

section \<open>Turns of the loop\<close>

lemma undisturbed_round:
  "event_round evs s = Inr s' \<Longrightarrow> sv_pipe_fd s = Some (r, w) \<Longrightarrow> \<forall>(e, ev) \<in> set evs. ev_fd ev \<noteq> r \<Longrightarrow> undisturbed s s'"
proof (induction evs s rule: event_round.induct)
  case (2 e ev evs s)
  show ?case
  proof (cases "sv_stop_flag s")
    case False
    then obtain s1 where s1: "handle_event e ev s = Inr s1" "event_round evs s1 = Inr s'"
      using 2(2) by (auto simp: bind_res_eq_Inr)
    have u: "undisturbed s s1" by (rule undisturbed_event[OF s1(1) 2(3)]) (use 2(4) in auto)
    with 2(1)[OF False s1(2)] 2(3,4) show ?thesis using undisturbed_trans[OF u] by (simp add: undisturbed_def wired_def)
  qed (use 2 in simp)
qed simp

text \<open>The events of a turn, with the answers of the environment while each of them is handled.\<close>

definition turn_events :: "server \<Rightarrow> round \<Rightarrow> (env \<times> event) list" where
  "turn_events s turn =
     (let got = (if rd_ret turn < 0 then [] else take (nat (ep_max_events (sv_epoll s))) (rd_ready turn))
      in map (\<lambda>i. (rd_env turn i, got ! i)) [0..<length got])"

lemma loop_turn_events:
  assumes "deliver (rd_signals turn) s = Inr s1" and "epoll_ok (sv_epoll s1)"
  shows "loop_turn turn s =
    event_round (turn_events s1 turn) (s1\<lparr>sv_epoll := snd (ep_wait (rd_ret turn) (rd_ready turn) (sv_epoll s1))\<rparr>)"
proof (cases "rd_ret turn < 0")
  case True
  then show ?thesis using assms by (simp add: loop_turn_def ep_wait_def turn_events_def Let_def)
next
  case False
  define got where "got = take (nat (ep_max_events (sv_epoll s1))) (rd_ready turn)"
  obtain ep where w: "ep_wait (rd_ret turn) (rd_ready turn) (sv_epoll s1) = (int (length got), ep)"
    "ep_events_ref ep = got @ drop (length got) (ep_events (sv_epoll s1))"
    using False by (simp add: ep_wait_def Let_def ep_events_ref_def got_def)
  have evs: "turn_events s1 turn = map (\<lambda>i. (rd_env turn i, got ! i)) [0..<length got]"
    using False by (simp add: turn_events_def got_def)
  have same: "map (\<lambda>i. (rd_env turn i, ep_events_ref ep ! i)) [0..<length got] = map (\<lambda>i. (rd_env turn i, got ! i)) [0..<length got]"
    by (simp add: w(2) nth_append)
  show ?thesis
    using assms w(1) by (cases "got = []") (simp_all add: loop_turn_def evs same)
qed

lemma deliver_frame: "deliver sigs s = Inr s' \<Longrightarrow> s' = s\<lparr>sv_pipe_data := sv_pipe_data s'\<rparr>"
proof (induction sigs s rule: deliver.induct)
  case (2 sig sigs s)
  show ?case
  proof (cases "sv_handlers s sig")
    case None
    with 2 show ?thesis by (auto split: if_splits)
  next
    case (Some r)
    have h: "sigint_handler sig s = s\<lparr>sv_pipe_data := sv_pipe_data (sigint_handler sig s)\<rparr>"
      by (simp add: sigint_handler_def split: option.split)
    have "s' = (sigint_handler sig s)\<lparr>sv_pipe_data := sv_pipe_data s'\<rparr>" using 2(2)[OF Some] 2(3) Some by simp
    also have "\<dots> = s\<lparr>sv_pipe_data := sv_pipe_data s'\<rparr>" by (subst h) simp
    finally show ?thesis .
  qed
qed simp

lemma event_turns_append: "event_turns (xs @ ys) s = bind_res (event_turns xs s) (\<lambda>(ended, s'). event_turns ys s')"
proof (induction xs arbitrary: s)
  case (Cons x xs)
  have "event_turns ys s = Inr (True, s)" if "sv_stop_flag s" using that by (cases ys) simp_all
  moreover have "event_turns (xs @ ys) = (\<lambda>s. bind_res (event_turns xs s) (\<lambda>(ended, s'). event_turns ys s'))"
    by (rule ext) (rule Cons.IH)
  ultimately show ?case by (simp add: bind_res_assoc)
qed simp

lemma turn_events_ready: "(e, ev) \<in> set (turn_events s turn) \<Longrightarrow> ev \<in> set (rd_ready turn)"
  by (auto simp: turn_events_def Let_def simp del: length_take split: if_splits) (metis nth_mem in_set_takeD)

text \<open>A turn of the loop that reports nothing of the pipe leaves the loop running.\<close>

lemma turn_goes_on:
  assumes "loop_turn turn s = Inr s'" and "sv_pipe_fd s = Some (r, w)" and "epoll_ok (sv_epoll s)"
    and "\<forall>ev \<in> set (rd_ready turn). ev_fd ev \<noteq> r"
  shows "wired s s' \<and> sv_stop_flag s' = sv_stop_flag s"
proof -
  obtain s1 where s1: "deliver (rd_signals turn) s = Inr s1" using assms(1) by (auto simp: loop_turn_def bind_res_eq_Inr)
  obtain d where s1': "s1 = s\<lparr>sv_pipe_data := d\<rparr>" using deliver_frame[OF s1] by blast
  let ?s2 = "s1\<lparr>sv_epoll := snd (ep_wait (rd_ret turn) (rd_ready turn) (sv_epoll s1))\<rparr>"
  have "event_round (turn_events s1 turn) ?s2 = Inr s'" using loop_turn_events[OF s1] assms(1,3) s1' by simp
  moreover have "\<forall>(e, ev) \<in> set (turn_events s1 turn). ev_fd ev \<noteq> r"
    using assms(4) turn_events_ready by blast
  ultimately have "undisturbed ?s2 s'" using undisturbed_round[of _ ?s2 s' r w] assms(2) s1' by simp
  moreover have "undisturbed s1 ?s2" by (intro undisturbed_wait) simp
  ultimately show ?thesis using undisturbed_trans[of s1 ?s2 s'] by (auto simp: undisturbed_def wired_def s1')
qed

lemma turns_go_on:
  assumes "event_turns turns s = Inr (ended, s')" and "sv_pipe_fd s = Some (r, w)" and "epoll_ok (sv_epoll s)"
    and "\<forall>turn \<in> set turns. \<forall>ev \<in> set (rd_ready turn). ev_fd ev \<noteq> r" and "\<not> sv_stop_flag s"
  shows "wired s s' \<and> \<not> sv_stop_flag s' \<and> \<not> ended"
  using assms
proof (induction turns arbitrary: s)
  case Nil
  then show ?case by (simp add: wired_def)
next
  case (Cons turn turns)
  obtain s1 where s1: "loop_turn turn s = Inr s1" "event_turns turns s1 = Inr (ended, s')"
    using Cons.prems(1,5) by (auto simp: bind_res_eq_Inr)
  have "wired s s1 \<and> \<not> sv_stop_flag s1" using turn_goes_on[OF s1(1) Cons.prems(2,3)] Cons.prems(4,5) by simp
  with Cons.IH[OF s1(2)] Cons.prems show ?case by (simp add: wired_def)
qed

section \<open>Requests\<close>

text \<open>C3. On a running server whose allocations are granted and whose log lines fit, a key-value command arrives in a POST
  request on a live connection with a timer, without a zero byte in it, with room for
  twice the request in what is left of the buffer, and with a zero byte behind it in the buffer, so that no bytes of an
  earlier request follow. Then it is executed on the table as the specification says; the client gets the fixed
  response, the reply is in the write buffer, the connection stays, and its timer is renewed.\<close>

theorem kv_request_served:
  assumes "kv_rel (sv_kv s) m" and "plenty (sv_kv s)" and "command_ok cmd" and "serves s fd a t c"
    and "log_ready e s"
    and "kv_client cl" and "e_sock e = Bytes msg" and "msg = client_message cl (command_msg cmd)"
    and "t + 2 * int (length msg) \<le> RING_BUFFER_SIZE"
    and "get_buffer (ci_read_buffer c) ! length msg = NUL" and "NUL \<notin> set (command_msg cmd)"
    and "listening s" and "client_fd s fd" and "timer_map (sv_clock s) fd = Some v"
  shows "\<exists>s' c'. handle_event e (readable fd) s = Inr s' \<and>
    kv_rel (sv_kv s') (snd (spec_command cmd m)) \<and> plenty (sv_kv s') \<and>
    sv_sent s' = sv_sent s @ [send_simple_response (e_order e) fd set_success] \<and>
    serves s' fd a (t + int (length msg)) c' \<and>
    take BUFFER_LENGTH (get_buffer (ci_write_buffer c')) = reply_bytes (the (fst (spec_command cmd m))) \<and>
    timer_map (sv_clock s') fd = Some (v + 1) \<and>
    (\<exists>T \<in> set (timer_queue (sv_clock s')). tm_id T = fd \<and> tm_version T = v + 1 \<and> tm_expire_time T = e_now e + TIME_OUT)"
  using kv_event[OF assms(1-14)] by blast

lemma put_head_kv: "kv_client put_head"
  using put_head_ok by (simp add: kv_client_def put_head_def)

lemma hset_k_v: "command_msg (HSet ''k'' ''v'') = ''HSET k v''" "command_ok (HSet ''k'' ''v'')"
  "length (client_message put_head ''HSET k v'') = 87"
  using ascii_hashable put_size[of "''HSET k v''"] by (simp_all add: command_msg_def word_ok_def)

lemma new_buffer: "get_buffer (ci_read_buffer ConnectionInfo_new) = replicate 1024 NUL"
  by (simp add: ConnectionInfo_new_def ring_buffer_new_def get_buffer_def RING_BUFFER_SIZE_def)

theorem kv_request_served_witness:
  "\<exists>s1 s2. handle_event (env0 100 7 Peer_closed) (new_conn server0) server0 = Inr s1 \<and>
    handle_event (env0 101 0 (Bytes (client_message put_head ''HSET k v''))) (readable 7) s1 = Inr s2 \<and>
    kv_rel (sv_kv s2) [''k'' \<mapsto> ''v'']"
proof -
  let ?m = "client_message put_head ''HSET k v''" and ?e = "env0 101 0 (Bytes (client_message put_head ''HSET k v''))"
  obtain s1 c where s1: "handle_event (env0 100 7 Peer_closed) (new_conn server0) server0 = Inr s1"
    "serves s1 7 0 0 c" "c = ConnectionInfo_new\<lparr>ci_fd := 7, ci_last_active_time := 100, ci_addr := \<lparr>sin_addr = 1, sin_port = 2\<rparr>\<rparr>"
    "sv_kv s1 = boot" "listening s1" "client_fd s1 7" "log_ready ?e s1" "timer_map (sv_clock s1) 7 = Some 1"
    using server0_first by blast
  have kv: "kv_rel (sv_kv s1) Map.empty" "plenty (sv_kv s1)" unfolding s1(4) by (rule boot_ok)+
  have msg: "?m = client_message put_head (command_msg (HSet ''k'' ''v''))" by (simp add: hset_k_v)
  have "0 + 2 * int (length ?m) \<le> RING_BUFFER_SIZE" "get_buffer (ci_read_buffer c) ! length ?m = NUL"
    "NUL \<notin> set (command_msg (HSet ''k'' ''v''))"
    by (simp_all add: hset_k_v RING_BUFFER_SIZE_def s1(3) new_buffer)
  from kv_request_served[OF kv hset_k_v(2) s1(2,7) put_head_kv _ msg this s1(5,6,8)] s1(1) show ?thesis by auto
qed

text \<open>A request of a session: the environment while it is handled, the client's header lines, and the command.\<close>

type_synonym session_request = "env \<times> client_head \<times> kv_command"

fun request_length :: "session_request \<Rightarrow> nat" where
  "request_length (e, cl, cmd) = length (client_message cl (command_msg cmd))"

definition session_request_ok :: "server \<Rightarrow> session_request \<Rightarrow> bool" where
  "session_request_ok s = (\<lambda>(e, cl, cmd). kv_client cl \<and> command_ok cmd \<and> NUL \<notin> set (command_msg cmd) \<and>
     e_sock e = Bytes (client_message cl (command_msg cmd)) \<and> log_ready e s)"

text \<open>
  The lengths of the requests a connection can take one after another when \<open>t\<close> bytes have been read
  and the buffer is clear from position \<open>L\<close> on: each fits twice into what is left, and none is shorter
  than the one before.
\<close>

fun session_fits :: "int \<Rightarrow> nat \<Rightarrow> nat list \<Rightarrow> bool" where
  "session_fits t L [] = True"
| "session_fits t L (n # ns) =
     (t + 2 * int n \<le> RING_BUFFER_SIZE \<and> L \<le> n \<and> session_fits (t + int n) n ns)"

text \<open>The turn of the loop in which a request of a session arrives and nothing else happens.\<close>

definition session_turn :: "int \<Rightarrow> session_request \<Rightarrow> round" where
  "session_turn fd = (\<lambda>(e, cl, cmd). \<lparr>rd_signals = [], rd_ret = 1, rd_ready = [readable fd], rd_env = (\<lambda>_. e)\<rparr>)"

lemma session_turn_event:
  assumes "epoll_ok (sv_epoll s)" and "0 < ep_max_events (sv_epoll s)" and "\<not> sv_stop_flag s"
  shows "loop_turn (session_turn fd (e, cl, cmd)) s =
    handle_event e (readable fd) (s\<lparr>sv_epoll := snd (ep_wait 1 [readable fd] (sv_epoll s))\<rparr>)"
proof -
  obtain k where "nat (ep_max_events (sv_epoll s)) = Suc k" using assms(2) by (cases "nat (ep_max_events (sv_epoll s))") auto
  then have "turn_events s (session_turn fd (e, cl, cmd)) = [(e, readable fd)]"
    by (simp add: turn_events_def session_turn_def)
  then show ?thesis using loop_turn_events[of "session_turn fd (e, cl, cmd)" s s] assms(1,3)
    by (simp add: session_turn_def bind_res_def split: sum.split)
qed

text \<open>C2. A session of one client on a live connection with a timer, one request in each turn of the loop, without signals and timer
  callbacks in between, on a running server whose allocations are granted and whose log lines fit. The
  requests are POST requests with key-value commands without zero bytes; each fits twice into what is left of the
  buffer and is not shorter than the one before, and the buffer is clear from position \<open>L\<close> on, which the first request
  reaches. Then the loop goes on through all of them: the commands are executed on the table one after another as the
  specification executes them, every request is answered with the fixed response, the specification's reply to the last one
  is in the write buffer, and every request has renewed the timer of the connection.\<close>

theorem kv_session:
  assumes "kv_rel (sv_kv s) m" and "plenty (sv_kv s)" and "serves s fd a t c"
    and "\<forall>b \<in> set (drop L (get_buffer (ci_read_buffer c))). b = NUL"
    and "\<forall>r \<in> set reqs. session_request_ok s r"
    and "session_fits t L (map request_length reqs)"
    and "listening s" and "client_fd s fd" and "\<not> sv_stop_flag s" and "timer_map (sv_clock s) fd = Some v"
    and "epoll_ok (sv_epoll s)" and "0 < ep_max_events (sv_epoll s)"
  shows "\<exists>s' c'. event_turns (map (session_turn fd) reqs) s = Inr (False, s') \<and>
    kv_rel (sv_kv s') (snd (spec_run spec_command (map (\<lambda>(e, cl, cmd). cmd) reqs) m)) \<and> plenty (sv_kv s') \<and>
    sv_sent s' = sv_sent s @ map (\<lambda>(e, cl, cmd). send_simple_response (e_order e) fd set_success) reqs \<and>
    serves s' fd a (t + int (sum_list (map request_length reqs))) c' \<and>
    (reqs = [] \<or> take BUFFER_LENGTH (get_buffer (ci_write_buffer c')) =
       reply_bytes (the (last (fst (spec_run spec_command (map (\<lambda>(e, cl, cmd). cmd) reqs) m))))) \<and>
    timer_map (sv_clock s') fd = Some (v + int (length reqs))"
  using assms
proof (induction reqs arbitrary: s m t c L v)
  case Nil
  then show ?case by auto
next
  case (Cons r reqs)
  obtain e cl cmd where r: "r = (e, cl, cmd)" by (cases r)
  let ?msg = "client_message cl (command_msg cmd)" and ?n = "length (client_message cl (command_msg cmd))"
  let ?s0 = "s\<lparr>sv_epoll := snd (ep_wait 1 [readable fd] (sv_epoll s))\<rparr>"
  from Cons.prems(5) r have req: "kv_client cl" "command_ok cmd" "NUL \<notin> set (command_msg cmd)" "e_sock e = Bytes ?msg"
    "log_ready e ?s0" by (auto simp: session_request_ok_def)
  from Cons.prems(6) r have fits: "t + 2 * int ?n \<le> RING_BUFFER_SIZE" "L \<le> ?n"
    "session_fits (t + int ?n) ?n (map request_length reqs)" by simp_all
  have "conn_at t c" using Cons.prems(3) by (simp add: serves_def)
  then have buf: "length (get_buffer (ci_read_buffer c)) = 1024" and t: "0 \<le> t"
    by (simp_all add: conn_at_def rb_ok_def get_buffer_def RING_BUFFER_SIZE_def)
  have n: "?n < 1024" using fits(1) t by (simp add: RING_BUFFER_SIZE_def)
  have "drop L (get_buffer (ci_read_buffer c)) ! (?n - L) \<in> set (drop L (get_buffer (ci_read_buffer c)))"
    by (rule nth_mem) (use n fits(2) buf in simp)
  then have "get_buffer (ci_read_buffer c) ! ?n \<in> set (drop L (get_buffer (ci_read_buffer c)))"
    using n fits(2) buf by simp
  then have clean: "get_buffer (ci_read_buffer c) ! ?n = NUL" using Cons.prems(4) by blast
  have s0: "kv_rel (sv_kv ?s0) m" "plenty (sv_kv ?s0)" "serves ?s0 fd a t c" "listening ?s0" "client_fd ?s0 fd"
    "timer_map (sv_clock ?s0) fd = Some v"
    using Cons.prems(1-3,7,8,10) by (simp_all add: serves_def listening_def client_fd_def)
  from kv_event[OF s0(1,2) req(2) s0(3) req(5,1,4) refl fits(1) clean req(3) s0(4-6)]
  obtain s1 c1 where s1: "handle_event e (readable fd) ?s0 = Inr s1" "kv_rel (sv_kv s1) (snd (spec_command cmd m))"
    "plenty (sv_kv s1)" "sv_sent s1 = sv_sent s @ [send_simple_response (e_order e) fd set_success]"
    "serves s1 fd a (t + int ?n) c1"
    "take BUFFER_LENGTH (get_buffer (ci_write_buffer c1)) = reply_bytes (the (fst (spec_command cmd m)))"
    "timer_map (sv_clock s1) fd = Some (v + 1)"
    "drop ?n (get_buffer (ci_read_buffer c1)) = drop ?n (get_buffer (ci_read_buffer c))"
    "sv_tcp s1 = sv_tcp s" "sv_pipe_fd s1 = sv_pipe_fd s" "sv_stop_flag s1 = sv_stop_flag s"
    "\<forall>e'. log_ready e' s1 = log_ready e' s" by auto
  have turn: "loop_turn (session_turn fd r) s = Inr s1"
    using session_turn_event[OF Cons.prems(11,12,9), of fd e cl cmd] s1(1) by (simp add: r)
  obtain pr pw where pipe: "sv_pipe_fd s = Some (pr, pw)" "fd \<noteq> pr"
    using Cons.prems(7,8) by (auto simp: listening_def client_fd_def)
  have "wired s s1" using turn_goes_on[OF turn pipe(1) Cons.prems(11)] pipe(2) by (simp add: r session_turn_def)
  then have ep: "epoll_ok (sv_epoll s1)" "0 < ep_max_events (sv_epoll s1)" using Cons.prems(11,12) by (simp_all add: wired_def)
  have zero: "\<forall>b \<in> set (drop ?n (get_buffer (ci_read_buffer c1))). b = NUL"
    unfolding s1(8) by (intro ballI Cons.prems(4)[rule_format] subsetD[OF set_drop_subset_set_drop[OF fits(2)]])
  have ok: "\<forall>r \<in> set reqs. session_request_ok s1 r"
  proof
    fix q assume "q \<in> set reqs"
    then have "session_request_ok s q" using Cons.prems(5) by simp
    then show "session_request_ok s1 q" by (cases q) (simp add: session_request_ok_def s1(12))
  qed
  have up: "listening s1" "client_fd s1 fd" "\<not> sv_stop_flag s1"
    using Cons.prems(7-9) s1(11) client_fd_same[OF s1(9,10)] by simp_all
  let ?cmds = "map (\<lambda>(e, cl, cmd). cmd) reqs" and ?m = "snd (spec_command cmd m)"
  obtain s' c' where s': "event_turns (map (session_turn fd) reqs) s1 = Inr (False, s')"
    "kv_rel (sv_kv s') (snd (spec_run spec_command ?cmds ?m))" "plenty (sv_kv s')"
    "sv_sent s' = sv_sent s1 @ map (\<lambda>(e, cl, cmd). send_simple_response (e_order e) fd set_success) reqs"
    "serves s' fd a (t + int ?n + int (sum_list (map request_length reqs))) c'"
    "reqs = [] \<or> take BUFFER_LENGTH (get_buffer (ci_write_buffer c')) = reply_bytes (the (last (fst (spec_run spec_command ?cmds ?m))))"
    "timer_map (sv_clock s') fd = Some (v + 1 + int (length reqs))"
    using Cons.IH[OF s1(2,3,5) zero ok fits(3) up s1(7) ep] by blast
  have run: "event_turns (map (session_turn fd) (r # reqs)) s = Inr (False, s')"
    using Cons.prems(9) turn s'(1) by simp
  have len: "length (fst (spec_run spec_command ?cmds ?m)) = length reqs" by (simp add: spec_run_length)
  show ?case
  proof (cases "reqs = []")
    case True
    then have "s' = s1" using s'(1) up(3) by simp
    with True s1 run show ?thesis by (intro exI[of _ s1] exI[of _ c1]) (simp add: r case_prod_unfold Let_def ac_simps)
  next
    case False
    with len have "fst (spec_run spec_command ?cmds ?m) \<noteq> []" by auto
    with False s' s1(4) run show ?thesis
      by (intro exI[of _ s'] exI[of _ c']) (simp add: r case_prod_unfold Let_def ac_simps)
  qed
qed

theorem kv_session_witness:
  "\<exists>s1 s2 reqs. handle_event (env0 100 7 Peer_closed) (new_conn server0) server0 = Inr s1 \<and>
    map (\<lambda>(e, cl, cmd). cmd) reqs = [HSet ''k'' ''v'', HMod ''k'' ''w''] \<and>
    event_turns (map (session_turn 7) reqs) s1 = Inr (False, s2) \<and>
    kv_rel (sv_kv s2) [''k'' \<mapsto> ''w''] \<and> length (sv_sent s2) = 2"
proof -
  let ?e1 = "env0 101 0 (Bytes (client_message put_head ''HSET k v''))"
  let ?e2 = "env0 102 0 (Bytes (client_message put_head ''HMOD k w''))"
  let ?reqs = "[(?e1, put_head, HSet ''k'' ''v''), (?e2, put_head, HMod ''k'' ''w'')]"
  obtain s1 c where s1: "handle_event (env0 100 7 Peer_closed) (new_conn server0) server0 = Inr s1"
    "serves s1 7 0 0 c" "c = ConnectionInfo_new\<lparr>ci_fd := 7, ci_last_active_time := 100, ci_addr := \<lparr>sin_addr = 1, sin_port = 2\<rparr>\<rparr>"
    "sv_kv s1 = boot" "listening s1" "client_fd s1 7" "\<forall>now x i. log_ready (env0 now x i) s1"
    "timer_map (sv_clock s1) 7 = Some 1" "sv_stop_flag s1 = False" "sv_sent s1 = []"
    using server0_first by blast
  have kv: "kv_rel (sv_kv s1) Map.empty" "plenty (sv_kv s1)" unfolding s1(4) by (rule boot_ok)+
  have mod: "command_msg (HMod ''k'' ''w'') = ''HMOD k w''" "command_ok (HMod ''k'' ''w'')"
    "length (client_message put_head ''HMOD k w'') = 87"
    using ascii_hashable put_size[of "''HMOD k w''"] by (simp_all add: command_msg_def word_ok_def)
  have zero: "\<forall>b \<in> set (drop 0 (get_buffer (ci_read_buffer c))). b = NUL" by (simp add: s1(3) new_buffer)
  have ok: "\<forall>r \<in> set ?reqs. session_request_ok s1 r"
    using s1(7) put_head_kv hset_k_v mod by (simp add: session_request_ok_def)
  have fits: "session_fits 0 0 (map request_length ?reqs)"
    by (simp add: hset_k_v mod RING_BUFFER_SIZE_def)
  have run: "\<not> sv_stop_flag s1" by (simp add: s1(9))
  have "undisturbed server0 s1" by (rule undisturbed_event[OF s1(1) server0_fields(5)]) (simp add: server0_fields)
  then have ep: "epoll_ok (sv_epoll s1)" "0 < ep_max_events (sv_epoll s1)"
    using server0_fields(12,13) by (simp_all add: undisturbed_def wired_def MAX_EVENTS_def)
  from kv_session[OF kv s1(2) zero ok fits s1(5,6) run s1(8) ep] obtain s2 where
    s2: "event_turns (map (session_turn 7) ?reqs) s1 = Inr (False, s2)" "kv_rel (sv_kv s2) [''k'' \<mapsto> ''w'']" "length (sv_sent s2) = 2"
    using s1(10) by (auto simp: Let_def)
  show ?thesis by (intro exI[of _ s1] exI[of _ s2] exI[of _ ?reqs] conjI s1(1) s2) simp
qed

section \<open>Requests for other routes, and rejected ones\<close>









section \<open>Stopping and starting\<close>

text \<open>
  A turn of the loop that takes a signal from the pipe: some events are reported and handled before that of
  the pipe, after which the server is \<open>s2\<close>; SIGINT or SIGTERM is among the first 1024 signals in the pipe, whether it
  arrived in this turn or earlier; and \<open>recv\<close> does not fail.
\<close>

definition signal_turn :: "server \<Rightarrow> round \<Rightarrow> server \<Rightarrow> bool" where
  "signal_turn s turn s2 = (\<exists>r w s1 before e after. sv_pipe_fd s = Some (r, w) \<and> r \<noteq> tcp_socket_fd (sv_tcp s) \<and>
     deliver (rd_signals turn) s = Inr s1 \<and>
     turn_events s1 turn = before @ (e, readable r) # after \<and> (\<forall>(e', ev) \<in> set before. ev_fd ev \<noteq> r) \<and>
     event_round before (s1\<lparr>sv_epoll := snd (ep_wait (rd_ret turn) (rd_ready turn) (sv_epoll s1))\<rparr>) = Inr s2 \<and>
     {SIGINT, SIGTERM} \<inter> set (take 1024 (sv_pipe_data s1)) \<noteq> {} \<and> \<not> e_recv_error e)"

lemma scan_signals_found: "sig \<in> set sigs \<Longrightarrow> sig = SIGINT \<or> sig = SIGTERM \<Longrightarrow> scan_signals sigs stop"
proof (induction sigs arbitrary: stop)
  case (Cons x xs)
  have mono: "scan_signals ys True" for ys by (induction ys) simp_all
  from Cons show ?case by (auto simp: mono)
qed simp

lemma round_stopped: "sv_stop_flag s \<Longrightarrow> event_round evs s = Inr s"
  by (cases evs) auto

lemma round_append:
  "event_round xs s = Inr s1 \<Longrightarrow> event_round (xs @ ys) s = event_round ys s1"
proof (induction xs s rule: event_round.induct)
  case (2 e ev evs s)
  show ?case
  proof (cases "sv_stop_flag s")
    case True
    with 2(2) show ?thesis by (simp add: round_stopped)
  next
    case False
    then obtain s' where "handle_event e ev s = Inr s'" "event_round evs s' = Inr s1"
      using 2(2) by (auto simp: bind_res_eq_Inr)
    with 2(1)[OF False] False show ?thesis by simp
  qed
qed simp

text \<open>The server after it has taken the signals.\<close>

abbreviation stopped :: "server \<Rightarrow> server" where
  "stopped s \<equiv> s\<lparr>sv_stop_flag := True, sv_pipe_data := drop 1024 (sv_pipe_data s)\<rparr>"

lemma turn_stops:
  assumes "signal_turn s turn s2" and "listening s" and "epoll_ok (sv_epoll s)" and "\<not> sv_stop_flag s"
  shows "loop_turn turn s = Inr (stopped s2)" and "\<not> sv_stop_flag s2"
proof -
  obtain r w s1 before e after where pipe: "sv_pipe_fd s = Some (r, w)" "r \<noteq> tcp_socket_fd (sv_tcp s)"
    and s1: "deliver (rd_signals turn) s = Inr s1"
    and evs: "turn_events s1 turn = before @ (e, readable r) # after" "\<forall>(e', ev) \<in> set before. ev_fd ev \<noteq> r"
    and s2: "event_round before (s1\<lparr>sv_epoll := snd (ep_wait (rd_ret turn) (rd_ready turn) (sv_epoll s1))\<rparr>) = Inr s2"
    and sig: "{SIGINT, SIGTERM} \<inter> set (take 1024 (sv_pipe_data s1)) \<noteq> {}" "\<not> e_recv_error e"
    using assms(1) by (auto simp: signal_turn_def)
  let ?s1 = "s1\<lparr>sv_epoll := snd (ep_wait (rd_ret turn) (rd_ready turn) (sv_epoll s1))\<rparr>"
  obtain d where s1': "s1 = s\<lparr>sv_pipe_data := d\<rparr>" using deliver_frame[OF s1] by blast
  have u: "undisturbed s1 s2"
    using undisturbed_round[OF s2 _ evs(2), of w] undisturbed_wait[of s1 s1] undisturbed_trans[of s1 ?s1 s2] pipe(1) s1' by simp
  then show run: "\<not> sv_stop_flag s2" using assms(4) by (simp add: undisturbed_def s1')
  have up: "sv_tcp s2 = sv_tcp s" "sv_pipe_fd s2 = Some (r, w)" "sv_pipe_data s2 = sv_pipe_data s1"
    using u pipe(1) by (simp_all add: undisturbed_def wired_def s1')
  have "scan_signals (take 1024 (sv_pipe_data s2)) False" "sv_pipe_data s2 \<noteq> []"
    using sig(1) up(3) scan_signals_found[of _ "take 1024 (sv_pipe_data s2)"] by auto
  then have "handle_event e (readable r) s2 = Inr (stopped s2)"
    using assms(2) up pipe(2) sig(2) run by (simp add: handle_event_def listening_def del_signal_def)
  with run have "event_round ((e, readable r) # after) s2 = Inr (stopped s2)" by (simp add: round_stopped)
  then show "loop_turn turn s = Inr (stopped s2)"
    using loop_turn_events[OF s1] assms(3) s1' round_append[OF s2] evs(1) by simp
qed

text \<open>C21. A signal ends the loop. After turns that do not fault and report nothing of the pipe the loop goes on, whatever
  signals have arrived. In the turn that reports it when SIGINT or SIGTERM is among the first 1024 signals in the pipe,
  the events in front of it are handled with the stop flag down, none behind it is, and the loop returns; no turn is run after
  it. (That the events in front are handled without a fault, and that \<open>recv\<close> succeeds, is in \<open>signal_turn\<close>.)\<close>

theorem signal_ends_loop:
  assumes "listening s" and "sv_pipe_fd s = Some (r, w)" and "epoll_ok (sv_epoll s)" and "\<not> sv_stop_flag s"
    and "\<forall>turn \<in> set earlier. \<forall>ev \<in> set (rd_ready turn). ev_fd ev \<noteq> r"
    and "event_turns earlier s = Inr (ended, s0)" and "signal_turn s0 turn s2"
  shows "\<not> ended \<and> \<not> sv_stop_flag s2 \<and> event_turns (earlier @ turn # later) s = Inr (True, stopped s2)"
proof -
  have s0: "wired s s0" "\<not> sv_stop_flag s0" "\<not> ended" using turns_go_on[OF assms(6,2,3,5,4)] by blast+
  then have up: "listening s0" "epoll_ok (sv_epoll s0)" using assms(1,3) by (simp_all add: wired_def listening_def)
  note stop = turn_stops[OF assms(7) up s0(2)]
  have "event_turns later (stopped s2) = Inr (True, stopped s2)" by (cases later) auto
  with stop s0 assms(6) show ?thesis by (simp add: event_turns_append)
qed

definition turn0 :: round where
  "turn0 = \<lparr>rd_signals = [SIGTERM], rd_ret = 1, rd_ready = [readable 5], rd_env = (\<lambda>_. env0 103 0 Peer_closed)\<rparr>"

lemma turn0_stops:
  assumes "sv_pipe_fd s = Some (5, w)" and "tcp_socket_fd (sv_tcp s) \<noteq> 5" and "0 < ep_max_events (sv_epoll s)"
    and "sv_handlers s SIGTERM \<noteq> None" and "length (sv_pipe_data s) < 1024"
  shows "\<exists>s2. signal_turn s turn0 s2 \<and> sv_kv s2 = sv_kv s \<and> sv_closed s2 = sv_closed s"
proof -
  let ?s1 = "s\<lparr>sv_pipe_data := sv_pipe_data s @ [SIGTERM]\<rparr>"
  let ?s2 = "?s1\<lparr>sv_epoll := snd (ep_wait (rd_ret turn0) (rd_ready turn0) (sv_epoll ?s1))\<rparr>"
  have d: "deliver (rd_signals turn0) s = Inr ?s1" using assms(1,4) by (auto simp: turn0_def sigint_handler_def)
  obtain k where "nat (ep_max_events (sv_epoll s)) = Suc k" using assms(3) by (cases "nat (ep_max_events (sv_epoll s))") auto
  then have ev: "turn_events ?s1 turn0 = [] @ (env0 103 0 Peer_closed, readable 5) # []"
    by (simp add: turn_events_def turn0_def)
  have sig: "{SIGINT, SIGTERM} \<inter> set (take 1024 (sv_pipe_data ?s1)) \<noteq> {}" using assms(5) by simp
  have "signal_turn s turn0 ?s2" unfolding signal_turn_def
    using assms(1,2) d ev sig
    by (intro exI[of _ 5] exI[of _ w] exI[of _ ?s1] exI[of _ "[]"] exI[of _ "env0 103 0 Peer_closed"]) simp
  then show ?thesis by (intro exI[of _ ?s2]) simp
qed

text \<open>A turn in which \<open>epoll_wait\<close> is interrupted by a first signal, and the turn that takes it.\<close>

theorem signal_ends_loop_witness:
  "\<exists>s2. event_turns ([\<lparr>rd_signals = [SIGINT], rd_ret = - 1, rd_ready = [], rd_env = (\<lambda>_. env0 102 0 Peer_closed)\<rparr>] @ turn0 # [turn0])
      server0 = Inr (True, stopped s2) \<and> sv_kv s2 = boot"
proof -
  let ?t = "\<lparr>rd_signals = [SIGINT], rd_ret = - 1, rd_ready = [], rd_env = (\<lambda>_. env0 102 0 Peer_closed)\<rparr>"
  let ?s0 = "server0\<lparr>sv_pipe_data := [SIGINT]\<rparr>"
  have d: "deliver [SIGINT] server0 = Inr ?s0" by (simp add: server0_fields sigint_handler_def)
  have run: "\<not> sv_stop_flag server0" by (simp add: server0_fields)
  have e: "event_turns [?t] server0 = Inr (False, ?s0)"
    using loop_turn_events[of ?t server0 ?s0] d server0_fields(12) run by (simp add: turn_events_def ep_wait_def)
  obtain s2 where s2: "signal_turn ?s0 turn0 s2" "sv_kv s2 = sv_kv ?s0"
    using turn0_stops[of ?s0 6] by (auto simp: server0_fields MAX_EVENTS_def)
  from signal_ends_loop[OF server0_up(1) server0_fields(5,12) run _ e s2(1), of "[turn0]"] s2(2) show ?thesis
    by (auto simp: server0_fields)
qed

text \<open>A start in which every system call succeeds.\<close>

definition start_ok :: "start_env \<Rightarrow> bool" where
  "start_ok a = (0 \<le> st_epoll_fd a \<and> 0 \<le> a_socket (st_sockets a) \<and> 0 \<le> a_setsockopt (st_sockets a) \<and>
     0 \<le> a_bind (st_sockets a) \<and> 0 \<le> a_listen (st_sockets a) \<and> 0 \<le> st_socketpair a \<and> 0 \<le> st_add_pipe a \<and>
     st_sigaction a \<noteq> - 1 \<and> 0 \<le> st_add_listen a)"

lemma Webserver_new_ok:
  assumes "start_ok a" and "init_kvengine (st_readable a) db (st_kv a) = Inr kv"
  shows "\<exists>s. Webserver_new a db = Inr s \<and> sv_kv s = kv \<and> listening s \<and> \<not> sv_stop_flag s"
proof -
  obtain p where "Conn_pool_new 10240 1024 (st_malloc a) = Inr p"
    by (cases "st_malloc a") (simp_all add: Conn_pool_new_def)
  with assms show ?thesis
    by (simp add: start_ok_def Webserver_new_def Epoll_new_def MAX_EVENTS_def tcp_socket_new_def tcp_create_def
        add_sig_def ep_add_def listening_def Let_def)
qed

text \<open>C5. A restart keeps the table. The turn that takes a signal from the pipe leaves a table all of whose pairs are
  storable: no colon in a key, no newline or zero byte, and the line fits the buffer that reads it. The
  file can be written, and read by the next process, whose system calls and allocations succeed and whose
  bucket array finds its memory zeroed. Then the loop has ended, the body of the destructor writes a file, and
  the next server starts from it with the same keys and values.\<close>

theorem restart_keeps_table:
  assumes "signal_turn s turn s2" and "listening s" and "epoll_ok (sv_epoll s)" and "\<not> sv_stop_flag s"
    and "kv_rel (sv_kv s2) m" and "\<And>k v. m k = Some v \<Longrightarrow> storable (k, v)"
    and "start_ok a" and "st_readable a" and "st_kv a = boot_state (\<lambda>_. False) junk" and "zeroed junk"
  shows "\<exists>db' s3 s4. event_turns (turn # later) s = Inr (True, stopped s2) \<and>
    Webserver_shutdown True db (stopped s2) = Inr (Some db', s3) \<and>
    Webserver_new a (Some db') = Inr s4 \<and> kv_rel (sv_kv s4) m \<and> plenty (sv_kv s4)"
proof -
  have "event_turns later (stopped s2) = Inr (True, stopped s2)" by (cases later) auto
  then have loop: "event_turns (turn # later) s = Inr (True, stopped s2)" using turn_stops(1)[OF assms(1-4)] assms(4) by simp
  obtain db' kv1 kv2 where db: "exit_kvengine True db (sv_kv s2) = Inr (Some db', kv1)"
    "init_kvengine True (Some db') (boot_state (\<lambda>_. False) junk) = Inr kv2" "kv_rel kv2 m" "plenty kv2"
    using restart[OF assms(5,6,10)] by blast
  have "\<exists>s3. Webserver_shutdown True db (stopped s2) = Inr (Some db', s3)"
    using db(1) by (simp add: Webserver_shutdown_def split: option.split)
  with Webserver_new_ok[OF assms(7), of "Some db'" kv2] db(2-4) assms(8,9) loop show ?thesis by auto
qed

theorem restart_keeps_table_witness:
  "\<exists>s s2 db' s3 s4. kv_rel (sv_kv s) [''k'' \<mapsto> ''v''] \<and> event_turns [turn0] s = Inr (True, stopped s2) \<and>
    Webserver_shutdown True None (stopped s2) = Inr (Some db', s3) \<and> Webserver_new start0 (Some db') = Inr s4 \<and>
    kv_rel (sv_kv s4) [''k'' \<mapsto> ''v'']"
proof -
  obtain kv where kv: "kv_rel kv [''k'' \<mapsto> ''v'']" using boot_one_key by blast
  let ?s = "server0\<lparr>sv_kv := kv\<rparr>"
  have st: "storable (k, v)" if "[''k'' \<mapsto> ''v''] k = Some v" for k v :: string
    using that by (auto simp: storable_def BUFFER_LENGTH_def split: if_splits)
  have up: "listening ?s" "epoll_ok (sv_epoll ?s)" "\<not> sv_stop_flag ?s"
    using server0_up(1) by (simp_all add: listening_def server0_fields)
  obtain s2 where s2: "signal_turn ?s turn0 s2" "sv_kv s2 = kv"
    using turn0_stops[of ?s 6] by (auto simp: server0_fields MAX_EVENTS_def)
  have table: "kv_rel (sv_kv s2) [''k'' \<mapsto> ''v'']" using kv s2(2) by simp
  have start: "start_ok start0" "st_readable start0" "st_kv start0 = boot_state (\<lambda>_. False) (\<lambda>_. 0)" "zeroed (\<lambda>_. 0)"
    by (simp_all add: start_ok_def start0_def zeroed_def)
  have "kv_rel (sv_kv ?s) [''k'' \<mapsto> ''v'']" using kv by simp
  with restart_keeps_table[OF s2(1) up table st start, of "[]" None] show ?thesis by blast
qed


section \<open>What goes wrong\<close>

text \<open>C35. A second connection is fatal to the first: after the server has accepted two, the next bytes on
  the first one make it access the object that the second has overwritten.\<close>

theorem second_connection_kills_first:
  assumes "Conn_pool_new nb 1024 True = Inr (sv_pool s)" and "4 \<le> nb"
    and "e_accept e1 = fd1" and "e_accept e2 = fd2" and "fd1 \<noteq> fd2"
    and "listening s" and "client_fd s fd1" and "client_fd s fd2"
    and "log_ready e1 s" and "log_ready e2 s" and "log_ready e3 s"
  shows "\<exists>s1 s2. handle_event e1 (new_conn s) s = Inr s1 \<and> handle_event e2 (new_conn s) s1 = Inr s2 \<and>
    handle_event e3 (readable fd1) s2 = Inl Bad_pointer"
proof -
  obtain p1 where p1: "acquire (sv_pool s) = Inr (Block 0, p1)"
    "objs p1 = (\<lambda>b. if b = 0 then Some ConnectionInfo_new else None)" "free_list p1 = Block 1024"
    "total_blocks p1 = nb" "block_size p1 = 1024" "id_map p1 = []"
    using server_pool_first[OF assms(1,2)] by blast
  have fds: "0 \<le> fd1" "0 \<le> fd2" "fd1 < 2 ^ 31" "fd2 < 2 ^ 31" "int32 fd1" "int32 fd2"
    using assms(7,8) client_int32 by (auto simp: client_fd_def)
  let ?c1 = "ConnectionInfo_new\<lparr>ci_fd := fd1, ci_last_active_time := e_now e1, ci_addr := e_peer e1\<rparr>"
  let ?q1 = "pool_update p1 (Block 0) ?c1\<lparr>id_map := [(to_size_t fd1, Block 0)]\<rparr>"
  have a1: "add_map fd1 (Block 0) (e_peer e1) (e_now e1) p1 = Inr ?q1"
    using p1(2,6) by (simp add: add_map_def pool_object_def Let_def)
  let ?t1 = "s\<lparr>sv_epoll := snd (ep_add (e_ctl e1) fd1 EPOLLIN (sv_epoll s)), sv_pool := ?q1\<rparr>"
  let ?s1 = "logged 1 (fd_msg ''add_timer conn fd: '' fd1 []) e1 (snd (ws_add_timer (e_now e1) fd1 TIME_OUT 1 ?t1))"
  have "deal_NewConn e1 s = Inr (fd1, ?t1)"
    using assms(3,6) fds p1(1) a1 by (simp add: deal_NewConn_def Accept_tcp_def listening_def)
  from handle_new[OF assms(6) this _ fds(5)] assms(9) have ev1: "handle_event e1 (new_conn s) s = Inr ?s1" by simp
  have s1: "sv_pool ?s1 = ?q1" "sv_tcp ?s1 = sv_tcp s" "sv_pipe_fd ?s1 = sv_pipe_fd s" by simp_all
  have log1: "log_ready e2 ?s1" "log_ready e3 ?s1" using assms(9-11) fds(5) by simp_all
  have up1: "listening ?s1" using client_fd_same(2)[OF s1(2,3)] assms(6) by blast
  have "objs ?q1 = (\<lambda>b. if b = 0 then Some ?c1 else None)" using p1(2) by (auto simp: fun_eq_iff)
  moreover have "free_list ?q1 = Block 1024" "total_blocks ?q1 = nb" "block_size ?q1 = 1024"
    using p1(3-5) by (simp_all add: pool_update_def)
  ultimately obtain p2 where p2: "acquire ?q1 = Inr (Block 1024, p2)"
    "objs p2 = (\<lambda>b. if b = 1024 then Some ConnectionInfo_new else None)"
    using server_pool_second[of ?q1 ?c1 nb] assms(2) by blast
  have ids: "id_map p2 = [(to_size_t fd1, Block 0)]"
    using p2(1) by (auto simp: acquire_def construct_def bind_res_eq_Inr pool_update_def split: paddr.splits if_splits)
  have neq: "to_size_t fd1 \<noteq> to_size_t fd2" using assms(5) fds by (simp add: to_size_t_def)
  obtain q2 where q2: "add_map fd2 (Block 1024) (e_peer e2) (e_now e2) p2 = Inr q2" "objs q2 0 = None"
    "pool_get fd1 q2 = Inr (Block 0)"
    using p2(2) neq ids id_map.find_insert[of "id_map p2" "to_size_t fd1" "to_size_t fd2" "Block 1024"]
    by (auto simp: add_map_def pool_object_def Let_def pool_get_def)
  let ?t2 = "?s1\<lparr>sv_epoll := snd (ep_add (e_ctl e2) fd2 EPOLLIN (sv_epoll ?s1)), sv_pool := q2\<rparr>"
  let ?s2 = "logged 1 (fd_msg ''add_timer conn fd: '' fd2 []) e2 (snd (ws_add_timer (e_now e2) fd2 TIME_OUT 1 ?t2))"
  have "deal_NewConn e2 ?s1 = Inr (fd2, ?t2)"
    using assms(4,6) fds p2(1) q2(1) s1(1) by (simp add: deal_NewConn_def Accept_tcp_def listening_def)
  from handle_new[OF up1 this _ fds(6)] log1 have ev2: "handle_event e2 (new_conn s) ?s1 = Inr ?s2" by simp
  have s2: "sv_pool ?s2 = q2" "sv_tcp ?s2 = sv_tcp s" "sv_pipe_fd ?s2 = sv_pipe_fd s" using s1 by simp_all
  have log2: "log_ready e3 ?s2" using log1 fds(6) by simp
  have "deal_Read e3 fd1 ?s2 = Inl Bad_pointer"
    using q2(2,3) s2(1) log2 fds(5) by (simp add: deal_Read_def pool_object_def)
  moreover have "listening ?s2" "client_fd ?s2 fd1" using client_fd_same[OF s2(2,3)] assms(6,7) by blast+
  ultimately have "handle_event e3 (readable fd1) ?s2 = Inl Bad_pointer" by (simp add: handle_client)
  with ev1 ev2 show ?thesis by blast
qed

theorem second_connection_kills_first_witness:
  "\<exists>s1 s2. handle_event (env0 100 7 Peer_closed) (new_conn server0) server0 = Inr s1 \<and>
    handle_event (env0 100 8 Peer_closed) (new_conn server0) s1 = Inr s2 \<and>
    handle_event (env0 101 0 (Bytes ''GET'')) (readable 7) s2 = Inl Bad_pointer"
proof -
  have "client_fd server0 7" "client_fd server0 8" by (rule server0_up(3); simp)+
  from second_connection_kills_first[OF server0_fields(2) _ env0_fields(2) env0_fields(2) _ server0_up(1) this
      server0_up(2) server0_up(2) server0_up(2)] show ?thesis by simp
qed

text \<open>C36. After the peer has closed a connection, the event loop renews its timer all the same. When that
  timer fires, its callback finds the descriptor in the map and accesses the dead object.\<close>

theorem closed_connection_timer:
  assumes "serves s fd a t c" and "e_sock e = Peer_closed" and "listening s" and "client_fd s fd"
    and "log_ready e s" and "e_ctl e = 0" and "clock_ok (sv_clock s)" and "timer_map (sv_clock s) fd = Some v"
    and "e_now e' = e_now e + TIME_OUT"
  shows "\<exists>s'. handle_event e (readable fd) s = Inr s' \<and>
    sv_closed s' = sv_closed s @ [fd] \<and> fd \<notin> ep_watched (sv_epoll s') \<and>
    timer_map (sv_clock s') fd = Some 1 \<and> \<not> returns (fire_timers e' s')"
proof -
  have c: "pool_get fd (sv_pool s) = Inr (Block a)" "objs (sv_pool s) a = Some c" "ci_fd c = fd"
    using assms(1) by (simp_all add: serves_def)
  have fd: "0 \<le> fd" "int32 fd" using assms(4) client_int32 by (auto simp: client_fd_def)
  let ?s0 = "logged 1 (fd_msg ''deal_Read conn fd: '' fd []) e s"
  let ?s0 = "?s0\<lparr>sv_pool := pool_update (sv_pool s) (Block a) c\<rparr>"
  let ?p = "(sv_pool ?s0)\<lparr>objs := (objs (sv_pool ?s0))(a := None), free_list := Stack_addr\<rparr>"
  let ?k = "sv_clock s\<lparr>timer_map := (timer_map (sv_clock s))(fd \<mapsto> 0)\<rparr>"
  let ?s1 = "?s0\<lparr>sv_epoll := snd (ep_del 0 fd (sv_epoll s)), sv_clock := ?k, sv_pool := ?p, sv_closed := sv_closed s @ [fd]\<rparr>"
  let ?s2 = "logged 1 (fd_msg ''close conn fd: '' fd []) e ?s1"
  let ?s3 = "logged 3 (fd_msg ''close conn fd: '' fd []) e ?s2"
  have log: "log_ready e ?s0" "log_ready e ?s1" "log_ready e ?s2" "log_ready e ?s3" using assms(5) fd(2) by simp_all
  have close: "close_conn e fd ?s0 = Inr (True, ?s2)"
    using c assms(6,8) fd log(2)
    by (simp add: close_conn_def ws_del_timer_def del_timer_def Release_def pool_object_def conn_destroy_def Let_def)
  have read: "deal_Read e fd s = Inr (False, ?s3)"
    unfolding deal_Read_def using c assms(2,5) close fd(2) log by (simp add: conn_read_def pool_object_def Let_def)
  let ?s' = "logged 1 (fd_msg ''mod_timer conn fd: '' fd []) e (snd (ws_mod_timer (e_now e) fd TIME_OUT ?s3))"
  note ev = handle_client_ok[OF assms(3,4) read log(4)]
  let ?T = "\<lparr>tm_id = fd, tm_expire_time = e_now e + TIME_OUT, tm_callback = Some (Timer_task fd TIME_OUT), tm_version = 1\<rparr>"
  have T: "?T \<in> set (timer_queue (sv_clock ?s'))" "timer_map (sv_clock ?s') fd = Some 1"
    by (simp_all add: mod_timer_clock map_value_def set_insort_key)
  have ok: "clock_ok (sv_clock ?s')"
    using assms(7) by (auto simp: clock_ok_def mod_timer_clock map_value_def sorted_insort_key set_insort_key)
  have "map_find (<) (to_size_t fd) (id_map (sv_pool ?s')) = Some (Block a)"
    using c(1) by (simp add: pool_get_def split: option.splits)
  moreover have "objs (sv_pool ?s') a = None" by simp
  ultimately have "orphan fd (sv_pool ?s')" by (simp add: orphan_def)
  then have "\<not> returns (fire_timers e' ?s')"
    using T assms(9) by (intro fire_doomed[OF ok T(1), of _ fd TIME_OUT]) (simp_all add: current_def)
  moreover have "fd \<notin> ep_watched (sv_epoll ?s')" by (simp add: ep_watched_def ep_del_def)
  ultimately show ?thesis using ev T(2) by (intro exI[of _ ?s']) simp
qed

theorem closed_connection_timer_witness:
  "\<exists>s1 s2. handle_event (env0 100 7 Peer_closed) (new_conn server0) server0 = Inr s1 \<and>
    handle_event (env0 100 0 Peer_closed) (readable 7) s1 = Inr s2 \<and>
    sv_closed s2 = [7] \<and> \<not> returns (fire_timers (env0 101 0 Peer_closed) s2)"
proof -
  obtain s1 c where s1: "handle_event (env0 100 7 Peer_closed) (new_conn server0) server0 = Inr s1"
    "serves s1 7 0 0 c" "listening s1" "client_fd s1 7" "sv_closed s1 = []" "log_ready (env0 100 0 Peer_closed) s1"
    "timer_map (sv_clock s1) 7 = Some 1"
    "timer_queue (sv_clock s1) = [\<lparr>tm_id = 7, tm_expire_time = 101, tm_callback = Some (Timer_task 7 TIME_OUT), tm_version = 1\<rparr>]"
    using server0_first by blast
  have ok: "clock_ok (sv_clock s1)" by (simp add: clock_ok_def s1(8))
  have e: "e_ctl (env0 100 0 Peer_closed) = 0" by (simp add: env0_def)
  from closed_connection_timer[OF s1(2) env0_fields(3) s1(3,4,6) e ok s1(7), of "env0 101 0 Peer_closed"] s1(1,5)
  show ?thesis by (auto simp: TIME_OUT_def)
qed

text \<open>A failed \<open>accept\<close>, or a pool without a free block, is fatal one second later: the failure is
  reported as descriptor 0, for which the event loop starts a timer, and whose callback looks up a
  connection that is not in the map. A descriptor the pool has no block for stays open and watched.\<close>

theorem failed_accept_timer:
  assumes "e_accept e < 0 \<or> free_list (sv_pool s) = Null_addr"
    and "map_find (<) 0 (id_map (sv_pool s)) = None" and "clock_ok (sv_clock s)"
    and "listening s" and "log_ready e s" and "e_now e' = e_now e + TIME_OUT" and "e_ctl e = 0"
  shows "\<exists>s'. handle_event e (new_conn s) s = Inr s' \<and> \<not> returns (fire_timers e' s') \<and>
    sv_closed s' = sv_closed s \<and> (if e_accept e < 0 then True else e_accept e \<in> ep_watched (sv_epoll s'))"
proof -
  let ?s0 = "if e_accept e < 0 then s else s\<lparr>sv_epoll := snd (ep_add 0 (e_accept e) EPOLLIN (sv_epoll s))\<rparr>"
  have new: "deal_NewConn e s = Inr (0, ?s0)"
    using assms(1,4,7) by (auto simp: deal_NewConn_def acquire_def Accept_tcp_def listening_def)
  let ?s' = "logged 1 (fd_msg ''add_timer conn fd: '' 0 []) e (snd (ws_add_timer (e_now e) 0 TIME_OUT 1 ?s0))"
  have "log_ready e ?s0" "int32 0" using assms(5) by (simp_all add: int32_def)
  from handle_new[OF assms(4) new this] have ev: "handle_event e (new_conn s) s = Inr ?s'" .
  have clock: "sv_clock ?s' = snd (add_timer (e_now e) 0 TIME_OUT (Some (Timer_task 0 TIME_OUT)) 1 (sv_clock s))" by simp
  let ?T = "\<lparr>tm_id = 0, tm_expire_time = e_now e + TIME_OUT, tm_callback = Some (Timer_task 0 TIME_OUT), tm_version = 1\<rparr>"
  have T: "?T \<in> set (timer_queue (sv_clock ?s'))" "timer_map (sv_clock ?s') 0 = Some 1"
    unfolding clock by (simp_all add: add_timer_def Let_def set_insort_key)
  have ok: "clock_ok (sv_clock ?s')" unfolding clock by (rule clock_ok_push[OF assms(3)]) simp
  have "orphan 0 (sv_pool ?s')" using assms(2) by (simp add: orphan_def to_size_t_def)
  then have "\<not> returns (fire_timers e' ?s')"
    using T assms(6) by (intro fire_doomed[OF ok T(1), of _ 0 TIME_OUT]) (simp_all add: current_def)
  with ev show ?thesis by (intro exI[of _ ?s']) (simp add: ep_watched_def ep_add_def)
qed

theorem failed_accept_timer_witness:
  "\<exists>s1. handle_event (env0 100 (- 1) Peer_closed) (new_conn server0) server0 = Inr s1 \<and>
    \<not> returns (fire_timers (env0 101 0 Peer_closed) s1)"
proof -
  have "id_map (sv_pool server0) = []" using server0_fields(2) by (simp add: Conn_pool_new_def) (drule arg_cong[where f = id_map], simp)
  then have "map_find (<) 0 (id_map (sv_pool server0)) = None" by simp
  moreover have "clock_ok (sv_clock server0)" by (simp add: clock_ok_def server0_fields Thread_clockr_new_def)
  moreover have "e_ctl (env0 100 (- 1) Peer_closed) = 0" by (simp add: env0_def)
  ultimately show ?thesis
    using failed_accept_timer[of "env0 100 (- 1) Peer_closed" server0 "env0 101 0 Peer_closed"] server0_up(1,2)
    by (auto simp: TIME_OUT_def)
qed

end
