(* ===== verification/KvSafety.thy ===== *)
theory KvSafety
  imports KvProps
begin

text \<open>
  What the engine does with a request that is not well-formed. The message, the stale contents of the token array and
  the decisions of the allocator are arbitrary; only the table is well-formed. Each operation then ends, with one of
  four faults or with a well-formed table in which at most one key has changed; so does
  \<open>kvstore_request\<close>, and any sequence of requests.
\<close>

section \<open>Outcomes\<close>

text \<open>Two maps that agree except on one key.\<close>

definition one_key :: "(string \<Rightarrow> string option) \<Rightarrow> (string \<Rightarrow> string option) \<Rightarrow> bool" where
  "one_key m m' = (\<exists>k v. m' = m(k := v))"

lemma one_key_simps [simp, intro]: "one_key m m" "one_key m (m(k := v))"
  by (auto simp: one_key_def intro: exI[of _ k] exI[of _ "m k"] fun_upd_triv[symmetric])

definition request_fault :: "fault \<Rightarrow> bool" where
  "request_fault f = (f \<in> {Bad_pointer, Out_of_bounds, Overflow_write, Assert_failed})"

lemma request_fault_simps [simp]:
  "request_fault Bad_pointer" "request_fault Out_of_bounds" "request_fault Overflow_write"
  "request_fault Assert_failed" "\<not> request_fault Diverges"
  by (simp_all add: request_fault_def)

definition outcome :: "(string \<Rightarrow> string option) \<Rightarrow> ('r \<times> kvstate) res \<Rightarrow> bool" where
  "outcome m r = (case r of Inl f \<Rightarrow> request_fault f | Inr (_, s') \<Rightarrow> \<exists>m'. kv_rel s' m' \<and> one_key m m')"

lemma outcome_simps [simp]:
  "outcome m (Inl f) = request_fault f"
  "outcome m (Inr (r, s)) = (\<exists>m'. kv_rel s m' \<and> one_key m m')"
  by (simp_all add: outcome_def)

lemma outcome_keep: "r = Inr (x, s) \<Longrightarrow> kv_rel s m \<Longrightarrow> outcome m r"
  by auto

lemma outcome_upd: "\<exists>s'. r = Inr (x, s') \<and> kv_rel s' (m(k := v)) \<and> P s' \<Longrightarrow> outcome m r"
  using one_key_simps(2) by fastforce

lemma outcome_bind: "outcome m r \<Longrightarrow> (\<And>x s. outcome m (Inr (x, s) :: ('r \<times> kvstate) res) \<Longrightarrow> outcome m (g (x, s))) \<Longrightarrow>
    outcome m (bind_res (r :: ('r \<times> kvstate) res) g)"
  by (cases r) auto

section \<open>The operations, on any arguments\<close>

text \<open>A fresh block that was given up again: the heap has the blocks it had.\<close>

lemma create_node_wild_cases:
  assumes "\<And>b. h_top h < b \<Longrightarrow> h_blk h b = None"
  shows "create_node (Str k) Wild h = Inl Bad_pointer \<or> (\<exists>h'. create_node (Str k) Wild h = Inr (0, h') \<and> h_blk h' = h_blk h)"
proof -
  let ?a = "Suc (h_top h)" and ?b = "Suc (Suc (h_top h))"
  consider "h_fail h ?a" | "\<not> h_fail h ?a" "h_fail h ?b" | "\<not> h_fail h ?a" "\<not> h_fail h ?b" by blast
  then show ?thesis
    by cases (use assms[of ?a] in \<open>simp_all add: create_node_def kvstore_malloc_def Let_def c_strcpy_def fun_upd_idem\<close>)
qed

lemma put_wild:
  assumes "kv_rel s m" and "hashable k"
  shows "outcome m (put_kv_hashtable Ref_Hash (Str k) Wild s)"
proof -
  obtain E where E: "table_rel s E" "m = contents E" using assms(1) by (auto simp: kv_rel_def)
  obtain f where sh: "shape (hp s) (ht_nodes (Hash s)) f E" using E(1) by (rule table_relE)
  show ?thesis
  proof (cases "lookup_entry k (E (slot k))")
    case (Some e)
    then show ?thesis using put_exists[OF E(1) assms(2) Some, of Wild] assms(1) by auto
  next
    case None
    have "create_node (Str k) Wild (hp s) = Inl Bad_pointer \<or>
        (\<exists>h'. create_node (Str k) Wild (hp s) = Inr (0, h') \<and> h_blk h' = h_blk (hp s))"
      by (rule create_node_wild_cases) (rule shape_fresh[OF sh])
    then have "put_kv_hashtable Ref_Hash (Str k) Wild s = Inl Bad_pointer"
    proof (elim disjE exE conjE)
      fix h' assume h': "create_node (Str k) Wild (hp s) = Inr (0, h')" "h_blk h' = h_blk (hp s)"
      with None shape_zero[OF sh] shape_array[OF sh] slot_less[OF assms(2)] int_slot[OF assms(2)] show ?thesis
        by (simp add: put_kv_hashtable_def rd_slot_shape[OF sh assms(2)] find_node_shape[OF sh assms(2)]
            rd_slot_def rd_node_def flip: int_slot[OF assms(2)])
    qed (use None in \<open>simp add: put_kv_hashtable_def rd_slot_shape[OF sh assms(2)] find_node_shape[OF sh assms(2)]\<close>)
    then show ?thesis by simp
  qed
qed

lemma set_outcome:
  assumes "kv_rel s m"
  shows "outcome m (kvs_hash_set Ref_Hash key val s)"
proof (cases key)
  case (Str k)
  consider "val = Null" | "val \<noteq> Null" "\<not> hashable k" | "val = Wild" "hashable k" | v where "val = Str v" "hashable k"
    by (cases val) auto
  then show ?thesis
  proof cases
    case (4 v)
    show ?thesis unfolding Str 4(1)
      using outcome_upd[OF kv_rel_put(1)[OF assms 4(2)]] kv_rel_put(2)[OF assms 4(2), of v]
        outcome_keep[OF kv_rel_put(3)[OF assms 4(2)] assms]
      by (cases "m k = None"; cases "allocs_ok 3 (hp s)") simp_all
  qed (use assms negative_index(2)[OF assms, of k val] put_wild[OF assms, of k] in
      \<open>auto simp: Str kvs_hash_set_def put_kv_hashtable_def\<close>)
qed (use assms in \<open>auto simp: kvs_hash_set_def put_kv_hashtable_def hash_fun_def\<close>)

lemma delete_outcome:
  assumes "kv_rel s m"
  shows "outcome m (kvs_hash_delete Ref_Hash key s)"
proof (cases key)
  case (Str k)
  show ?thesis
  proof (cases "hashable k")
    case True
    show ?thesis unfolding Str
      using outcome_upd[OF kv_rel_delete(1)[OF assms True]] outcome_keep[OF kv_rel_delete(2)[OF assms True] assms] by blast
  next
    case False
    then show ?thesis using negative_index(3)[OF assms] by (simp add: Str kvs_hash_delete_def)
  qed
qed (use assms in \<open>auto simp: kvs_hash_delete_def delete_kv_hashtable_def hash_fun_def\<close>)

lemma modify_wild:
  assumes "kv_rel s m" and "hashable k"
  shows "outcome m (kvs_hash_modify Ref_Hash (Str k) Wild s)"
proof -
  obtain E where E: "table_rel s E" "m = contents E" using assms(1) by (auto simp: kv_rel_def)
  obtain f where sh: "shape (hp s) (ht_nodes (Hash s)) f E" using E(1) by (rule table_relE)
  show ?thesis
  proof (cases "lookup_entry k (E (slot k))")
    case None
    then show ?thesis using modify_absent[OF E(1) assms(2) None, of Wild] assms(1) by auto
  next
    case (Some e)
    note c = lookup_entry_cell[OF sh assms(2) Some]
    then obtain q where "h_blk (hp s) (e_node e) = Some (Node \<lparr>n_key = e_kaddr e, n_value = e_vaddr e, n_next = q\<rparr>)"
      by blast
    with c Some show ?thesis
      by (simp add: kvs_hash_modify_def rd_slot_shape[OF sh assms(2)] find_node_shape[OF sh assms(2)])
  qed
qed

lemma modify_outcome:
  assumes "kv_rel s m"
  shows "outcome m (kvs_hash_modify Ref_Hash key val s)"
proof (cases key)
  case (Str k)
  consider "val = Null" | "val \<noteq> Null" "\<not> hashable k" | "val = Wild" "hashable k" | v where "val = Str v" "hashable k"
    by (cases val) auto
  then show ?thesis
  proof cases
    case (4 v)
    show ?thesis unfolding Str 4(1)
      using outcome_upd[OF kv_rel_modify(1)[OF assms 4(2)]] kv_rel_modify(2)[OF assms 4(2), of v]
        outcome_keep[OF kv_rel_modify(3)[OF assms 4(2)] assms]
      by (cases "m k = None"; cases "allocs_ok 1 (hp s)") simp_all
  qed (use assms negative_index(4)[OF assms, of k val] modify_wild[OF assms, of k] in
      \<open>auto simp: Str kvs_hash_modify_def\<close>)
qed (use assms in \<open>auto simp: kvs_hash_modify_def hash_fun_def\<close>)

text \<open>A lookup ends with a fault, with null, or with the address of a value that can be read.\<close>

lemma get_outcome:
  assumes "kv_rel s m"
  shows "case kvs_hash_get Ref_Hash key s of Inl f \<Rightarrow> request_fault f
    | Inr p \<Rightarrow> p = 0 \<or> (\<exists>v. rd_str p (hp s) = Inr v)"
proof (cases key)
  case (Str k)
  obtain E where E: "table_rel s E" "m = contents E" using assms(1) by (auto simp: kv_rel_def)
  consider "\<not> hashable k" | "hashable k" "lookup_entry k (E (slot k)) = None"
    | e where "hashable k" "lookup_entry k (E (slot k)) = Some e"
    by (cases "lookup_entry k (E (slot k))") auto
  then show ?thesis
  proof cases
    case 1
    then show ?thesis using negative_index(1)[OF assms] by (simp add: Str kvs_hash_get_def)
  next
    case 2
    then show ?thesis using get_absent[OF E(1)] by (simp add: Str kvs_hash_get_def)
  next
    case (3 e)
    then show ?thesis using get_found[OF E(1)] by (simp add: Str kvs_hash_get_def)
  qed
qed (simp_all add: kvs_hash_get_def get_kv_hashtable_def hash_fun_def)

section \<open>The command layer\<close>

lemma protocol_outcome:
  assumes "kv_rel s m"
  shows "outcome m (kvstore_parser_protocol wmsg tokens count s)"
proof (cases "wmsg = None \<or> tokens 0 = Null \<or> count = 0")
  case True
  then show ?thesis using assms by (auto simp: kvstore_parser_protocol_def)
next
  case False
  show ?thesis
  proof (cases "tokens 0")
    case (Str name)
    let ?cmd = "find_cmd commands name" and ?key = "tokens 1"
    note unfold = kvstore_parser_protocol_def Str Let_def if_not_P[OF False[unfolded Str]] deref_simps bind_res_Inr
    have keep: "outcome m (Inr (r, s))" for r :: "string option" using assms by auto
    have set: "outcome m (bind_res (kvstore_hash_set ?key (tokens 2) s) (\<lambda>(r, s'). Inr (g r, s')))" for g :: "int \<Rightarrow> string option"
      using set_outcome[OF assms] unfolding kvstore_hash_set_def by (rule outcome_bind) auto
    have del: "outcome m (bind_res (kvstore_hash_delete ?key s) (\<lambda>(r, s'). Inr (g r, s')))" for g :: "int \<Rightarrow> string option"
      using delete_outcome[OF assms] unfolding kvstore_hash_delete_def by (rule outcome_bind) auto
    have mod: "outcome m (bind_res (kvstore_hash_modify ?key (tokens 2) s) (\<lambda>(r, s'). Inr (g r, s')))" for g :: "int \<Rightarrow> string option"
      using modify_outcome[OF assms] unfolding kvstore_hash_modify_def by (rule outcome_bind) auto
    have get: "outcome m (bind_res (kvstore_hash_get ?key s) (\<lambda>p.
        if p \<noteq> 0 then bind_res (rd_str p (hp s)) (\<lambda>v. Inr (g v, s)) else Inr (r, s)))"
      for g :: "string \<Rightarrow> string option" and r
      using get_outcome[OF assms, of ?key] keep unfolding kvstore_hash_get_def
      by (cases "kvs_hash_get Ref_Hash ?key s") auto
    show ?thesis unfolding unfold
      by (intro if_split[where P = "outcome m", THEN iffD2] conjI impI set del mod get keep) simp
  qed (use False in \<open>auto simp: kvstore_parser_protocol_def\<close>)
qed

text \<open>A message is split, or it has too many words.\<close>

lemma split_cases:
  "(\<exists>n tokens m'. kvstore_split_token msg stk = Inr (n, tokens, m')) \<or>
   (\<exists>f. kvstore_split_token msg stk = Inl f \<and> request_fault f)"
proof (cases msg)
  case (Str t)
  show ?thesis
  proof (cases "length (c_words t) \<le> KVSTORE_MAX_TOKENS")
    case True
    then show ?thesis using split_token_words[OF True, of stk] by (auto simp: Str)
  next
    case False
    then have "split_loop 0 [] t stk = Inl Overflow_write" by (intro split_loop_overflow) auto
    then show ?thesis by (simp add: Str kvstore_split_token_def)
  qed
qed (simp_all add: kvstore_split_token_def)

text \<open>A request of any kind, reduced to its reply.\<close>

definition any_request :: "cptr \<times> string option \<times> (nat \<Rightarrow> cptr) \<Rightarrow> kvstate \<Rightarrow> (string option \<times> kvstate) res" where
  "any_request r s =
     (case r of (rmsg, wmsg, stk) \<Rightarrow>
        bind_res (kvstore_request rmsg wmsg stk s) (\<lambda>(r, wmsg', cut, s'). Inr (wmsg', s')))"

lemma any_request_outcome:
  assumes "kv_rel s m"
  shows "outcome m (any_request (rmsg, wmsg, stk) s)"
  using split_cases[of rmsg stk]
proof (elim disjE exE conjE)
  fix n tokens m'
  assume split: "kvstore_split_token rmsg stk = Inr (n, tokens, m')"
  have "any_request (rmsg, wmsg, stk) s = bind_res (kvstore_parser_protocol wmsg tokens n s) (\<lambda>(w, s'). Inr (w, s'))"
    by (simp add: any_request_def kvstore_request_def split bind_res_assoc case_prod_unfold)
  then show ?thesis using protocol_outcome[OF assms, of wmsg tokens n]
    by (cases "kvstore_parser_protocol wmsg tokens n s") auto
qed (simp add: any_request_def kvstore_request_def)

section \<open>Loading any file\<close>

lemma load_lines_rel:
  "kv_rel s m \<Longrightarrow> hash = Ref_Hash \<Longrightarrow> load_lines hash input s = Inr s' \<Longrightarrow> \<exists>m'. kv_rel s' m'"
proof (induction hash input s arbitrary: m rule: load_lines.induct)
  case (1 hash input s)
  show ?case
  proof (cases "c_fgets BUFFER_LENGTH input")
    case None
    with 1(4) have "s' = s" by (simp add: load_lines.simps[of hash input s])
    with 1(2) show ?thesis by blast
  next
    case (Some x)
    obtain raw rest where x: "x = (raw, rest)" by (cases x)
    obtain s1 where s1: "load_line hash raw s = Inr s1" "load_lines hash rest s1 = Inr s'"
      using 1(4) Some x by (auto simp: load_lines.simps[of hash input s] bind_res_eq_Inr)
    have "\<exists>m1. kv_rel s1 m1"
    proof (cases "c_split_at COLON (takeWhile (\<lambda>c. c \<noteq> NL) (c_str raw))")
      case (Some kv)
      obtain k v where kv: "kv = (k, v)" by (cases kv)
      from s1(1) Some kv 1(3) obtain r where "kvs_hash_set Ref_Hash (Str k) (Str v) s = Inr (r, s1)"
        by (auto simp: load_line_def kvs_hash_set_def bind_res_eq_Inr)
      with set_outcome[OF 1(2), of "Str k" "Str v"] show ?thesis by auto
    qed (use s1(1) 1(2) in \<open>auto simp: load_line_def\<close>)
    with 1(1)[OF Some x[symmetric] _ 1(3) s1(2)] show ?thesis by blast
  qed
qed

text \<open>An engine whose array was granted and is clear starts well-formed, whatever is in the file.\<close>

lemma init_any:
  assumes "\<not> fail 1" and "zeroed junk" and "init_kvengine readable db (boot_state fail junk) = Inr s'"
  shows "\<exists>m. kv_rel s' m"
proof -
  let ?s = "snd (init_hashtable Ref_Hash (boot_state fail junk))"
  have rel: "kv_rel ?s Map.empty" using assms(1,2) by (rule init_zeroed_rel)
  have "\<exists>r. load_from_disk Ref_Hash (Str db_name) readable db ?s = Inr (r, s')"
    using assms(3) by (auto simp: init_kvengine_def kvstore_hash_create_def case_prod_unfold bind_res_eq_Inr)
  with rel load_lines_rel[OF rel refl] show ?thesis
    by (auto simp: load_from_disk_def bind_res_eq_Inr split: option.splits if_splits)
qed

section \<open>The arithmetic on C integers\<close>

text \<open>
  Sums of characters and the number of keys are C \<open>int\<close>s. \<open>checked_request\<close> is a request that stops when
  a partial sum of the hash of its key or the count leaves the type.
\<close>

definition hash_fits :: "cptr \<Rightarrow> bool" where
  "hash_fits key = (case key of Str k \<Rightarrow> list_all (\<lambda>n. int32 (hash_sum 0 (take n k))) [0..<Suc (length k)] | _ \<Rightarrow> True)"

definition checked_request :: "cptr \<times> string option \<times> (nat \<Rightarrow> cptr) \<Rightarrow> kvstate \<Rightarrow> (string option \<times> kvstate) res" where
  "checked_request r s =
     (case r of (rmsg, wmsg, stk) \<Rightarrow>
        bind_res (kvstore_split_token rmsg stk) (\<lambda>(n, tokens, m).
          if \<not> hash_fits (tokens 1) then Inl Int_overflow
          else bind_res (any_request (rmsg, wmsg, stk) s) (\<lambda>(reply, s').
            if int32 (kvs_hash_count s') then Inr (reply, s') else Inl Int_overflow)))"

text \<open>Strings whose sum of characters fits.\<close>

definition short_string :: "cptr \<Rightarrow> bool" where
  "short_string p = (case p of Str t \<Rightarrow> length t < 2 ^ 24 | _ \<Rightarrow> True)"

lemma short_fits: "short_string p \<Longrightarrow> hash_fits p"
proof (cases p)
  case (Str k)
  assume "short_string p"
  then have k: "length k < 2 ^ 24" by (simp add: short_string_def Str)
  have "int32 (hash_sum 0 (take n k))" for n
  proof -
    have "int (length (take n k)) < 16777216" using k by simp
    with hash_sum_bounds[of "take n k"] show ?thesis by (simp add: int32_def del: length_take)
  qed
  then show ?thesis by (simp add: hash_fits_def Str list_all_iff)
qed (simp_all add: hash_fits_def)

lemma split_short:
  assumes "kvstore_split_token msg stk = Inr (n, tokens, m')" and "short_string msg" and "\<forall>i. short_string (stk i)"
  shows "short_string (tokens i)"
proof (cases msg)
  case (Str t)
  have "length (c_words t) \<le> KVSTORE_MAX_TOKENS"
  proof (rule ccontr)
    assume "\<not> ?thesis"
    then have "split_loop 0 [] t stk = Inl Overflow_write" by (intro split_loop_overflow) auto
    with assms(1) show False by (simp add: Str kvstore_split_token_def)
  qed
  from split_token_words[OF this, of stk] assms(1) have tokens: "tokens = with_words (c_words t) stk" by (auto simp: Str)
  show ?thesis
  proof (cases "i < length (c_words t)")
    case True
    then have "length (c_words t ! i) \<le> length t" by (intro c_words_shorter) simp
    with assms(2) True show ?thesis by (simp add: tokens with_words_def short_string_def Str)
  qed (use assms(3) in \<open>simp add: tokens with_words_def\<close>)
qed (use assms in \<open>auto simp: kvstore_split_token_def\<close>)

lemma card_dom_upd:
  assumes "finite (dom m)"
  shows "card (dom (m(k := v))) \<le> Suc (card (dom m))"
proof -
  have "card (dom (m(k := v))) \<le> card (insert k (dom m))"
    using assms by (intro card_mono) (auto split: if_splits)
  also have "\<dots> \<le> Suc (card (dom m))" using assms by (simp add: card_insert_if)
  finally show ?thesis .
qed

text \<open>One request on short strings makes no sum too large and adds at most one to the count.\<close>

lemma checked_request_one:
  assumes "kv_rel s m" and "short_string rmsg" and "\<forall>i. short_string (stk i)" and "kvs_hash_count s + 1 < 2 ^ 31"
  shows "checked_request (rmsg, wmsg, stk) s = any_request (rmsg, wmsg, stk) s"
    and "any_request (rmsg, wmsg, stk) s = Inr (reply, s') \<Longrightarrow> kvs_hash_count s' \<le> kvs_hash_count s + 1"
proof -
  have count: "kvs_hash_count s' \<le> kvs_hash_count s + 1 \<and> 0 \<le> kvs_hash_count s'"
    if "any_request (rmsg, wmsg, stk) s = Inr (reply, s')" for reply s'
  proof -
    from any_request_outcome[OF assms(1), of rmsg wmsg stk] that obtain k v where
      "kv_rel s' (m(k := v))" by (auto simp: one_key_def)
    with kv_rel_count(2)[OF this] kv_rel_count[OF assms(1)] card_dom_upd[of m k v] show ?thesis by simp
  qed
  then show "any_request (rmsg, wmsg, stk) s = Inr (reply, s') \<Longrightarrow> kvs_hash_count s' \<le> kvs_hash_count s + 1" by blast
  show "checked_request (rmsg, wmsg, stk) s = any_request (rmsg, wmsg, stk) s"
  proof (cases "kvstore_split_token rmsg stk")
    case (Inl f)
    then show ?thesis by (simp add: checked_request_def any_request_def kvstore_request_def)
  next
    case (Inr x)
    obtain n tokens m' where x: "x = (n, tokens, m')" by (cases x)
    have fits: "hash_fits (tokens 1)" using split_short[of rmsg stk n tokens m' 1] assms(2,3) Inr x by (intro short_fits) simp
    show ?thesis
    proof (cases "any_request (rmsg, wmsg, stk) s")
      case (Inr y)
      obtain reply s' where "y = (reply, s')" by (cases y)
      with count[of reply s'] assms(4) Inr have "y = (reply, s')" "int32 (kvs_hash_count s')" by (auto simp: int32_def)
      with \<open>kvstore_split_token rmsg stk = Inr x\<close> x fits Inr show ?thesis by (simp add: checked_request_def)
    qed (use \<open>kvstore_split_token rmsg stk = Inr x\<close> x fits in \<open>simp add: checked_request_def\<close>)
  qed
qed

lemma checked_requests:
  assumes "kv_rel s m" and "\<forall>(rmsg, wmsg, stk) \<in> set rs. short_string rmsg \<and> (\<forall>i. short_string (stk i))"
    and "kvs_hash_count s + int (length rs) < 2 ^ 31"
  shows "run_steps checked_request rs s = run_steps any_request rs s"
  using assms
proof (induction rs arbitrary: s m)
  case (Cons r rs)
  obtain rmsg wmsg stk where r: "r = (rmsg, wmsg, stk)" by (cases r)
  have short: "short_string rmsg" "\<forall>i. short_string (stk i)" using Cons.prems(2) r by auto
  have room: "kvs_hash_count s + 1 < 2 ^ 31" using Cons.prems(3) by simp
  note one = checked_request_one[OF Cons.prems(1) short room]
  show ?case
  proof (cases "any_request r s")
    case (Inr x)
    obtain reply s1 where x: "x = (reply, s1)" by (cases x)
    from any_request_outcome[OF Cons.prems(1), of rmsg wmsg stk] Inr obtain m1 where m1: "kv_rel s1 m1"
      by (auto simp: r x)
    have "kvs_hash_count s1 + int (length rs) < 2 ^ 31" using one(2)[of wmsg reply s1] Inr Cons.prems(3) by (simp add: r x)
    with Cons.IH[OF m1] Cons.prems(2) have "run_steps checked_request rs s1 = run_steps any_request rs s1" by simp
    then show ?thesis using Inr one(1)[of wmsg] by (simp add: r x)
  qed (use one(1)[of wmsg] in \<open>simp add: r\<close>)
qed simp

section \<open>Any requests\<close>

text \<open>Every sequence of requests ends, at one of four faults or with a table that is well-formed again.\<close>

lemma requests_outcome:
  assumes "kv_rel s m"
  shows "case run_steps any_request rs s of
      Inl f \<Rightarrow> request_fault f
    | Inr (replies, s') \<Rightarrow> length replies = length rs \<and>
        (\<exists>m'. kv_rel s' m' \<and> card {k. m' k \<noteq> m k} \<le> length rs)"
  using assms
proof (induction rs arbitrary: s m)
  case (Cons r rs)
  obtain rmsg wmsg stk where r: "r = (rmsg, wmsg, stk)" by (cases r)
  show ?case
  proof (cases "any_request r s")
    case (Inl f)
    then show ?thesis using any_request_outcome[OF Cons.prems, of rmsg wmsg stk] by (simp add: r)
  next
    case (Inr x)
    obtain reply s1 where x: "x = (reply, s1)" by (cases x)
    from any_request_outcome[OF Cons.prems, of rmsg wmsg stk] Inr obtain m1 k v
      where m1: "kv_rel s1 m1" "m1 = m(k := v)" by (auto simp: r x one_key_def)
    have step: "run_steps any_request (r # rs) s = bind_res (run_steps any_request rs s1) (\<lambda>(rs', s2). Inr (reply # rs', s2))"
      by (simp add: Inr x)
    show ?thesis
    proof (cases "run_steps any_request rs s1")
      case (Inr y)
      obtain replies s2 where y: "y = (replies, s2)" by (cases y)
      from Cons.IH[OF m1(1)] Inr y obtain m2 where m2: "length replies = length rs" "kv_rel s2 m2"
        "card {j. m2 j \<noteq> m1 j} \<le> length rs" by auto
      have fin: "finite (dom m)" "finite (dom m2)" using kv_rel_count(1) Cons.prems m2(2) by blast+
      have "{j. m2 j \<noteq> m1 j} \<subseteq> dom m2 \<union> dom m \<union> {k}" by (auto simp: m1(2) split: if_splits)
      then have "finite {j. m2 j \<noteq> m1 j}" using fin by (auto intro: finite_subset)
      moreover have "{j. m2 j \<noteq> m j} \<subseteq> insert k {j. m2 j \<noteq> m1 j}" by (auto simp: m1(2))
      ultimately have "card {j. m2 j \<noteq> m j} \<le> card (insert k {j. m2 j \<noteq> m1 j})" by (intro card_mono) auto
      also have "\<dots> \<le> Suc (card {j. m2 j \<noteq> m1 j})" by (rule card_insert_le_m1) auto
      finally have "card {j. m2 j \<noteq> m j} \<le> length (r # rs)" using m2(3) by simp
      with m2(1,2) show ?thesis unfolding step by (auto simp: Inr y)
    qed (use Cons.IH[OF m1(1)] in \<open>simp only: step, simp\<close>)
  qed
qed auto

section \<open>Properties\<close>

text \<open>C8. No request makes the engine loop or breaks the table. Whatever the messages, the stale token arrays
  and the allocator do, as long as the strings are shorter than 2 to the 24 bytes and the keys and requests together fewer
  than 2 to the 31, on a well-formed table every sequence of requests ends, and neither the sum of a hash nor the count
  leaves the C \<open>int\<close>. Unless one of four faults stops it, each request has changed at most one key, and
  the table is well-formed again.\<close>

theorem engine_total:
  assumes "kv_rel s m" and "\<forall>(rmsg, wmsg, stk) \<in> set rs. short_string rmsg \<and> (\<forall>i. short_string (stk i))"
    and "kvs_hash_count s + int (length rs) < 2 ^ 31"
  shows "run_steps checked_request rs s = run_steps any_request rs s \<and>
    (case run_steps checked_request rs s of
      Inl f \<Rightarrow> f \<in> {Bad_pointer, Out_of_bounds, Overflow_write, Assert_failed}
    | Inr (replies, s') \<Rightarrow> length replies = length rs \<and>
        (\<exists>m'. kv_rel s' m' \<and> card {k. m' k \<noteq> m k} \<le> length rs))"
  using requests_outcome[OF assms(1), of rs] unfolding checked_requests[OF assms] request_fault_def by simp

text \<open>A well-formed request, one that reads a wild token, and one the engine never runs.\<close>

theorem engine_total_witness:
  "case run_steps checked_request
      [(Str ''HSET k v'', Some [], \<lambda>_. Wild), (Str ''HSET l'', Some [], \<lambda>_. Wild), (Str ''HGET k'', Some [], \<lambda>_. Wild)] boot of
    Inl f \<Rightarrow> f \<in> {Bad_pointer, Out_of_bounds, Overflow_write, Assert_failed}
  | Inr (replies, s') \<Rightarrow> length replies = 3 \<and> (\<exists>m'. kv_rel s' m' \<and> card {k. m' k \<noteq> Map.empty k} \<le> 3)"
proof -
  let ?rs = "[(Str ''HSET k v'', Some [], \<lambda>_. Wild), (Str ''HSET l'', Some [], \<lambda>_. Wild), (Str ''HGET k'', Some [], \<lambda>_. Wild)] ::
    (cptr \<times> string option \<times> (nat \<Rightarrow> cptr)) list"
  have three: "length [a, b, c] = 3" for a b c :: "cptr \<times> string option \<times> (nat \<Rightarrow> cptr)" by simp
  have short: "\<forall>(rmsg, wmsg, stk) \<in> set ?rs. short_string rmsg \<and> (\<forall>i. short_string (stk i))"
    by (simp add: short_string_def)
  have "kvs_hash_count boot = 0" using kv_rel_count(2)[OF boot_ok(1)] by simp
  then have "kvs_hash_count boot + int (length ?rs) < 2 ^ 31" by simp
  from engine_total[OF boot_ok(1) short this, THEN conjunct2] show ?thesis unfolding three .
qed

end
