(* ===== verification/ServerInv.thy ===== *)
theory ServerInv
  imports ServerConn KvSafety
begin

text \<open>
  What every state of a running server satisfies, however clients, signals, the kernel and the timer thread
  behave: \<open>server_ok\<close>, the conjunction of the components' invariants. \<open>server_step\<close> takes one event of the
  loop, one wait, the arrival of signals or one round of the timer thread as a step, in any order; its
  interpretation of \<open>inductive_invariant\<close> lifts the preservation lemmas to all runs.
\<close>

section \<open>Connections and their pool\<close>

definition conn_ok :: "ConnectionInfo \<Rightarrow> bool" where
  "conn_ok c = (rb_ok (ci_read_buffer c) \<and> rb_ok (ci_write_buffer c))"

lemma conn_ok_new: "conn_ok ConnectionInfo_new"
  by (simp add: conn_ok_def ConnectionInfo_new_def rb_ok_new RING_BUFFER_SIZE_def)

lemma conn_ok_read:
  assumes "conn_ok c" and "conn_read inp now c = Inr (ret, pending, c')"
  shows "conn_ok c'"
proof (cases inp)
  case (Bytes avail)
  let ?b = "ci_read_buffer c"
  define got where "got = (if not_useSize ?b < 0 then avail else take (nat (not_useSize ?b)) avail)"
  define b1 where "b1 = ?b\<lparr>rb_buffer := got @ drop (length got) (get_buffer ?b)\<rparr>"
  from assms(2) have "c' = c \<or> length got \<le> length (get_buffer ?b) \<and>
      c' = c\<lparr>ci_read_buffer := snd (writed (int (length got)) b1), ci_last_active_time := now\<rparr>"
    by (auto simp: conn_read_def Bytes Let_def got_def b1_def not_less split: if_splits)
  then show ?thesis
  proof (elim disjE conjE)
    assume fit: "length got \<le> length (get_buffer ?b)"
      and c': "c' = c\<lparr>ci_read_buffer := snd (writed (int (length got)) b1), ci_last_active_time := now\<rparr>"
    have "rb_ok b1" using assms(1) fit by (simp add: conn_ok_def rb_ok_def b1_def get_buffer_def)
    from writed_ok(2)[OF this] assms(1) show ?thesis by (simp add: conn_ok_def c')
  qed (use assms(1) in simp)
qed (use assms in \<open>auto simp: conn_read_def Let_def\<close>)

lemma conn_ok_convert:
  "conn_ok c \<Longrightarrow> convert_request reg c = Inr (ok, c') \<Longrightarrow> conn_ok c'"
  by (auto simp: convert_request_def Let_def bind_res_eq_Inr conn_ok_def split: option.splits if_splits)

lemma store_at_length: "store_at bs p new = Inr bs' \<Longrightarrow> length bs' = length bs"
  by (auto simp: store_at_def split: if_splits)

text \<open>A handler keeps the buffers in shape, and the table.\<close>

lemma handler_ok:
  assumes "conn_ok c" and "kv_rel kv m" and "run_handler order stk h c kv = Inr (sent, c', kv')"
  shows "conn_ok c' \<and> (\<exists>m'. kv_rel kv' m')"
proof (cases h)
  case Http_task_get1
  with assms show ?thesis by (auto simp: http_task_get1_def)
next
  case Http_task_get2
  with assms(3) have run: "http_task_get2 order stk c kv = Inr (sent, c', kv')" by simp
  obtain request where rq: "ci_request c = Some request"
    using run by (cases "ci_request c") (auto simp: http_task_get2_def Let_def bind_res_eq_Inr)
  obtain d where d: "rq_data request = Some d"
    using run rq by (cases "rq_data request") (auto simp: http_task_get2_def Let_def bind_res_eq_Inr)
  from run rq d obtain rmsg wmsg r reply cut wb' rb' where
    req: "kvstore_request (Str rmsg) (Some wmsg) stk kv = Inr (r, reply, cut, kv')" and
    len: "length rb' = length (get_buffer (ci_read_buffer c))" "length wb' = length (get_buffer (ci_write_buffer c))" and
    c': "c' = c\<lparr>ci_read_buffer := (ci_read_buffer c)\<lparr>rb_buffer := rb'\<rparr>,
               ci_write_buffer := (ci_write_buffer c)\<lparr>rb_buffer := wb'\<rparr>\<rparr>"
    by (auto simp: http_task_get2_def Let_def bind_res_eq_Inr dest!: store_at_length split: if_splits)
  have "any_request (Str rmsg, Some wmsg, stk) kv = Inr (reply, kv')" by (simp add: any_request_def req)
  with any_request_outcome[OF assms(2), of "Str rmsg" "Some wmsg" stk] have "\<exists>m'. kv_rel kv' m'" by auto
  moreover have "conn_ok c'" using assms(1) len by (simp add: conn_ok_def c' rb_ok_def get_buffer_def)
  ultimately show ?thesis by simp
qed

text \<open>The pool: live objects are apart, inside the memory and in shape; the map is ordered and names blocks.\<close>

definition within :: "conn_pool \<Rightarrow> nat \<Rightarrow> bool" where
  "within p a = (a + sizeof_ConnectionInfo \<le> total_blocks p * block_size p)"

definition names_ok :: "conn_pool \<Rightarrow> bool" where
  "names_ok p = (\<forall>e \<in> set (id_map p). \<exists>a. snd e = Block a \<and> within p a)"

definition pool_ok :: "conn_pool \<Rightarrow> bool" where
  "pool_ok p = (pool_apart p \<and> (\<forall>a c. objs p a = Some c \<longrightarrow> conn_ok c \<and> within p a) \<and>
     map_ordered (<) (id_map p) \<and> names_ok p)"

lemma names_ok_updates [simp]:
  "names_ok (p\<lparr>objs := x\<rparr>) = names_ok p" "names_ok (p\<lparr>free_list := y\<rparr>) = names_ok p"
  "names_ok (p\<lparr>list_word := z\<rparr>) = names_ok p"
  by (simp_all add: names_ok_def within_def)

lemma pool_ok_new: "Conn_pool_new nb bs ok = Inr p \<Longrightarrow> pool_ok p"
  using apart_new[of nb bs ok p] by (auto simp: Conn_pool_new_def pool_ok_def names_ok_def split: if_splits)

lemma pool_ok_acquire: "pool_ok p \<Longrightarrow> acquire p = Inr (x, p') \<Longrightarrow> pool_ok p'"
  using apart_acquire[of p x p'] conn_ok_new
  by (auto simp: pool_ok_def acquire_def construct_def bind_res_eq_Inr within_def split: paddr.splits if_splits)

lemma pool_ok_object: "pool_ok p \<Longrightarrow> pool_object p x = Inr c \<Longrightarrow> \<exists>a. x = Block a \<and> within p a \<and> conn_ok c"
  by (auto simp: pool_ok_def pool_object_def split: paddr.splits option.splits)

lemma pool_ok_use:
  assumes "pool_ok p" and "pool_object p x = Inr c" and "conn_ok c'"
  shows "pool_ok (pool_update p x c')"
  using assms apart_use[of p x c c'] pool_ok_object[OF assms(1,2)]
  by (auto simp: pool_ok_def pool_update_def within_def split: if_splits)

lemma set_map_insert: "set (map_insert lt k v xs) \<subseteq> insert (k, v) (set xs)"
  by (induction lt k v xs rule: map_insert.induct) auto

lemma pool_ok_add_map:
  assumes "pool_ok p" and "add_map fd x peer now p = Inr p'"
  shows "pool_ok p'"
proof -
  obtain c where c: "pool_object p x = Inr c" using assms(2) by (auto simp: add_map_def bind_res_eq_Inr)
  let ?c = "c\<lparr>ci_fd := fd, ci_last_active_time := now, ci_addr := peer\<rparr>"
  let ?p = "pool_update p x ?c"
  obtain a where a: "x = Block a" "within p a" "conn_ok c" using pool_ok_object[OF assms(1) c] by blast
  have "conn_ok ?c" using a(3) by (simp add: conn_ok_def)
  from pool_ok_use[OF assms(1) c this] have ok: "pool_ok ?p" .
  have p': "p' = ?p\<lparr>id_map := map_insert (<) (to_size_t fd) x (id_map ?p)\<rparr>"
    using assms(2) c by (simp add: add_map_def Let_def)
  have "within ?p a" using a(1,2) by (simp add: pool_update_def within_def)
  then have "names_ok p'"
    using ok set_map_insert[of "(<)" "to_size_t fd" x "id_map ?p"] a(1)
    unfolding names_ok_def pool_ok_def p' within_def by fastforce
  moreover have "map_ordered (<) (id_map p')"
    using ok id_map.insert_ordered[of "id_map ?p"] by (simp add: p' pool_ok_def)
  ultimately show ?thesis using ok by (simp add: pool_ok_def p' pool_apart_def within_def)
qed

lemma pool_ok_release: "pool_ok p \<Longrightarrow> Release x p = Inr (fd, p') \<Longrightarrow> pool_ok p'"
  using apart_release[of p x fd p']
  by (cases x) (auto simp: pool_ok_def Release_def bind_res_eq_Inr within_def split: if_splits)

section \<open>Timers\<close>

text \<open>The queue is in order, and every timer in it calls \<open>timer_task\<close> for its own descriptor.\<close>

definition timers_ok :: "task clock \<Rightarrow> bool" where
  "timers_ok c = (queue_ok (timer_queue c) \<and>
     (\<forall>t \<in> set (timer_queue c). tm_callback t = Some (Timer_task (tm_id t) TIME_OUT)))"

lemma timers_ok_new: "timers_ok Thread_clockr_new"
  by (simp add: timers_ok_def Thread_clockr_new_def)

lemma timers_ok_add:
  "timers_ok c \<Longrightarrow> timers_ok (snd (add_timer now fd w (Some (Timer_task fd TIME_OUT)) v c))"
  by (auto simp: timers_ok_def add_timer_def Let_def sorted_insort_key set_insort_key)

lemma timers_ok_mod:
  assumes "timers_ok c"
  shows "timers_ok (snd (mod_timer now fd w (Some (Timer_task fd TIME_OUT)) c))"
proof -
  let ?c = "snd (mod_timer_read fd (mod_timer_bump fd c))"
  have "timers_ok ?c" using assms by (simp add: timers_ok_def mod_timer_read_def mod_timer_bump_def)
  from timers_ok_add[OF this] show ?thesis by (simp add: mod_timer_def case_prod_unfold Let_def)
qed

lemma timers_ok_del: "timers_ok c \<Longrightarrow> timers_ok (snd (del_timer fd c))"
  by (auto simp: timers_ok_def del_timer_def split: option.splits)

lemma timers_ok_handle: "timers_ok c \<Longrightarrow> timers_ok (snd (handle_timer now c))"
  unfolding timers_ok_def handle_timer_queue
  by (simp add: expire_loop_rest sorted_filter)

section \<open>The server\<close>

definition server_ok :: "server \<Rightarrow> bool" where
  "server_ok s = (epoll_ok (sv_epoll s) \<and> ep_max_events (sv_epoll s) = MAX_EVENTS \<and> listening s \<and>
     pool_ok (sv_pool s) \<and> timers_ok (sv_clock s) \<and> (\<exists>m. kv_rel (sv_kv s) m) \<and>
     max_log_buffer_size (sv_log s) = LOG_BUFFER_SIZE \<and>
     dom (sv_handlers s) = {SIGINT, SIGTERM})"

lemma server_ok_parts:
  assumes "server_ok s"
  shows "epoll_ok (sv_epoll s)" "ep_max_events (sv_epoll s) = MAX_EVENTS" "pool_ok (sv_pool s)" "timers_ok (sv_clock s)"
  using assms by (simp_all add: server_ok_def)

lemma server_ok_frame [simp]:
  "server_ok (s\<lparr>sv_sent := x1\<rparr>) = server_ok s" "server_ok (s\<lparr>sv_closed := x2\<rparr>) = server_ok s"
  "server_ok (s\<lparr>sv_stop_flag := x3\<rparr>) = server_ok s" "server_ok (s\<lparr>sv_pipe_data := x4\<rparr>) = server_ok s"
  by (simp_all add: server_ok_def listening_def)

lemma server_ok_update:
  "server_ok s \<Longrightarrow> epoll_ok ep \<Longrightarrow> ep_max_events ep = MAX_EVENTS \<Longrightarrow> server_ok (s\<lparr>sv_epoll := ep\<rparr>)"
  "server_ok s \<Longrightarrow> pool_ok p \<Longrightarrow> server_ok (s\<lparr>sv_pool := p\<rparr>)"
  "server_ok s \<Longrightarrow> timers_ok c \<Longrightarrow> server_ok (s\<lparr>sv_clock := c\<rparr>)"
  "server_ok s \<Longrightarrow> \<exists>m. kv_rel kv m \<Longrightarrow> server_ok (s\<lparr>sv_kv := kv\<rparr>)"
  "server_ok s \<Longrightarrow> max_log_buffer_size l = LOG_BUFFER_SIZE \<Longrightarrow> server_ok (s\<lparr>sv_log := l\<rparr>)"
  by (simp_all add: server_ok_def listening_def)

lemma server_ok_log:
  "LOG_INFO msg e s = Inr s' \<Longrightarrow> server_ok s \<Longrightarrow> server_ok s'"
  "LOG_ERROR msg e s = Inr s' \<Longrightarrow> server_ok s \<Longrightarrow> server_ok s'"
  by (auto simp: LOG_INFO_def LOG_ERROR_def log_at_def bind_res_eq_Inr dest!: LOG_capacity intro!: server_ok_update(5))
    (simp_all add: server_ok_def)

lemma server_ok_ctl:
  assumes "server_ok s"
  shows "server_ok (s\<lparr>sv_epoll := snd (ep_add r fd evs (sv_epoll s))\<rparr>)"
    and "server_ok (s\<lparr>sv_epoll := snd (ep_del r fd (sv_epoll s))\<rparr>)"
    and "server_ok (s\<lparr>sv_epoll := snd (ep_wait r ready (sv_epoll s))\<rparr>)"
  using server_ok_parts(1,2)[OF assms]
  by (intro server_ok_update(1)[OF assms]; simp add: epoll_ok_ctl epoll_ok_wait; simp add: epoll_defs Let_def)+

lemma server_ok_timers:
  assumes "server_ok s"
  shows "server_ok (snd (ws_add_timer now fd TIME_OUT v s))" and "server_ok (snd (ws_mod_timer now fd TIME_OUT s))"
    and "server_ok (snd (ws_del_timer fd s))"
  using server_ok_parts(4)[OF assms] timers_ok_add timers_ok_mod timers_ok_del
  by (auto simp: ws_add_timer_def ws_mod_timer_def ws_del_timer_def case_prod_unfold Let_def intro!: server_ok_update(3)[OF assms])

lemma close_conn_ok:
  assumes "server_ok s" and "close_conn e fd s = Inr (r, s')"
  shows "server_ok s'"
proof -
  let ?s2 = "snd (ws_del_timer fd (s\<lparr>sv_epoll := snd (ep_del (e_ctl e) fd (sv_epoll s))\<rparr>))"
  have s2: "server_ok ?s2" by (intro server_ok_timers(3) server_ok_ctl(2) assms(1))
  obtain conn where conn: "pool_get fd (sv_pool s) = Inr conn" using assms(2) by (auto simp: close_conn_def bind_res_eq_Inr)
  show ?thesis
  proof (cases "conn = Null_addr")
    case True
    with assms conn show ?thesis by (simp add: close_conn_def)
  next
    case False
    with assms(2) conn obtain closed p x where "Release conn (sv_pool ?s2) = Inr (closed, p)"
      and log: "LOG_INFO (fd_msg ''close conn fd: '' fd []) e (?s2\<lparr>sv_pool := p, sv_closed := x\<rparr>) = Inr s'"
      by (auto simp: close_conn_def bind_res_eq_Inr Let_def simp del: fd_msg_def)
    from pool_ok_release[OF server_ok_parts(3)[OF s2] this(1)] have "server_ok (?s2\<lparr>sv_pool := p\<rparr>)"
      by (rule server_ok_update(2)[OF s2])
    then have "server_ok (?s2\<lparr>sv_pool := p, sv_closed := x\<rparr>)" by simp
    from server_ok_log(1)[OF log this] show ?thesis .
  qed
qed

lemma deal_NewConn_ok:
  assumes "server_ok s" and "deal_NewConn e s = Inr (fd, s')"
  shows "server_ok s'"
proof -
  obtain conn_fd where acc: "Accept_tcp (e_accept e) (sv_tcp s) = Inr conn_fd"
    using assms(2) by (auto simp: deal_NewConn_def bind_res_eq_Inr)
  let ?s1 = "s\<lparr>sv_epoll := snd (ep_add (e_ctl e) conn_fd EPOLLIN (sv_epoll s))\<rparr>"
  have s1: "server_ok ?s1" by (rule server_ok_ctl(1)[OF assms(1)])
  show ?thesis
  proof (cases "conn_fd < 0")
    case True
    with assms acc show ?thesis by (simp add: deal_NewConn_def)
  next
    case False
    with assms(2) acc obtain conn p where acq: "acquire (sv_pool ?s1) = Inr (conn, p)"
      and rest: "s' = ?s1\<lparr>sv_pool := p\<rparr> \<or> (\<exists>p'. add_map conn_fd conn (e_peer e) (e_now e) p = Inr p' \<and> s' = ?s1\<lparr>sv_pool := p'\<rparr>)"
      by (auto simp: deal_NewConn_def bind_res_eq_Inr Let_def split: if_splits)
    have p: "pool_ok p" by (rule pool_ok_acquire[OF server_ok_parts(3)[OF s1] acq])
    with rest pool_ok_add_map[OF p] show ?thesis by (auto intro!: server_ok_update(2)[OF s1])
  qed
qed

lemma deal_Read_ok:
  assumes "server_ok s0" and "deal_Read e fd s0 = Inr (r, s')"
  shows "server_ok s'"
proof -
  obtain conn where conn: "pool_get fd (sv_pool s0) = Inr conn" using assms(2) by (auto simp: deal_Read_def bind_res_eq_Inr)
  show ?thesis
  proof (cases "conn = Null_addr")
    case True
    with assms conn show ?thesis by (simp add: deal_Read_def)
  next
    case False
    with assms(2) conn obtain s c ret pending c1 where
      log: "LOG_INFO (fd_msg ''deal_Read conn fd: '' fd []) e s0 = Inr s" and
      obj: "pool_object (sv_pool s) conn = Inr c" and read: "conn_read (e_sock e) (e_now e) c = Inr (ret, pending, c1)"
      by (auto simp: deal_Read_def bind_res_eq_Inr Let_def)
    have s: "server_ok s" by (rule server_ok_log(1)[OF log assms(1)])
    note pool = server_ok_parts(3)[OF s]
    have "conn_ok c" using pool_ok_object[OF pool obj] by blast
    from conn_ok_read[OF this read] have c1: "conn_ok c1" .
    define s1 where "s1 = s\<lparr>sv_pool := pool_update (sv_pool s) conn c1\<rparr>"
    have s1: "server_ok s1" unfolding s1_def by (intro server_ok_update(2)[OF s] pool_ok_use[OF pool obj c1])
    show ?thesis
    proof (cases "ret \<le> 0")
      case True
      with assms(2) conn False log obj read obtain r2 s2 where "close_conn e fd s1 = Inr (r2, s2)"
        "LOG_ERROR (fd_msg ''close conn fd: '' fd []) e s2 = Inr s'"
        by (auto simp: deal_Read_def bind_res_eq_Inr Let_def s1_def)
      with close_conn_ok[OF s1] server_ok_log(2) show ?thesis by blast
    next
      case positive: False
      with assms(2) conn False log obj read obtain success c2 where
        conv: "convert_request registered_parsers c1 = Inr (success, c2)"
        by (auto simp: deal_Read_def bind_res_eq_Inr Let_def)
      have c2: "conn_ok c2" by (rule conn_ok_convert[OF c1 conv])
      have keep: "server_ok (s\<lparr>sv_pool := pool_update (pool_update (sv_pool s) conn c1) conn x\<rparr>)" if "conn_ok x" for x
      proof -
        have "pool_object (pool_update (sv_pool s) conn c1) conn = Inr c1"
          using obj by (auto simp: pool_object_def pool_update_def split: paddr.splits option.splits)
        from pool_ok_use[OF pool_ok_use[OF pool obj c1] this that] show ?thesis by (rule server_ok_update(2)[OF s])
      qed
      consider "s' = s\<lparr>sv_pool := pool_update (pool_update (sv_pool s) conn c1) conn c2\<rparr>" |
        handler sent c3 kv' where "run_handler (e_order e) (e_stk e) handler c2 (sv_kv s) = Inr (sent, c3, kv')"
          "s' = s\<lparr>sv_kv := kv', sv_pool := pool_update (pool_update (pool_update (sv_pool s) conn c1) conn c2) conn
                   (c3\<lparr>ci_last_active_time := e_now e\<rparr>), sv_sent := sv_sent s @ sent\<rparr>"
        using assms(2) conn False log obj read positive conv
        by (auto simp: deal_Read_def bind_res_eq_Inr Let_def split: if_splits option.splits)
      then show ?thesis
      proof cases
        case 1
        with keep[OF c2] show ?thesis by simp
      next
        case (2 handler sent c3 kv')
        from s obtain m where "kv_rel (sv_kv s) m" by (auto simp: server_ok_def)
        from handler_ok[OF c2 this 2(1)] have ok: "conn_ok (c3\<lparr>ci_last_active_time := e_now e\<rparr>)" "\<exists>m. kv_rel kv' m"
          by (auto simp: conn_ok_def)
        have "pool_update (pool_update (pool_update (sv_pool s) conn c1) conn c2) conn x =
            pool_update (pool_update (sv_pool s) conn c1) conn x" for x
          by (simp add: pool_update_def split: paddr.splits)
        with 2(2) server_ok_update(4)[OF keep[OF ok(1)] ok(2)] show ?thesis by (simp add: server_ok_def listening_def)
      qed
    qed
  qed
qed

lemma timer_task_ok:
  assumes "server_ok s" and "timer_task e fd timeout s = Inr (r, s')"
  shows "server_ok s'"
proof -
  from assms(2) have "s' = s \<or> (\<exists>s1 r1. LOG_ERROR (fd_msg ''conn fd: '' fd '' timeout'') e s = Inr s1 \<and>
      close_conn e fd s1 = Inr (r1, s'))"
    by (auto simp: timer_task_def bind_res_eq_Inr split: if_splits)
  with assms(1) server_ok_log(2) close_conn_ok show ?thesis by blast
qed

lemma del_signal_ok: "server_ok s \<Longrightarrow> del_signal e s = Inr (r, s') \<Longrightarrow> server_ok s'"
  by (auto simp: del_signal_def split: if_splits)

lemma handle_event_ok:
  assumes "server_ok s" and "handle_event e ev s = Inr s'"
  shows "server_ok s'"
proof -
  obtain fd where fd: "get_listen_fd (sv_tcp s) = Inr fd" using assms(2) by (auto simp: handle_event_def bind_res_eq_Inr)
  obtain pr pw where pipe: "sv_pipe_fd s = Some (pr, pw)" using assms(1) by (auto simp: server_ok_def listening_def)
  consider (new) conn_fd s1 where "deal_NewConn e s = Inr (conn_fd, s1)"
      "LOG_INFO (fd_msg ''add_timer conn fd: '' conn_fd []) e (snd (ws_add_timer (e_now e) conn_fd TIME_OUT 1 s1)) = Inr s'"
    | (hup) r s1 where "close_conn e (ev_fd ev) s = Inr (r, s1)" "LOG_ERROR (fd_msg ''close conn fd: '' (ev_fd ev) []) e s1 = Inr s'"
    | (sig) r s1 where "del_signal e s = Inr (r, s1)" "s' = s1 \<or> LOG_ERROR ''del_signal failed'' e s1 = Inr s'"
    | (read) r s1 where "deal_Read e (ev_fd ev) s = Inr (r, s1)"
      "LOG_INFO (fd_msg ''mod_timer conn fd: '' (ev_fd ev) []) e (snd (ws_mod_timer (e_now e) (ev_fd ev) TIME_OUT s1)) = Inr s'"
    | (none) "s' = s"
    using assms(2) fd pipe by (auto simp: handle_event_def bind_res_eq_Inr split: if_splits)
  then show ?thesis
  proof cases
    case new
    then show ?thesis using server_ok_log(1)[OF _ server_ok_timers(1)[OF deal_NewConn_ok[OF assms(1)]]] by blast
  next
    case hup
    then show ?thesis using server_ok_log(2)[OF _ close_conn_ok[OF assms(1)]] by blast
  next
    case sig
    then show ?thesis using del_signal_ok[OF assms(1)] server_ok_log(2) by blast
  next
    case read
    then show ?thesis using server_ok_log(1)[OF _ server_ok_timers(2)[OF deal_Read_ok[OF assms(1)]]] by blast
  qed (use assms(1) in simp)
qed

lemma deliver_ok: "server_ok s \<Longrightarrow> deliver sigs s = Inr s' \<Longrightarrow> server_ok s'"
  by (induction sigs s rule: deliver.induct) (auto simp: sigint_handler_def split: option.splits if_splits)

text \<open>The signals that end a running server.\<close>

definition kills :: "int \<Rightarrow> bool" where
  "kills sig = (sig \<noteq> SIGINT \<and> sig \<noteq> SIGTERM \<and> \<not> outlived sig)"

lemma deliver_result:
  "dom (sv_handlers s) = {SIGINT, SIGTERM} \<Longrightarrow>
   (case deliver sigs s of Inl f \<Rightarrow> f = Exits \<and> (\<exists>sig \<in> set sigs. kills sig) | Inr _ \<Rightarrow> \<forall>sig \<in> set sigs. \<not> kills sig)"
proof (induction sigs s rule: deliver.induct)
  case (2 sig sigs s)
  have hnd: "sv_handlers s sig = None \<longleftrightarrow> sig \<noteq> SIGINT \<and> sig \<noteq> SIGTERM" using 2(3) domIff[of sig "sv_handlers s"] by (cases "sv_handlers s sig") simp_all
  have keep: "sv_handlers (sigint_handler sig s) = sv_handlers s" by (simp add: sigint_handler_def split: option.split)
  show ?case
  proof (cases "sv_handlers s sig")
    case None
    then show ?thesis using 2 hnd by (auto simp: kills_def split: sum.splits)
  next
    case (Some r)
    have "\<not> kills sig" using Some hnd by (auto simp: kills_def)
    then show ?thesis using 2(2)[OF Some] 2(3) keep Some by (auto split: sum.splits)
  qed
qed simp

lemma run_callbacks_ok: "server_ok s \<Longrightarrow> run_callbacks e cbs s = Inr s' \<Longrightarrow> server_ok s'"
proof (induction e cbs s rule: run_callbacks.induct)
  case (2 e fd timeout cbs s)
  then obtain r s1 where "timer_task e fd timeout s = Inr (r, s1)" "run_callbacks e cbs s1 = Inr s'"
    by (auto simp: bind_res_eq_Inr)
  with 2 timer_task_ok show ?case by blast
qed simp_all

lemma fire_timers_ok:
  assumes "server_ok s" and "fire_timers e s = Inr s'"
  shows "server_ok s'"
  using assms(2) run_callbacks_ok[OF server_ok_update(3)[OF assms(1) timers_ok_handle[OF server_ok_parts(4)[OF assms(1)]]]]
  by (auto simp: fire_timers_def case_prod_unfold Let_def)

section \<open>Steps of the server\<close>

text \<open>
  The event loop waits and handles one event at a time; signals arrive and the timer thread fires at
  any point in between. The events of a wait need not be those that the kernel reported.
\<close>

datatype server_event = Signals "int list" | Wait int "event list" | Event env event | Fire env

inductive server_step :: "server \<Rightarrow> server_event \<Rightarrow> server \<Rightarrow> bool" where
  step_signals: "deliver sigs s = Inr s' \<Longrightarrow> server_step s (Signals sigs) s'"
| step_wait: "server_step s (Wait ret ready) (s\<lparr>sv_epoll := snd (ep_wait ret ready (sv_epoll s))\<rparr>)"
| step_event: "handle_event e ev s = Inr s' \<Longrightarrow> server_step s (Event e ev) s'"
| step_fire: "fire_timers e s = Inr s' \<Longrightarrow> server_step s (Fire e) s'"

inductive_cases server_stepE: "server_step s e t"

text \<open>The loop of the code is a run of these steps.\<close>

lemma event_round_run: "event_round evs s = Inr s' \<Longrightarrow> \<exists>es. run server_step s es s'"
proof (induction evs arbitrary: s)
  case (Cons x evs)
  obtain e ev where x: "x = (e, ev)" by (cases x)
  from Cons.prems x have "s' = s \<or> (\<exists>s1. handle_event e ev s = Inr s1 \<and> event_round evs s1 = Inr s')"
    by (auto simp: bind_res_eq_Inr split: if_splits)
  then show ?case
  proof (elim disjE exE conjE)
    fix s1 assume s1: "handle_event e ev s = Inr s1" "event_round evs s1 = Inr s'"
    from Cons.IH[OF s1(2)] obtain es where "run server_step s1 es s'" by blast
    from run_Cons[where step = server_step, OF step_event[OF s1(1)] this] show ?thesis by blast
  qed (use run_start[of server_step s] in blast)
qed (use run_start[of server_step] in auto)

lemma loop_turn_run:
  assumes "loop_turn r s = Inr s'"
  shows "\<exists>es. run server_step s es s'"
proof -
  obtain s1 where s1: "deliver (rd_signals r) s = Inr s1" using assms by (auto simp: loop_turn_def bind_res_eq_Inr)
  define s2 where "s2 = s1\<lparr>sv_epoll := snd (ep_wait (rd_ret r) (rd_ready r) (sv_epoll s1))\<rparr>"
  have "s' = s2 \<or> (\<exists>evs. event_round evs s2 = Inr s')"
    using assms s1 by (auto simp: loop_turn_def bind_res_eq_Inr case_prod_unfold Let_def s2_def split: if_splits)
  then obtain es where es: "run server_step s2 es s'" using event_round_run run_start[of server_step s2] by blast
  have "server_step s1 (Wait (rd_ret r) (rd_ready r)) s2" unfolding s2_def by (rule step_wait)
  from run_Cons[where step = server_step, OF step_signals[OF s1] run_Cons[where step = server_step, OF this es]]
  show ?thesis by blast
qed

lemma event_turns_run: "event_turns rounds s = Inr (ended, s') \<Longrightarrow> \<exists>es. run server_step s es s'"
proof (induction rounds arbitrary: s)
  case (Cons r rs)
  show ?case
  proof (cases "sv_stop_flag s")
    case False
    with Cons.prems obtain s1 where s1: "loop_turn r s = Inr s1" "event_turns rs s1 = Inr (ended, s')"
      by (auto simp: bind_res_eq_Inr)
    from loop_turn_run[OF s1(1)] Cons.IH[OF s1(2)] show ?thesis using run_trans[where step = server_step] by blast
  qed (use Cons.prems run_start[of server_step s] in auto)
qed (use run_start[of server_step] in auto)

section \<open>From the constructor on\<close>

text \<open>A start whose engine gets a clear array and whose log is the instance of the program.\<close>

definition clean_start :: "start_env \<Rightarrow> bool" where
  "clean_start a = ((\<exists>fail junk. st_kv a = boot_state fail junk \<and> \<not> fail 1 \<and> zeroed junk) \<and>
     (\<exists>t opened. st_log a = kv_log_new t opened))"

lemma kv_log_new_capacity: "max_log_buffer_size (kv_log_new t opened) = LOG_BUFFER_SIZE"
  by (simp add: kv_log_new_def log_init_def case_prod_unfold Let_def split: option.splits)

lemma Webserver_new_ok_inv:
  assumes "clean_start a" and "Webserver_new a db = Inr s"
  shows "server_ok s"
proof -
  obtain ep tcp p where parts: "Epoll_new MAX_EVENTS (st_epoll_fd a) = Inr ep"
    "fst (tcp_socket_new PORT (st_sockets a)) = Inr tcp" "Conn_pool_new 10240 1024 (st_malloc a) = Inr p"
    using assms(2) by (auto simp: Webserver_new_def bind_res_eq_Inr)
  from assms(2) parts have s: "sv_pool s = p \<and> sv_tcp s = tcp \<and> sv_clock s = Thread_clockr_new \<and> sv_log s = st_log a \<and>
      sv_pipe_fd s = Some (st_pipe a) \<and> init_kvengine (st_readable a) db (st_kv a) = Inr (sv_kv s) \<and>
      ep_fd (sv_epoll s) = ep_fd ep \<and> ep_max_events (sv_epoll s) = ep_max_events ep \<and> ep_events (sv_epoll s) = ep_events ep \<and>
      sv_handlers s = [SIGINT \<mapsto> True, SIGTERM \<mapsto> True]"
    by (auto simp: Webserver_new_def bind_res_eq_Inr Let_def add_sig_def ep_add_def split: if_splits)
  have ep: "epoll_ok ep" "ep_max_events ep = MAX_EVENTS"
    using epoll_ok_new[OF parts(1)] parts(1) by (auto simp: Epoll_new_def split: if_splits)
  then have "epoll_ok (sv_epoll s)" "ep_max_events (sv_epoll s) = MAX_EVENTS"
    using s by (simp_all add: epoll_ok_def)
  moreover have "0 \<le> tcp_socket_fd tcp"
    using parts(2) by (auto simp: tcp_socket_new_def tcp_create_def Let_def split: if_splits)
  moreover have "\<exists>m. kv_rel (sv_kv s) m" using s assms(1) init_any by (auto simp: clean_start_def)
  moreover have "max_log_buffer_size (sv_log s) = LOG_BUFFER_SIZE"
    using s assms(1) by (auto simp: clean_start_def kv_log_new_capacity)
  moreover have "dom (sv_handlers s) = {SIGINT, SIGTERM}" using s by auto
  ultimately show ?thesis
    using s pool_ok_new[OF parts(3)] timers_ok_new by (simp add: server_ok_def listening_def)
qed

lemma server_step_ok: "server_step s e t \<Longrightarrow> server_ok s \<Longrightarrow> server_ok t"
  by (erule server_stepE) (auto intro: deliver_ok server_ok_ctl(3) handle_event_ok fire_timers_ok)

interpretation server_life: inductive_invariant server_step s0 "\<lambda>es s. server_ok s0 \<longrightarrow> server_ok s" for s0
  by unfold_locales (auto dest: server_step_ok)

section \<open>Properties\<close>

text \<open>Whatever clients, signals, the kernel and the timer thread do, and in whatever order: as long as no step
  faults, a server that came up keeps the size of its event array, objects that are apart, inside the pool's memory
  and with valid buffer indices, a map that only names blocks of the pool, a timer queue in order whose callbacks
  are for their own descriptors, and a well-formed table. The turns of the event loop are such steps.\<close>

theorem server_invariant:
  assumes "clean_start a" and "Webserver_new a db = Inr s0" and "run server_step s0 es s"
  shows "server_ok s \<and> (\<forall>rounds ended s'. event_turns rounds s = Inr (ended, s') \<longrightarrow> server_ok s')"
proof -
  have s: "server_ok s" using server_life.run_I[OF assms(3)] Webserver_new_ok_inv[OF assms(1,2)] by blast
  then show ?thesis using event_turns_run server_life.run_I by blast
qed

text \<open>The server of the witnesses after its first client.\<close>

theorem server_invariant_witness:
  "\<exists>s1. handle_event (env0 100 7 Peer_closed) (new_conn server0) server0 = Inr s1 \<and> server_ok s1 \<and> sv_pool s1 \<noteq> sv_pool server0"
proof -
  have start: "clean_start start0" by (auto simp: clean_start_def start0_def zeroed_def)
  obtain s1 where s1: "handle_event (env0 100 7 Peer_closed) (new_conn server0) server0 = Inr s1"
    "serves s1 7 0 0 (ConnectionInfo_new\<lparr>ci_fd := 7, ci_last_active_time := 100, ci_addr := \<lparr>sin_addr = 1, sin_port = 2\<rparr>\<rparr>)"
    using server0_first by blast
  have "sv_pool server0 = projr (Conn_pool_new 10240 1024 True)" by (simp add: server0_fields(2))
  then have "objs (sv_pool server0) 0 = None" by (simp add: Conn_pool_new_def)
  then have "sv_pool s1 \<noteq> sv_pool server0" using s1(2) by (auto simp: serves_def)
  moreover have "run server_step server0 [Event (env0 100 7 Peer_closed) (new_conn server0)] s1"
    by (rule run_one) (rule step_event[OF s1(1)])
  from server_invariant[OF start server0_new this] have "server_ok s1" by blast
  ultimately show ?thesis using s1(1) by blast
qed

end
