(* ===== verification/WebRace.thy ===== *)
theory WebRace
  imports ServerConn
begin

text \<open>
  The event loop in \<open>deal_Read\<close> (\<open>Webserver.cpp\<close>) against the timer thread in \<open>timer_task\<close>. Nothing orders the two:
  \<open>deal_Read\<close> keeps the pointer it got from the pool while a callback may close the connection behind it.
  \<open>read_move\<close> cuts \<open>deal_Read\<close> into the accesses to that object, \<open>race_step\<close> runs callbacks in between. Run without
  interruption the moves are \<open>deal_Read\<close>; callbacks that leave the connection alone do not disturb it; a callback that closes
  it makes the next access one to a dead object.
\<close>

section \<open>The moves of a read\<close>

text \<open>Where \<open>deal_Read\<close> is, and the pointer to the connection that it holds there.\<close>

datatype read_pc =
    Rd_start
  | Rd_read paddr
  | Rd_close
  | Rd_convert paddr
  | Rd_route paddr
  | Rd_handle paddr handler
  | Rd_stamp paddr
  | Rd_done bool

definition read_move :: "env \<Rightarrow> int \<Rightarrow> read_pc \<Rightarrow> server \<Rightarrow> (read_pc \<times> server) res" where
  "read_move e conn_fd pc s =
     (case pc of
        Rd_start \<Rightarrow>
          bind_res (pool_get conn_fd (sv_pool s)) (\<lambda>conn.
            if conn = Null_addr then Inr (Rd_done False, s)
            else bind_res (LOG_INFO (fd_msg ''deal_Read conn fd: '' conn_fd []) e s) (\<lambda>s1. Inr (Rd_read conn, s1)))
      | Rd_read conn \<Rightarrow>
          bind_res (pool_object (sv_pool s) conn) (\<lambda>c.
            bind_res (conn_read (e_sock e) (e_now e) c) (\<lambda>(ret, pending, c1).
              Inr (if ret \<le> 0 then Rd_close else Rd_convert conn, s\<lparr>sv_pool := pool_update (sv_pool s) conn c1\<rparr>)))
      | Rd_close \<Rightarrow>
          bind_res (close_conn e conn_fd s) (\<lambda>(r, s1).
            bind_res (LOG_ERROR (fd_msg ''close conn fd: '' conn_fd []) e s1) (\<lambda>s2. Inr (Rd_done False, s2)))
      | Rd_convert conn \<Rightarrow>
          bind_res (pool_object (sv_pool s) conn) (\<lambda>c.
            bind_res (convert_request registered_parsers c) (\<lambda>(success, c1).
              Inr (if success then Rd_route conn else Rd_done False, s\<lparr>sv_pool := pool_update (sv_pool s) conn c1\<rparr>)))
      | Rd_route conn \<Rightarrow>
          bind_res (pool_object (sv_pool s) conn) (\<lambda>c.
            case ci_request c of
              None \<Rightarrow> Inl Bad_pointer
            | Some request \<Rightarrow>
                Inr (case get_handler (get_key_URL request) registered_routes of
                       None \<Rightarrow> Rd_done False | Some handler \<Rightarrow> Rd_handle conn handler, s))
      | Rd_handle conn handler \<Rightarrow>
          bind_res (pool_object (sv_pool s) conn) (\<lambda>c.
            bind_res (run_handler (e_order e) (e_stk e) handler c (sv_kv s)) (\<lambda>(sent, c1, kv).
              Inr (Rd_stamp conn, s\<lparr>sv_kv := kv, sv_pool := pool_update (sv_pool s) conn c1,
                sv_sent := sv_sent s @ sent\<rparr>)))
      | Rd_stamp conn \<Rightarrow>
          bind_res (pool_object (sv_pool s) conn) (\<lambda>c.
            Inr (Rd_done True, s\<lparr>sv_pool := pool_update (sv_pool s) conn (c\<lparr>ci_last_active_time := e_now e\<rparr>)\<rparr>))
      | Rd_done r \<Rightarrow> Inr (pc, s))"

fun read_moves :: "nat \<Rightarrow> env \<Rightarrow> int \<Rightarrow> read_pc \<Rightarrow> server \<Rightarrow> (read_pc \<times> server) res" where
  "read_moves 0 e conn_fd pc s = Inr (pc, s)"
| "read_moves (Suc n) e conn_fd pc s = bind_res (read_move e conn_fd pc s) (\<lambda>(pc', s'). read_moves n e conn_fd pc' s')"

fun held :: "read_pc \<Rightarrow> paddr option" where
  "held (Rd_read conn) = Some conn"
| "held (Rd_convert conn) = Some conn"
| "held (Rd_route conn) = Some conn"
| "held (Rd_handle conn h) = Some conn"
| "held (Rd_stamp conn) = Some conn"
| "held pc = None"

text \<open>An access through a pointer to a dead object faults, wherever the read is.\<close>

lemma move_dead: "held pc = Some conn \<Longrightarrow> pool_object (sv_pool s) conn = Inl f \<Longrightarrow> read_move e fd pc s = Inl f"
  by (cases pc) (simp_all add: read_move_def)

lemma moves_done: "read_moves n e fd (Rd_done r) s = Inr (Rd_done r, s)"
  by (induction n) (simp_all add: read_move_def)

lemma moves_step: "0 < n \<Longrightarrow> read_moves n e fd pc s = bind_res (read_move e fd pc s) (\<lambda>(pc', s'). read_moves (n - 1) e fd pc' s')"
  by (cases n) simp_all

lemma object_update:
  "pool_object p conn = Inr c \<Longrightarrow> pool_object (pool_update p conn c') conn = Inr c'"
  "pool_object p conn = Inr c \<Longrightarrow> pool_update (pool_update p conn c') conn c'' = pool_update p conn c''"
  by (auto simp: pool_object_def pool_update_def split: paddr.splits option.splits)

text \<open>The rest of a read from each of its accesses on, the last one first.\<close>

lemma rest_stamp:
  assumes "pool_object (sv_pool s) conn = Inr c"
  shows "read_moves (Suc n) e fd (Rd_stamp conn) s =
    Inr (Rd_done True, s\<lparr>sv_pool := pool_update (sv_pool s) conn (c\<lparr>ci_last_active_time := e_now e\<rparr>)\<rparr>)"
  using assms by (simp add: read_move_def moves_done)

lemma rest_handle:
  assumes "pool_object (sv_pool s) conn = Inr c"
  shows "read_moves (Suc (Suc n)) e fd (Rd_handle conn h) s =
    bind_res (run_handler (e_order e) (e_stk e) h c (sv_kv s)) (\<lambda>(sent, c1, kv).
      Inr (Rd_done True, s\<lparr>sv_kv := kv, sv_pool := pool_update (sv_pool s) conn (c1\<lparr>ci_last_active_time := e_now e\<rparr>),
        sv_sent := sv_sent s @ sent\<rparr>))"
  using assms
  by (cases "run_handler (e_order e) (e_stk e) h c (sv_kv s)")
    (auto simp: read_moves.simps(2)[of "Suc n"] read_move_def rest_stamp object_update simp del: read_moves.simps)

lemma rest_route:
  assumes "pool_object (sv_pool s) conn = Inr c"
  shows "read_moves (Suc (Suc (Suc n))) e fd (Rd_route conn) s =
    (case ci_request c of
       None \<Rightarrow> Inl Bad_pointer
     | Some request \<Rightarrow>
         (case get_handler (get_key_URL request) registered_routes of
            None \<Rightarrow> Inr (Rd_done False, s)
          | Some h \<Rightarrow>
              bind_res (run_handler (e_order e) (e_stk e) h c (sv_kv s)) (\<lambda>(sent, c1, kv).
                Inr (Rd_done True, s\<lparr>sv_kv := kv, sv_pool := pool_update (sv_pool s) conn (c1\<lparr>ci_last_active_time := e_now e\<rparr>),
                  sv_sent := sv_sent s @ sent\<rparr>))))"
  using assms
  by (simp add: read_moves.simps(2)[of "Suc (Suc n)"] read_move_def rest_handle[OF assms] moves_done del: read_moves.simps
      split: option.splits)

lemma rest_convert:
  assumes "pool_object (sv_pool s) conn = Inr c"
  shows "read_moves 4 e fd (Rd_convert conn) s =
    bind_res (convert_request registered_parsers c) (\<lambda>(success, c2).
      let s2 = s\<lparr>sv_pool := pool_update (sv_pool s) conn c2\<rparr>
      in if \<not> success then Inr (Rd_done False, s2)
         else case ci_request c2 of
           None \<Rightarrow> Inl Bad_pointer
         | Some request \<Rightarrow>
             (case get_handler (get_key_URL request) registered_routes of
                None \<Rightarrow> Inr (Rd_done False, s2)
              | Some h \<Rightarrow>
                  bind_res (run_handler (e_order e) (e_stk e) h c2 (sv_kv s2)) (\<lambda>(sent, c3, kv).
                    Inr (Rd_done True, s2\<lparr>sv_kv := kv,
                      sv_pool := pool_update (sv_pool s2) conn (c3\<lparr>ci_last_active_time := e_now e\<rparr>),
                      sv_sent := sv_sent s2 @ sent\<rparr>))))"
proof (cases "convert_request registered_parsers c")
  case (Inl f)
  with assms show ?thesis by (simp add: moves_step[of 4] read_move_def del: read_moves.simps)
next
  case (Inr x)
  obtain success c2 where x: "x = (success, c2)" by (cases x)
  let ?s2 = "s\<lparr>sv_pool := pool_update (sv_pool s) conn c2\<rparr>"
  have "pool_object (sv_pool ?s2) conn = Inr c2" using object_update(1)[OF assms] by simp
  note route = rest_route[OF this, of 0 e fd]
  from assms Inr x have "read_moves 4 e fd (Rd_convert conn) s =
      (if success then read_moves (Suc (Suc (Suc 0))) e fd (Rd_route conn) ?s2 else Inr (Rd_done False, ?s2))"
    by (simp add: moves_step[of 4] read_move_def moves_done numeral_3_eq_3 del: read_moves.simps)
  then show ?thesis unfolding route by (simp add: Inr x Let_def)
qed

lemma rest_read:
  assumes "pool_object (sv_pool s) conn = Inr c"
  shows "read_moves 5 e fd (Rd_read conn) s =
    bind_res (conn_read (e_sock e) (e_now e) c) (\<lambda>(ret, pending, c1).
      let s1 = s\<lparr>sv_pool := pool_update (sv_pool s) conn c1\<rparr>
      in if ret \<le> 0 then read_moves 4 e fd Rd_close s1 else read_moves 4 e fd (Rd_convert conn) s1)"
  using assms
  by (cases "conn_read (e_sock e) (e_now e) c")
    (auto simp: moves_step[of 5] read_move_def Let_def simp del: read_moves.simps)

lemma rest_close:
  "read_moves (Suc n) e fd Rd_close s =
    bind_res (close_conn e fd s) (\<lambda>(r, s1).
      bind_res (LOG_ERROR (fd_msg ''close conn fd: '' fd []) e s1) (\<lambda>s2. Inr (Rd_done False, s2)))"
  by (simp add: read_move_def bind_res_assoc case_prod_unfold moves_done)

lemma rest_is_deal_Read:
  assumes "pool_get fd (sv_pool s) = Inr conn" and "conn \<noteq> Null_addr"
    and "LOG_INFO (fd_msg ''deal_Read conn fd: '' fd []) e s = Inr s1" and obj: "pool_object (sv_pool s1) conn = Inr c"
  shows "read_moves 5 e fd (Rd_read conn) s1 = bind_res (deal_Read e fd s) (\<lambda>(r, s'). Inr (Rd_done r, s'))"
proof (cases "conn_read (e_sock e) (e_now e) c")
  case (Inl f)
  with assms show ?thesis unfolding rest_read[OF obj] by (simp add: deal_Read_def)
next
  case (Inr x)
  obtain ret pending c1 where x: "x = (ret, pending, c1)" by (cases x)
  let ?s2 = "s1\<lparr>sv_pool := pool_update (sv_pool s1) conn c1\<rparr>"
  note rest = rest_read[OF obj, of e fd, unfolded Inr x bind_res_Inr prod.case Let_def]
  note deal = deal_Read_def[of e fd s, unfolded assms Inr x bind_res_Inr prod.case Let_def]
  show ?thesis
  proof (cases "ret \<le> 0")
    case True
    then show ?thesis unfolding rest deal
      using rest_close[of 3 e fd ?s2] assms(2) by (simp add: bind_res_assoc case_prod_unfold del: read_moves.simps)
  next
    case False
    have "pool_object (sv_pool ?s2) conn = Inr c1" using object_update(1)[OF obj] by simp
    note convert = rest_convert[OF this]
    show ?thesis unfolding rest deal convert using False assms(2)
      by (cases "convert_request registered_parsers c1")
        (simp_all add: bind_res_assoc case_prod_unfold Let_def split: option.splits)
  qed
qed

section \<open>Callbacks in between\<close>

datatype race_event = Move env | Callback env int int

inductive race_step :: "int \<Rightarrow> read_pc \<times> server \<Rightarrow> race_event \<Rightarrow> read_pc \<times> server \<Rightarrow> bool" for fd where
  move: "read_move e fd pc s = Inr (pc', s') \<Longrightarrow> race_step fd (pc, s) (Move e) (pc', s')"
| callback: "timer_task e g timeout s = Inr (r, s') \<Longrightarrow> race_step fd (pc, s) (Callback e g timeout) (pc, s')"

inductive_cases race_stepE: "race_step fd p e q"

text \<open>A callback spares the connection of \<open>fd\<close> when it is for another object, or comes before the time is over.\<close>

definition spares :: "int \<Rightarrow> env \<Rightarrow> int \<Rightarrow> int \<Rightarrow> server \<Rightarrow> bool" where
  "spares fd e g timeout s =
     (case pool_get fd (sv_pool s) of
        Inl _ \<Rightarrow> False
      | Inr conn \<Rightarrow>
          pool_get g (sv_pool s) \<noteq> Inr conn \<or>
          (case pool_object (sv_pool s) conn of
             Inl _ \<Rightarrow> False
           | Inr c \<Rightarrow> e_now e < ci_last_active_time c + timeout))"

definition calm_step :: "env \<Rightarrow> int \<Rightarrow> read_pc \<times> server \<Rightarrow> race_event \<Rightarrow> read_pc \<times> server \<Rightarrow> bool" where
  "calm_step e fd p ev q = (race_step fd p ev q \<and>
     (case ev of Move e' \<Rightarrow> e' = e | Callback e' g timeout \<Rightarrow> spares fd e' g timeout (snd p)))"

text \<open>What closing a connection and a callback do to the parts of the server that a read looks at.\<close>

definition untouched :: "server \<Rightarrow> server \<Rightarrow> bool" where
  "untouched s s' = (sv_kv s' = sv_kv s \<and> sv_sent s' = sv_sent s \<and>
     max_log_buffer_size (sv_log s') = max_log_buffer_size (sv_log s))"

definition pool_closed :: "nat \<Rightarrow> conn_pool \<Rightarrow> conn_pool" where
  "pool_closed a p = p\<lparr>objs := (objs p)(a := None), free_list := Stack_addr\<rparr>"

lemma LOG_keeps:
  assumes "LOG_INFO msg e s = Inr s' \<or> LOG_ERROR msg e s = Inr s'"
  shows "untouched s s' \<and> sv_pool s' = sv_pool s"
  using assms
  by (auto simp: LOG_INFO_def LOG_ERROR_def log_at_def bind_res_eq_Inr untouched_def dest: LOG_capacity)

lemma close_conn_effect:
  assumes "close_conn e g s = Inr (r, s')"
  shows "untouched s s' \<and> (pool_get g (sv_pool s) = Inr Null_addr \<and> s' = s \<or>
    (\<exists>a c. pool_get g (sv_pool s) = Inr (Block a) \<and> objs (sv_pool s) a = Some c \<and> sv_pool s' = pool_closed a (sv_pool s)))"
proof -
  obtain conn where conn: "pool_get g (sv_pool s) = Inr conn" using assms by (auto simp: close_conn_def bind_res_eq_Inr)
  show ?thesis
  proof (cases "conn = Null_addr")
    case True
    with assms conn show ?thesis by (simp add: close_conn_def untouched_def)
  next
    case False
    let ?s2 = "snd (ws_del_timer g (s\<lparr>sv_epoll := snd (ep_del (e_ctl e) g (sv_epoll s))\<rparr>))"
    have s2: "untouched s ?s2" "sv_pool ?s2 = sv_pool s"
      by (simp_all add: ws_del_timer_def untouched_def case_prod_unfold Let_def)
    from assms conn False obtain closed p x where rel: "Release conn (sv_pool s) = Inr (closed, p)"
      and log: "LOG_INFO (fd_msg ''close conn fd: '' g []) e (?s2\<lparr>sv_pool := p, sv_closed := x\<rparr>) = Inr s'"
      using s2(2) by (auto simp: close_conn_def bind_res_eq_Inr Let_def simp del: fd_msg_def)
    from rel obtain a c where "conn = Block a" "objs (sv_pool s) a = Some c" "p = pool_closed a (sv_pool s)"
      by (cases conn) (auto simp: Release_def bind_res_eq_Inr pool_closed_def pool_object_def split: option.splits)
    with conn s2 LOG_keeps[OF disjI1[OF log]] show ?thesis by (simp add: untouched_def)
  qed
qed

lemma timer_task_effect:
  assumes "timer_task e g timeout s = Inr (r, s')"
  shows "untouched s s' \<and> (sv_pool s' = sv_pool s \<or>
    (\<exists>a c. pool_get g (sv_pool s) = Inr (Block a) \<and> objs (sv_pool s) a = Some c \<and>
       ci_last_active_time c + timeout \<le> e_now e \<and> sv_pool s' = pool_closed a (sv_pool s)))"
proof -
  consider "s' = s" | conn c s1 r1 where "pool_get g (sv_pool s) = Inr conn" "pool_object (sv_pool s) conn = Inr c"
      "ci_last_active_time c + timeout \<le> e_now e" "LOG_ERROR (fd_msg ''conn fd: '' g '' timeout'') e s = Inr s1"
      "close_conn e g s1 = Inr (r1, s')"
    using assms by (auto simp: timer_task_def bind_res_eq_Inr split: if_splits)
  then show ?thesis
  proof cases
    case 2
    with LOG_keeps[OF disjI2[OF 2(4)]] close_conn_effect[OF 2(5)] show ?thesis
      by (auto simp: untouched_def pool_object_def split: option.splits)
  qed (simp add: untouched_def)
qed

lemma close_conn_returns:
  assumes "pool_get g (sv_pool s) = Inr conn" and "pool_object (sv_pool s) conn = Inr c" and "log_ready e s" and "int32 g"
  shows "\<exists>s'. close_conn e g s = Inr (True, s') \<and> log_ready e s'"
proof -
  obtain a where a: "conn = Block a" "objs (sv_pool s) a = Some c"
    using assms(2) by (auto simp: pool_object_def split: paddr.splits option.splits)
  have "log_ready e (snd (ws_del_timer g s1)) = log_ready e s1" for s1
    by (simp add: ws_del_timer_def log_ready_def case_prod_unfold Let_def)
  with assms a show ?thesis
    by (simp add: close_conn_def Release_def pool_object_def case_prod_unfold Let_def)
      (simp add: ws_del_timer_def case_prod_unfold Let_def pool_object_def)
qed

section \<open>A read among callbacks that spare it\<close>

text \<open>What two states have in common that a read through \<open>conn\<close> cannot tell apart.\<close>

definition same_view :: "int \<Rightarrow> paddr \<Rightarrow> server \<Rightarrow> server \<Rightarrow> bool" where
  "same_view fd conn s t =
     (pool_get fd (sv_pool s) = Inr conn \<and> pool_get fd (sv_pool t) = Inr conn \<and>
      pool_object (sv_pool s) conn = pool_object (sv_pool t) conn \<and> sv_kv s = sv_kv t \<and> sv_sent s = sv_sent t \<and>
      max_log_buffer_size (sv_log s) = LOG_BUFFER_SIZE \<and> max_log_buffer_size (sv_log t) = LOG_BUFFER_SIZE)"

definition log_times_ok :: "env \<Rightarrow> bool" where
  "log_times_ok e = (\<forall>level. length (stamp_text level (e_time e)) \<le> 100)"

lemma log_ready_split: "log_ready e s \<longleftrightarrow> log_times_ok e \<and> max_log_buffer_size (sv_log s) = LOG_BUFFER_SIZE"
  by (auto simp: log_ready_def log_times_ok_def)

lemma pool_get_closed [simp]: "pool_get g (pool_closed a p) = pool_get g p"
  by (simp add: pool_get_def pool_closed_def)

lemma pool_object_closed: "pool_object (pool_closed a p) conn = (if conn = Block a then Inl Bad_pointer else pool_object p conn)"
  by (auto simp: pool_object_def pool_closed_def split: paddr.splits)

lemma pool_get_put [simp]: "pool_get g (pool_update p conn c) = pool_get g p"
  by (simp add: pool_get_def pool_update_def split: paddr.splits)

lemma same_view_callback:
  assumes v: "same_view fd conn s t" and cb: "timer_task e g timeout s = Inr (r, s')" and sp: "spares fd e g timeout s"
  shows "same_view fd conn s' t"
  using timer_task_effect[OF cb]
proof (elim conjE disjE exE)
  assume "untouched s s'" "sv_pool s' = sv_pool s"
  with v show ?thesis by (simp add: same_view_def untouched_def)
next
  fix a c
  assume a: "untouched s s'" "pool_get g (sv_pool s) = Inr (Block a)" "objs (sv_pool s) a = Some c"
    "ci_last_active_time c + timeout \<le> e_now e" "sv_pool s' = pool_closed a (sv_pool s)"
  have "pool_get fd (sv_pool s) = Inr conn" "pool_object (sv_pool s) (Block a) = Inr c"
    using v a(3) by (simp_all add: same_view_def pool_object_def)
  then have "conn \<noteq> Block a" using sp a(2,4) by (auto simp: spares_def)
  with v a show ?thesis by (simp add: same_view_def untouched_def pool_object_closed)
qed

text \<open>A move made in one of two states with the same view is the same move in the other.\<close>

lemma same_view_object:
  assumes "same_view fd conn s t" and "pool_object (sv_pool s) conn = Inr c"
  shows "same_view fd conn (s\<lparr>sv_pool := pool_update (sv_pool s) conn c'\<rparr>) (t\<lparr>sv_pool := pool_update (sv_pool t) conn c'\<rparr>)"
  using assms object_update(1)[of "sv_pool s" conn c c'] object_update(1)[of "sv_pool t" conn c c']
  by (simp add: same_view_def)

lemma same_view_close:
  assumes v: "same_view fd conn s t" and e: "log_times_ok e" "int32 fd"
    and m: "read_move e fd Rd_close s = Inr (pc', s')"
  shows "\<exists>t'. read_move e fd Rd_close t = Inr (pc', t') \<and> same_view fd conn s' t' \<and> held pc' \<in> {None, Some conn}"
proof -
  obtain r s1 where s1: "close_conn e fd s = Inr (r, s1)" "LOG_ERROR (fd_msg ''close conn fd: '' fd []) e s1 = Inr s'"
    "pc' = Rd_done False" using m by (auto simp: read_move_def bind_res_eq_Inr)
  have log: "log_ready e t" using v e by (simp add: log_ready_split same_view_def)
  obtain t1 r' where t1: "close_conn e fd t = Inr (r', t1)" "same_view fd conn s1 t1"
  proof (cases "conn = Null_addr")
    case True
    with v have "close_conn e fd t = Inr (False, t)" "s1 = s" using close_conn_effect[OF s1(1)]
      by (simp_all add: close_conn_def same_view_def)
    with v that show ?thesis by blast
  next
    case False
    with v close_conn_effect[OF s1(1)] obtain a c where a: "conn = Block a" "untouched s s1" "objs (sv_pool s) a = Some c"
      "sv_pool s1 = pool_closed a (sv_pool s)" by (auto simp: same_view_def)
    then have get: "pool_get fd (sv_pool t) = Inr (Block a)" and obj: "pool_object (sv_pool t) (Block a) = Inr c"
      using v by (auto simp: same_view_def pool_object_def split: option.splits)
    from close_conn_returns[OF this log e(2)] obtain t1 where t1: "close_conn e fd t = Inr (True, t1)" by blast
    from close_conn_effect[OF t1] get have "untouched t t1" "sv_pool t1 = pool_closed a (sv_pool t)" by auto
    with v a have "same_view fd conn s1 t1" by (simp add: same_view_def untouched_def pool_object_closed)
    with t1 that show ?thesis by blast
  qed
  have "log_ready e t1" using t1(2) e by (simp add: log_ready_split same_view_def)
  then obtain t' where t': "LOG_ERROR (fd_msg ''close conn fd: '' fd []) e t1 = Inr t'" using e(2) by simp
  have "same_view fd conn s' t'"
    using t1(2) LOG_keeps[OF disjI2[OF s1(2)]] LOG_keeps[OF disjI2[OF t']] by (simp add: same_view_def untouched_def)
  with t1(1) t' s1(3) show ?thesis by (auto simp: read_move_def)
qed

lemma same_view_move:
  assumes v: "same_view fd conn s t" and e: "log_times_ok e" "int32 fd" and h: "held pc \<in> {None, Some conn}"
    and m: "read_move e fd pc s = Inr (pc', s')"
  shows "\<exists>t'. read_move e fd pc t = Inr (pc', t') \<and> same_view fd conn s' t' \<and> held pc' \<in> {None, Some conn}"
proof (cases pc)
  case Rd_start
  have log: "log_ready e s" "log_ready e t" using v e by (simp_all add: log_ready_split same_view_def)
  have get: "pool_get fd (sv_pool s) = Inr conn" "pool_get fd (sv_pool t) = Inr conn" using v by (simp_all add: same_view_def)
  have "same_view fd conn (logged 1 msg e s) (logged 1 msg e t)" if "length msg \<le> 100" for msg
    using v log that log_ready_logged[of e s msg e 1] log_ready_logged[of e t msg e 1] by (simp add: same_view_def log_ready_split)
  then show ?thesis using m Rd_start v get log e(2) by (auto simp: read_move_def split: if_splits)
next
  case Rd_close
  with same_view_close[OF v e] m show ?thesis by simp
next
  case (Rd_done r)
  with m v show ?thesis by (auto simp: read_move_def)
next
  case (Rd_read x)
  then have [simp]: "x = conn" using h by simp
  obtain c where c: "pool_object (sv_pool s) conn = Inr c" using m Rd_read by (auto simp: read_move_def bind_res_eq_Inr)
  then have d: "pool_object (sv_pool t) conn = Inr c" using v by (simp add: same_view_def)
  obtain ret pending c1 where r: "conn_read (e_sock e) (e_now e) c = Inr (ret, pending, c1)"
    using m Rd_read c by (auto simp: read_move_def bind_res_eq_Inr)
  from m Rd_read same_view_object[OF v c, of c1] show ?thesis by (auto simp: read_move_def c d r split: if_splits)
next
  case (Rd_convert x)
  then have [simp]: "x = conn" using h by simp
  obtain c where c: "pool_object (sv_pool s) conn = Inr c" using m Rd_convert by (auto simp: read_move_def bind_res_eq_Inr)
  then have d: "pool_object (sv_pool t) conn = Inr c" using v by (simp add: same_view_def)
  obtain success c1 where r: "convert_request registered_parsers c = Inr (success, c1)"
    using m Rd_convert c by (auto simp: read_move_def bind_res_eq_Inr)
  from m Rd_convert same_view_object[OF v c, of c1] show ?thesis by (auto simp: read_move_def c d r split: if_splits)
next
  case (Rd_route x)
  then have [simp]: "x = conn" using h by simp
  obtain c where c: "pool_object (sv_pool s) conn = Inr c" using m Rd_route by (auto simp: read_move_def bind_res_eq_Inr)
  then have d: "pool_object (sv_pool t) conn = Inr c" using v by (simp add: same_view_def)
  from m Rd_route c d v show ?thesis by (auto simp: read_move_def split: option.splits)
next
  case (Rd_handle x hd)
  then have [simp]: "x = conn" using h by simp
  obtain c where c: "pool_object (sv_pool s) conn = Inr c" using m Rd_handle by (auto simp: read_move_def bind_res_eq_Inr)
  then have d: "pool_object (sv_pool t) conn = Inr c" and kv: "sv_kv s = sv_kv t" "sv_sent s = sv_sent t"
    using v by (simp_all add: same_view_def)
  from m Rd_handle c d kv same_view_object[OF v c] show ?thesis
    by (auto simp: read_move_def bind_res_eq_Inr same_view_def)
next
  case (Rd_stamp x)
  then have [simp]: "x = conn" using h by simp
  obtain c where c: "pool_object (sv_pool s) conn = Inr c" using m Rd_stamp by (auto simp: read_move_def bind_res_eq_Inr)
  then have d: "pool_object (sv_pool t) conn = Inr c" using v by (simp add: same_view_def)
  from m Rd_stamp c d same_view_object[OF v c] show ?thesis by (auto simp: read_move_def)
qed

text \<open>So what a calm run does, the moves do alone.\<close>

lemma moves_snoc:
  "read_moves n e fd pc s = Inr (pc', t) \<Longrightarrow> read_move e fd pc' t = Inr (pc'', u) \<Longrightarrow>
   read_moves (Suc n) e fd pc s = Inr (pc'', u)"
  by (induction n arbitrary: pc s) (auto simp: bind_res_eq_Inr)

lemma moves_add: "read_moves (m + n) e fd pc s = bind_res (read_moves m e fd pc s) (\<lambda>(pc', t). read_moves n e fd pc' t)"
  by (induction m arbitrary: pc s) (simp_all add: bind_res_assoc case_prod_unfold)

lemma calm_run:
  assumes "run (calm_step e fd) p es q" and "fst p = Rd_start" and "same_view fd conn (snd p) (snd p)"
    and "log_times_ok e" and "int32 fd"
  shows "\<exists>n t. read_moves n e fd Rd_start (snd p) = Inr (fst q, t) \<and> same_view fd conn (snd q) t \<and>
    held (fst q) \<in> {None, Some conn}"
  using assms
proof (induction rule: run.induct)
  case run_start
  then show ?case by (intro exI[of _ 0] exI[of _ "snd p"]) simp
next
  case (run_event es q ev u)
  from run_event.IH[OF run_event.prems] obtain n t where
    t: "read_moves n e fd Rd_start (snd p) = Inr (fst q, t)" "same_view fd conn (snd q) t" "held (fst q) \<in> {None, Some conn}"
    by blast
  from run_event.hyps(2) have st: "race_step fd q ev u"
    and ev: "case ev of Move e' \<Rightarrow> e' = e | Callback e' g timeout \<Rightarrow> spares fd e' g timeout (snd q)"
    by (simp_all add: calm_step_def)
  from st show ?case
  proof cases
    case (move e' pc s pc' s')
    with ev have "read_move e fd (fst q) (snd q) = Inr (pc', s')" by simp
    from same_view_move[OF t(2) run_event.prems(3,4) t(3) this] obtain t' where
      "read_move e fd (fst q) t = Inr (pc', t')" "same_view fd conn s' t'" "held pc' \<in> {None, Some conn}" by blast
    with moves_snoc[OF t(1)] move show ?thesis by (intro exI[of _ "Suc n"] exI[of _ t']) simp
  next
    case (callback e' g timeout s r s' pc)
    with same_view_callback[OF t(2), of e' g timeout r s'] ev t show ?thesis
      by (intro exI[of _ n] exI[of _ t]) simp
  qed
qed

text \<open>The whole read.\<close>

lemma moves_are_deal_Read:
  "read_moves 6 e fd Rd_start s = bind_res (deal_Read e fd s) (\<lambda>(r, s'). Inr (Rd_done r, s'))"
proof -
  note first = moves_step[of 6] read_move_def moves_done
  show ?thesis
  proof (cases "pool_get fd (sv_pool s)")
    case get: (Inr conn)
    show ?thesis
    proof (cases "conn = Null_addr")
      case nonnull: False
      show ?thesis
      proof (cases "LOG_INFO (fd_msg ''deal_Read conn fd: '' fd []) e s")
        case log: (Inr s1)
        then have start: "read_moves 6 e fd Rd_start s = read_moves 5 e fd (Rd_read conn) s1"
          using get nonnull by (simp add: first del: read_moves.simps)
        show ?thesis
        proof (cases "pool_object (sv_pool s1) conn")
          case (Inl f)
          with get nonnull log show ?thesis
            unfolding start by (simp add: deal_Read_def moves_step[of 5] read_move_def del: read_moves.simps)
        next
          case (Inr c)
          show ?thesis unfolding start by (rule rest_is_deal_Read[OF get nonnull log Inr])
        qed
      qed (use get nonnull in \<open>simp add: deal_Read_def first del: read_moves.simps\<close>)
    qed (use get in \<open>simp add: deal_Read_def first del: read_moves.simps\<close>)
  qed (simp add: deal_Read_def first del: read_moves.simps)
qed

section \<open>Properties\<close>

text \<open>The accesses, one after another, are \<open>deal_Read\<close>, on every branch and with every fault.\<close>

theorem reads_alone:
  "read_moves 6 e fd Rd_start s = bind_res (deal_Read e fd s) (\<lambda>(r, s'). Inr (Rd_done r, s'))"
  by (rule moves_are_deal_Read)

text \<open>C11. Callbacks that are for other connections, or come before the time is over, do not disturb a read: with any number of
  them between its accesses it answers what \<open>deal_Read\<close> alone answers, and leaves the same connection, the same table
  and the same responses.\<close>

theorem read_undisturbed:
  assumes "run (calm_step e fd) (Rd_start, s) es (Rd_done r, s')" and "log_ready e s" and "int32 fd"
    and "pool_get fd (sv_pool s) = Inr conn"
  shows "\<exists>t. deal_Read e fd s = Inr (r, t) \<and> pool_object (sv_pool s') conn = pool_object (sv_pool t) conn \<and>
    sv_kv s' = sv_kv t \<and> sv_sent s' = sv_sent t"
proof -
  have "same_view fd conn s s" "log_times_ok e" using assms(2,4) by (simp_all add: same_view_def log_ready_split)
  with calm_run[OF assms(1), of conn] assms(3) obtain n t where
    t: "read_moves n e fd Rd_start s = Inr (Rd_done r, t)" "same_view fd conn s' t" by auto
  have "read_moves (n + 6) e fd Rd_start s = Inr (Rd_done r, t)"
    unfolding moves_add using t(1) by (simp add: moves_done del: read_moves.simps)
  then have "read_moves (6 + n) e fd Rd_start s = Inr (Rd_done r, t)" by (simp only: add.commute)
  then have "deal_Read e fd s = Inr (r, t)"
    unfolding moves_add moves_are_deal_Read
    by (cases "deal_Read e fd s") (auto simp: moves_done bind_res_assoc simp del: read_moves.simps)
  with t(2) show ?thesis by (auto simp: same_view_def)
qed

text \<open>A callback of the connection itself, before its time, and then the end of the stream.\<close>

theorem read_undisturbed_witness:
  "\<exists>s1 es s'. handle_event (env0 100 7 Peer_closed) (new_conn server0) server0 = Inr s1 \<and>
    run (calm_step (env0 100 0 Peer_closed) 7) (Rd_start, s1) es (Rd_done False, s') \<and>
    Callback (env0 100 0 Peer_closed) 7 TIME_OUT \<in> set es \<and>
    (\<exists>t. deal_Read (env0 100 0 Peer_closed) 7 s1 = Inr (False, t) \<and> sv_kv s' = sv_kv t)"
proof -
  let ?e = "env0 100 0 Peer_closed" and ?m = "fd_msg ''deal_Read conn fd: '' 7 []"
  obtain s1 c where s1: "handle_event (env0 100 7 Peer_closed) (new_conn server0) server0 = Inr s1"
    "serves s1 7 0 0 c" "ci_last_active_time c = 100" "log_ready ?e s1" using server0_first by force
  have get: "pool_get 7 (sv_pool s1) = Inr (Block 0)" "pool_object (sv_pool s1) (Block 0) = Inr c"
    using s1(2) by (simp_all add: serves_def pool_object_def)
  have fd: "int32 7" by (simp add: int32_def)
  let ?s2 = "logged 1 ?m ?e s1"
  let ?s3 = "?s2\<lparr>sv_pool := pool_update (sv_pool s1) (Block 0) c\<rparr>"
  have m1: "read_move ?e 7 Rd_start s1 = Inr (Rd_read (Block 0), ?s2)" using get s1(4) fd by (simp add: read_move_def)
  have cb: "timer_task ?e 7 TIME_OUT ?s2 = Inr (False, ?s2)" "spares 7 ?e 7 TIME_OUT ?s2"
    using get s1(3) by (simp_all add: timer_task_def spares_def TIME_OUT_def)
  have m2: "read_move ?e 7 (Rd_read (Block 0)) ?s2 = Inr (Rd_close, ?s3)" using get by (simp add: read_move_def conn_read_def Let_def)
  have "pool_get 7 (sv_pool ?s3) = Inr (Block 0)" "pool_object (sv_pool ?s3) (Block 0) = Inr c" "log_ready ?e ?s3"
    using s1(4) fd get(1) by (simp_all add: pool_object_def)
  from close_conn_returns[OF this fd] obtain s4 where s4: "close_conn ?e 7 ?s3 = Inr (True, s4)" "log_ready ?e s4" by auto
  let ?s5 = "logged 3 (fd_msg ''close conn fd: '' 7 []) ?e s4"
  have m3: "read_move ?e 7 Rd_close ?s3 = Inr (Rd_done False, ?s5)" using s4 fd by (simp add: read_move_def)
  note step = race_step.move race_step.callback
  have c: "calm_step ?e 7 (Rd_start, s1) (Move ?e) (Rd_read (Block 0), ?s2)"
    "calm_step ?e 7 (Rd_read (Block 0), ?s2) (Callback ?e 7 TIME_OUT) (Rd_read (Block 0), ?s2)"
    "calm_step ?e 7 (Rd_read (Block 0), ?s2) (Move ?e) (Rd_close, ?s3)"
    "calm_step ?e 7 (Rd_close, ?s3) (Move ?e) (Rd_done False, ?s5)"
    using step(1)[OF m1] step(2)[OF cb(1)] step(1)[OF m2] step(1)[OF m3] cb(2) by (simp_all add: calm_step_def)
  let ?es = "[Move ?e, Callback ?e 7 TIME_OUT, Move ?e, Move ?e]"
  have r: "run (calm_step ?e 7) (Rd_start, s1) ?es (Rd_done False, ?s5)"
    by (rule run_Cons[where step = "calm_step ?e 7", OF c(1)], rule run_Cons[where step = "calm_step ?e 7", OF c(2)],
        rule run_Cons[where step = "calm_step ?e 7", OF c(3)], rule run_one[where step = "calm_step ?e 7", OF c(4)])
  from read_undisturbed[OF r s1(4) fd get(1)] r s1(1) show ?thesis
    by (intro exI[of _ s1] exI[of _ ?es] exI[of _ ?s5]) auto
qed

lemma closes_idle:
  assumes "pool_get fd (sv_pool s) = Inr conn" and "pool_object (sv_pool s) conn = Inr c" and "log_ready e s" and "int32 fd"
    and "ci_last_active_time c + timeout \<le> e_now e"
  shows "\<exists>s'. timer_task e fd timeout s = Inr (True, s') \<and> pool_object (sv_pool s') conn = Inl Bad_pointer"
proof -
  obtain a where a: "conn = Block a" using assms(2) by (auto simp: pool_object_def split: paddr.splits)
  let ?m = "fd_msg ''conn fd: '' fd '' timeout''"
  have log: "LOG_ERROR ?m e s = Inr (logged 3 ?m e s)" "log_ready e (logged 3 ?m e s)" using assms(3,4) by simp_all
  from close_conn_returns[of fd "logged 3 ?m e s", OF _ _ log(2) assms(4)] assms(1,2)
  obtain s' where s': "close_conn e fd (logged 3 ?m e s) = Inr (True, s')" by auto
  from close_conn_effect[OF this] assms(1) a have "sv_pool s' = pool_closed a (sv_pool s)" by auto
  with s' assms log a show ?thesis by (simp add: timer_task_def pool_object_closed)
qed

text \<open>C22. A callback that comes after \<open>deal_Read\<close> has looked up an idle connection closes it although bytes
  have arrived, and every access through the pointer that \<open>deal_Read\<close> holds is then one to a dead object. Had the bytes
  been read first, the callback would have left the connection alone.\<close>

theorem read_of_closed:
  assumes "serves s fd a t c" and "log_ready e s" and "log_ready e' s" and "int32 fd"
    and "ci_last_active_time c + TIME_OUT \<le> e_now e'" and "e_now e' < e_now e + TIME_OUT"
    and "e_sock e = Bytes msg" and "msg \<noteq> []" and "t + int (length msg) \<le> RING_BUFFER_SIZE"
  shows "(\<exists>s1 s2. read_move e fd Rd_start s = Inr (Rd_read (Block a), s1) \<and> timer_task e' fd TIME_OUT s1 = Inr (True, s2) \<and>
      (\<forall>e'' pc. held pc = Some (Block a) \<longrightarrow> read_move e'' fd pc s2 = Inl Bad_pointer)) \<and>
    (\<exists>s1. read_moves 2 e fd Rd_start s = Inr (Rd_convert (Block a), s1) \<and> timer_task e' fd TIME_OUT s1 = Inr (False, s1))"
proof -
  let ?s1 = "logged 1 (fd_msg ''deal_Read conn fd: '' fd []) e s"
  have get: "pool_get fd (sv_pool s) = Inr (Block a)" "pool_object (sv_pool s) (Block a) = Inr c"
    and c: "conn_at t c" using assms(1) by (simp_all add: serves_def pool_object_def)
  have start: "read_move e fd Rd_start s = Inr (Rd_read (Block a), ?s1)"
    using get assms(2,4) by (simp add: read_move_def)
  have "log_ready e' ?s1" using assms(2-4) by simp
  from closes_idle[of fd ?s1, OF _ _ this assms(4,5)] get obtain s2 where
    s2: "timer_task e' fd TIME_OUT ?s1 = Inr (True, s2)" "pool_object (sv_pool s2) (Block a) = Inl Bad_pointer" by auto
  from conn_read_ok[OF c assms(8,9), of "e_now e"] obtain c' where
    c': "conn_read (e_sock e) (e_now e) c = Inr (int (length msg), Bytes [], c')" "ci_last_active_time c' = e_now e"
    unfolding assms(7) by blast
  let ?s3 = "?s1\<lparr>sv_pool := pool_update (sv_pool s) (Block a) c'\<rparr>"
  have "0 < int (length msg)" using assms(8) by simp
  then have "read_moves 2 e fd Rd_start s = Inr (Rd_convert (Block a), ?s3)"
    using start get c'(1) by (simp add: numeral_2_eq_2 read_move_def)
  moreover have "timer_task e' fd TIME_OUT ?s3 = Inr (False, ?s3)"
    using get c'(2) assms(6) by (simp add: timer_task_def pool_object_def)
  ultimately show ?thesis using start s2 move_dead by blast
qed

theorem read_of_closed_witness:
  "\<exists>s1 s2 s3. handle_event (env0 100 7 Peer_closed) (new_conn server0) server0 = Inr s1 \<and>
    read_move (env0 101 0 (Bytes ''GET'')) 7 Rd_start s1 = Inr (Rd_read (Block 0), s2) \<and>
    timer_task (env0 101 0 Peer_closed) 7 TIME_OUT s2 = Inr (True, s3) \<and>
    read_move (env0 101 0 (Bytes ''GET'')) 7 (Rd_read (Block 0)) s3 = Inl Bad_pointer"
proof -
  let ?e = "env0 101 0 (Bytes ''GET'')" and ?e' = "env0 101 0 Peer_closed"
  obtain s1 c where s1: "handle_event (env0 100 7 Peer_closed) (new_conn server0) server0 = Inr s1"
    "serves s1 7 0 0 c" "ci_last_active_time c = 100" "log_ready ?e s1" "log_ready ?e' s1" using server0_first by force
  have "int32 7" "ci_last_active_time c + TIME_OUT \<le> e_now ?e'" "e_now ?e' < e_now ?e + TIME_OUT"
    "0 + int (length ''GET'') \<le> RING_BUFFER_SIZE"
    using s1(3) by (simp_all add: int32_def TIME_OUT_def RING_BUFFER_SIZE_def)
  from read_of_closed[OF s1(2,4,5) this(1-3) env0_fields(3) _ this(4)] s1(1) show ?thesis by auto
qed

end
