(* ===== verification/ServerThreads.thy ===== *)
theory ServerThreads
  imports ServerInv WebRace
begin

text \<open>
  The two threads of the server together. The event loop handles an event in one step, except a read, which it does
  access by access (\<open>read_move\<close>), with the two critical sections of \<open>mod_timer\<close> after it; the timer thread collects the expired callbacks in one step and runs them one by one.
  Each step of \<open>ServerInv\<close> is a run of these (\<open>coarse_step_is_run\<close>), and the invariant of the server
  holds of the finer ones too.
\<close>

section \<open>A read keeps the invariant\<close>

lemma pool_ok_put: "pool_ok p \<Longrightarrow> pool_object p conn = Inr c \<Longrightarrow> conn_ok c' \<Longrightarrow> pool_ok (pool_update p conn c')"
  by (rule pool_ok_use)

lemma read_move_ok:
  assumes s: "server_ok s" and m: "read_move e fd pc s = Inr (pc', s')"
  shows "server_ok s'"
proof -
  have pool: "pool_ok (sv_pool s)" and kv: "\<exists>m. kv_rel (sv_kv s) m" using s by (simp_all add: server_ok_def)
  have obj: "conn_ok c" if "pool_object (sv_pool s) conn = Inr c" for conn c
    using pool_ok_object[OF pool that] by blast
  note put = server_ok_update(2)[OF s pool_ok_put[OF pool]]
  show ?thesis
  proof (cases pc)
    case Rd_start
    with m s show ?thesis by (auto simp: read_move_def bind_res_eq_Inr dest: server_ok_log split: if_splits)
  next
    case (Rd_read conn)
    with m obtain c ret pending c1 where c: "pool_object (sv_pool s) conn = Inr c"
      "conn_read (e_sock e) (e_now e) c = Inr (ret, pending, c1)" "s' = s\<lparr>sv_pool := pool_update (sv_pool s) conn c1\<rparr>"
      by (auto simp: read_move_def bind_res_eq_Inr)
    show ?thesis unfolding c(3) by (rule put[OF c(1) conn_ok_read[OF obj[OF c(1)] c(2)]])
  next
    case Rd_close
    with m s show ?thesis by (auto simp: read_move_def bind_res_eq_Inr dest: close_conn_ok server_ok_log)
  next
    case (Rd_convert conn)
    with m obtain c success c1 where c: "pool_object (sv_pool s) conn = Inr c"
      "convert_request registered_parsers c = Inr (success, c1)" "s' = s\<lparr>sv_pool := pool_update (sv_pool s) conn c1\<rparr>"
      by (auto simp: read_move_def bind_res_eq_Inr)
    show ?thesis unfolding c(3) by (rule put[OF c(1) conn_ok_convert[OF obj[OF c(1)] c(2)]])
  next
    case (Rd_route conn)
    with m s show ?thesis by (auto simp: read_move_def bind_res_eq_Inr split: option.splits)
  next
    case (Rd_handle conn h)
    with m obtain c sent c1 k where c: "pool_object (sv_pool s) conn = Inr c"
      "run_handler (e_order e) (e_stk e) h c (sv_kv s) = Inr (sent, c1, k)"
      "s' = s\<lparr>sv_kv := k, sv_pool := pool_update (sv_pool s) conn c1, sv_sent := sv_sent s @ sent\<rparr>"
      by (auto simp: read_move_def bind_res_eq_Inr)
    from kv handler_ok[OF obj[OF c(1)] _ c(2)] have "conn_ok c1" "\<exists>m. kv_rel k m" by blast+
    with server_ok_update(4)[OF put[OF c(1)]] show ?thesis unfolding c(3) by (simp add: server_ok_def listening_def)
  next
    case (Rd_stamp conn)
    with m obtain c where c: "pool_object (sv_pool s) conn = Inr c"
      "s' = s\<lparr>sv_pool := pool_update (sv_pool s) conn (c\<lparr>ci_last_active_time := e_now e\<rparr>)\<rparr>"
      by (auto simp: read_move_def bind_res_eq_Inr)
    have "conn_ok (c\<lparr>ci_last_active_time := e_now e\<rparr>)" using obj[OF c(1)] by (simp add: conn_ok_def)
    from put[OF c(1) this] show ?thesis by (simp only: c(2))
  next
    case (Rd_done r)
    with m s show ?thesis by (simp add: read_move_def)
  qed
qed

section \<open>The two threads\<close>

text \<open>The event loop waits, reads from a client, or renews the timer of one, with or without its new version.\<close>

datatype loop_pc =
    Waiting
  | Reading int read_pc
  | Bumped_timer int
  | With_version int int

record server_threads =
  th_server :: server
  th_loop :: loop_pc
  th_callbacks :: "task list"

definition at_rest :: "server \<Rightarrow> server_threads" where
  "at_rest s = \<lparr>th_server = s, th_loop = Waiting, th_callbacks = []\<rparr>"

text \<open>The branch of the event loop that reads from a client.\<close>

definition reads_client :: "server \<Rightarrow> event \<Rightarrow> bool" where
  "reads_client s ev =
     (ev_fd ev \<noteq> tcp_socket_fd (sv_tcp s) \<and> ev_events ev AND (EPOLLERR OR EPOLLHUP OR EPOLLRDHUP) = 0 \<and>
      ev_events ev AND EPOLLIN \<noteq> 0 \<and>
      (case sv_pipe_fd s of None \<Rightarrow> False | Some (pipe_read, pipe_write) \<Rightarrow> ev_fd ev \<noteq> pipe_read))"

text \<open>What the event loop does when the read is over.\<close>

definition renew_timer :: "env \<Rightarrow> int \<Rightarrow> server \<Rightarrow> server res" where
  "renew_timer e fd s =
     LOG_INFO (fd_msg ''mod_timer conn fd: '' fd []) e (snd (ws_mod_timer (e_now e) fd TIME_OUT s))"

text \<open>The same, from the second critical section on.\<close>

definition renew_push :: "env \<Rightarrow> int \<Rightarrow> int \<Rightarrow> server \<Rightarrow> server res" where
  "renew_push e fd new_version s =
     LOG_INFO (fd_msg ''mod_timer conn fd: '' fd []) e (snd (ws_add_timer (e_now e) fd TIME_OUT new_version s))"

lemma renew_timer_parts:
  assumes "mod_timer_read fd (mod_timer_bump fd (sv_clock s)) = (v, c)"
  shows "renew_timer e fd s = renew_push e fd v (s\<lparr>sv_clock := c\<rparr>)"
  using assms by (simp add: renew_timer_def renew_push_def ws_mod_timer_def ws_add_timer_def mod_timer_def case_prod_unfold Let_def)

datatype two_event =
    Two_signals "int list"
  | Two_wait int "event list"
  | Two_event env event
  | Two_begin event
  | Two_move env
  | Two_bump
  | Two_version
  | Two_push env
  | Two_collect int
  | Two_callback env

fun run_task :: "env \<Rightarrow> task \<Rightarrow> server \<Rightarrow> server res" where
  "run_task e (Timer_task fd timeout) s = bind_res (timer_task e fd timeout s) (\<lambda>(r, s'). Inr s')"
| "run_task e (Timer_log fd) s = Inr s"

text \<open>
  Any event may come next, also one that the loop would leave after a signal: the runs of the source are among
  these. The timer thread collects again only when it has run all callbacks.
\<close>

inductive two_step :: "server_threads \<Rightarrow> two_event \<Rightarrow> server_threads \<Rightarrow> bool" where
  two_signals: "deliver sigs (th_server t) = Inr s' \<Longrightarrow> two_step t (Two_signals sigs) (t\<lparr>th_server := s'\<rparr>)"
| two_wait: "th_loop t = Waiting \<Longrightarrow>
    two_step t (Two_wait ret ready)
      (t\<lparr>th_server := (th_server t)\<lparr>sv_epoll := snd (ep_wait ret ready (sv_epoll (th_server t)))\<rparr>\<rparr>)"
| two_event: "th_loop t = Waiting \<Longrightarrow> \<not> reads_client (th_server t) ev \<Longrightarrow> handle_event e ev (th_server t) = Inr s' \<Longrightarrow>
    two_step t (Two_event e ev) (t\<lparr>th_server := s'\<rparr>)"
| two_begin: "th_loop t = Waiting \<Longrightarrow> reads_client (th_server t) ev \<Longrightarrow>
    two_step t (Two_begin ev) (t\<lparr>th_loop := Reading (ev_fd ev) Rd_start\<rparr>)"
| two_move: "th_loop t = Reading fd pc \<Longrightarrow> \<forall>r. pc \<noteq> Rd_done r \<Longrightarrow> read_move e fd pc (th_server t) = Inr (pc', s') \<Longrightarrow>
    two_step t (Two_move e) (t\<lparr>th_server := s', th_loop := Reading fd pc'\<rparr>)"
| two_bump: "th_loop t = Reading fd (Rd_done r) \<Longrightarrow>
    two_step t Two_bump
      (t\<lparr>th_server := (th_server t)\<lparr>sv_clock := mod_timer_bump fd (sv_clock (th_server t))\<rparr>, th_loop := Bumped_timer fd\<rparr>)"
| two_version: "th_loop t = Bumped_timer fd \<Longrightarrow> mod_timer_read fd (sv_clock (th_server t)) = (v, c) \<Longrightarrow>
    two_step t Two_version (t\<lparr>th_server := (th_server t)\<lparr>sv_clock := c\<rparr>, th_loop := With_version fd v\<rparr>)"
| two_push: "th_loop t = With_version fd v \<Longrightarrow> renew_push e fd v (th_server t) = Inr s' \<Longrightarrow>
    two_step t (Two_push e) (t\<lparr>th_server := s', th_loop := Waiting\<rparr>)"
| two_collect: "th_callbacks t = [] \<Longrightarrow> handle_timer now (sv_clock (th_server t)) = (cbs, c) \<Longrightarrow>
    two_step t (Two_collect now) (t\<lparr>th_server := (th_server t)\<lparr>sv_clock := c\<rparr>, th_callbacks := cbs\<rparr>)"
| two_callback: "th_callbacks t = cb # cbs \<Longrightarrow> run_task e cb (th_server t) = Inr s' \<Longrightarrow>
    two_step t (Two_callback e) (t\<lparr>th_server := s', th_callbacks := cbs\<rparr>)"

inductive_cases two_stepE: "two_step t e u"

section \<open>The invariant\<close>

lemma renew_push_ok: "server_ok s \<Longrightarrow> renew_push e fd v s = Inr s' \<Longrightarrow> server_ok s'"
  unfolding renew_push_def using server_ok_log(1) server_ok_timers(1) by blast

lemma renew_parts_ok:
  assumes "server_ok s"
  shows "server_ok (s\<lparr>sv_clock := mod_timer_bump fd (sv_clock s)\<rparr>)"
    and "mod_timer_read fd (sv_clock s) = (v, c) \<Longrightarrow> server_ok (s\<lparr>sv_clock := c\<rparr>)"
  using server_ok_parts(4)[OF assms]
  by (auto simp: timers_ok_def mod_timer_bump_def mod_timer_read_def intro!: server_ok_update(3)[OF assms])

lemma run_task_ok: "server_ok s \<Longrightarrow> run_task e cb s = Inr s' \<Longrightarrow> server_ok s'"
  by (cases cb) (auto simp: bind_res_eq_Inr dest: timer_task_ok)

lemma collect_ok: "server_ok s \<Longrightarrow> handle_timer now (sv_clock s) = (cbs, c) \<Longrightarrow> server_ok (s\<lparr>sv_clock := c\<rparr>)"
  using server_ok_update(3)[OF _ timers_ok_handle[OF server_ok_parts(4)], of s s now] by simp

lemma two_step_ok:
  assumes "server_ok (th_server t)" and "two_step t e u"
  shows "server_ok (th_server u)"
  using assms(2)
proof cases
  case (two_signals sigs s')
  with deliver_ok[OF assms(1)] show ?thesis by simp
next
  case (two_wait ret ready)
  with server_ok_ctl(3)[OF assms(1)] show ?thesis by simp
next
  case (two_event ev e s')
  with handle_event_ok[OF assms(1)] show ?thesis by simp
next
  case (two_move fd pc e pc' s')
  with read_move_ok[OF assms(1)] show ?thesis by simp
next
  case (two_bump fd r)
  with renew_parts_ok(1)[OF assms(1)] show ?thesis by simp
next
  case (two_version fd v c)
  with renew_parts_ok(2)[OF assms(1)] show ?thesis by simp
next
  case (two_push fd v e s')
  with renew_push_ok[OF assms(1)] show ?thesis by simp
next
  case (two_collect now cbs c)
  with collect_ok[OF assms(1)] show ?thesis by simp
next
  case (two_callback cb cbs e s')
  with run_task_ok[OF assms(1)] show ?thesis by simp
qed (use assms(1) in simp)

interpretation two_life: inductive_invariant two_step "at_rest s0"
  "\<lambda>es t. server_ok s0 \<longrightarrow> server_ok (th_server t)" for s0
  by unfold_locales (auto simp: at_rest_def dest: two_step_ok)

section \<open>Every run of the coarser model is one of the finer\<close>

lemma handle_read:
  assumes "reads_client s ev" and "0 \<le> tcp_socket_fd (sv_tcp s)"
  shows "handle_event e ev s = bind_res (deal_Read e (ev_fd ev) s) (\<lambda>(r, s1). renew_timer e (ev_fd ev) s1)"
  using assms by (auto simp: handle_event_def reads_client_def renew_timer_def split: option.splits)

lemma moves_are_run:
  "read_moves n e fd pc s = Inr (Rd_done r, s') \<Longrightarrow>
   \<exists>es. run two_step \<lparr>th_server = s, th_loop = Reading fd pc, th_callbacks = cbs\<rparr> es
     \<lparr>th_server = s', th_loop = Reading fd (Rd_done r), th_callbacks = cbs\<rparr>"
proof (induction n arbitrary: pc s)
  case 0
  then show ?case using run_start[of two_step] by auto
next
  case (Suc n)
  show ?case
  proof (cases "\<exists>q. pc = Rd_done q")
    case True
    then have "pc = Rd_done r" "s = s'" using Suc.prems moves_done[of "Suc n" e fd] by (auto simp del: read_moves.simps)
    then show ?thesis by (auto intro: run_start exI[of _ "[]"])
  next
    case False
    obtain pc1 s1 where m: "read_move e fd pc s = Inr (pc1, s1)" "read_moves n e fd pc1 s1 = Inr (Rd_done r, s')"
      using Suc.prems by (auto simp: bind_res_eq_Inr)
    from Suc.IH[OF m(2)] obtain es where
      es: "run two_step \<lparr>th_server = s1, th_loop = Reading fd pc1, th_callbacks = cbs\<rparr> es
        \<lparr>th_server = s', th_loop = Reading fd (Rd_done r), th_callbacks = cbs\<rparr>" by blast
    let ?t = "\<lparr>th_server = s, th_loop = Reading fd pc, th_callbacks = cbs\<rparr>"
    have "two_step ?t (Two_move e) \<lparr>th_server = s1, th_loop = Reading fd pc1, th_callbacks = cbs\<rparr>"
      using two_move[of ?t fd pc e pc1 s1] False m(1) by simp
    from run_Cons[where step = two_step, OF this es] show ?thesis by blast
  qed
qed

lemma renewal_is_run:
  assumes "renew_timer e fd s = Inr s'"
  shows "\<exists>es. run two_step \<lparr>th_server = s, th_loop = Reading fd (Rd_done r), th_callbacks = []\<rparr> es (at_rest s')"
proof -
  let ?b = "mod_timer_bump fd (sv_clock s)"
  obtain v c where v: "mod_timer_read fd ?b = (v, c)" by force
  let ?t0 = "\<lparr>th_server = s, th_loop = Reading fd (Rd_done r), th_callbacks = []\<rparr>"
  let ?t1 = "\<lparr>th_server = s\<lparr>sv_clock := ?b\<rparr>, th_loop = Bumped_timer fd, th_callbacks = []\<rparr>"
  let ?t2 = "\<lparr>th_server = s\<lparr>sv_clock := c\<rparr>, th_loop = With_version fd v, th_callbacks = []\<rparr>"
  have a: "two_step ?t0 Two_bump ?t1" using two_bump[of ?t0 fd r] by simp
  have b: "two_step ?t1 Two_version ?t2" using two_version[of ?t1 fd v c] v by simp
  have "two_step ?t2 (Two_push e) (at_rest s')"
    using two_push[of ?t2 fd v e s'] assms renew_timer_parts[OF v] by (simp add: at_rest_def)
  from run_Cons[where step = two_step, OF a run_Cons[where step = two_step, OF b run_one[where step = two_step, OF this]]]
  show ?thesis by blast
qed

lemma callbacks_are_run:
  "run_callbacks e cbs s = Inr s' \<Longrightarrow>
   \<exists>es. run two_step \<lparr>th_server = s, th_loop = Waiting, th_callbacks = cbs\<rparr> es (at_rest s')"
proof (induction cbs arbitrary: s)
  case Nil
  then show ?case using run_start[of two_step] by (auto simp: at_rest_def)
next
  case (Cons cb cbs)
  let ?t = "\<lparr>th_server = s, th_loop = Waiting, th_callbacks = cb # cbs\<rparr>"
  obtain s1 where s1: "run_task e cb s = Inr s1" "run_callbacks e cbs s1 = Inr s'"
    using Cons.prems by (cases cb) (auto simp: bind_res_eq_Inr)
  from Cons.IH[OF s1(2)] obtain es where
    es: "run two_step \<lparr>th_server = s1, th_loop = Waiting, th_callbacks = cbs\<rparr> es (at_rest s')" by blast
  have "two_step ?t (Two_callback e) \<lparr>th_server = s1, th_loop = Waiting, th_callbacks = cbs\<rparr>"
    using two_callback[of ?t cb cbs e s1] s1(1) by simp
  from run_Cons[where step = two_step, OF this es] show ?case by blast
qed

lemma coarse_step_is_run:
  assumes "server_step s ev s'" and "0 \<le> tcp_socket_fd (sv_tcp s)"
  shows "\<exists>es. run two_step (at_rest s) es (at_rest s')"
  using assms(1)
proof cases
  case (step_signals sigs)
  then have "two_step (at_rest s) (Two_signals sigs) (at_rest s')"
    using two_signals[of sigs "at_rest s" s'] by (simp add: at_rest_def)
  then show ?thesis using run_one[where step = two_step] by blast
next
  case (step_wait ret ready)
  then have "two_step (at_rest s) (Two_wait ret ready) (at_rest s')"
    using two_wait[of "at_rest s" ret ready] by (simp add: at_rest_def)
  then show ?thesis using run_one[where step = two_step] by blast
next
  case (step_event e x)
  show ?thesis
  proof (cases "reads_client s x")
    case False
    then have "two_step (at_rest s) (Two_event e x) (at_rest s')"
      using two_event[of "at_rest s" x e s'] step_event by (simp add: at_rest_def)
    then show ?thesis using run_one[where step = two_step] by blast
  next
    case True
    let ?fd = "ev_fd x"
    from step_event(2) obtain r s1 where s1: "deal_Read e ?fd s = Inr (r, s1)" "renew_timer e ?fd s1 = Inr s'"
      unfolding handle_read[OF True assms(2)] by (auto simp: bind_res_eq_Inr)
    then have "read_moves 6 e ?fd Rd_start s = Inr (Rd_done r, s1)" by (simp only: moves_are_deal_Read bind_res_Inr prod.case)
    from moves_are_run[OF this, of "[]"] obtain es where
      es: "run two_step \<lparr>th_server = s, th_loop = Reading ?fd Rd_start, th_callbacks = []\<rparr> es
        \<lparr>th_server = s1, th_loop = Reading ?fd (Rd_done r), th_callbacks = []\<rparr>" by blast
    have b: "two_step (at_rest s) (Two_begin x) \<lparr>th_server = s, th_loop = Reading ?fd Rd_start, th_callbacks = []\<rparr>"
      using two_begin[of "at_rest s" x] True by (simp add: at_rest_def)
    have "\<exists>es2. run two_step \<lparr>th_server = s1, th_loop = Reading ?fd (Rd_done r), th_callbacks = []\<rparr> es2 (at_rest s')"
      by (rule renewal_is_run[OF s1(2)])
    then obtain es2 where
      "run two_step \<lparr>th_server = s1, th_loop = Reading ?fd (Rd_done r), th_callbacks = []\<rparr> es2 (at_rest s')" by blast
    from run_trans[OF this run_Cons[where step = two_step, OF b es]] show ?thesis by blast
  qed
next
  case (step_fire e)
  obtain cbs c where h: "handle_timer (e_now e) (sv_clock s) = (cbs, c)" by force
  with step_fire(2) have "run_callbacks e cbs (s\<lparr>sv_clock := c\<rparr>) = Inr s'" by (simp add: fire_timers_def)
  from callbacks_are_run[OF this] obtain es where
    es: "run two_step \<lparr>th_server = s\<lparr>sv_clock := c\<rparr>, th_loop = Waiting, th_callbacks = cbs\<rparr> es (at_rest s')" by blast
  have "two_step (at_rest s) (Two_collect (e_now e)) \<lparr>th_server = s\<lparr>sv_clock := c\<rparr>, th_loop = Waiting, th_callbacks = cbs\<rparr>"
    using two_collect[of "at_rest s" "e_now e" cbs c] h by (simp add: at_rest_def)
  from run_Cons[where step = two_step, OF this es] show ?thesis by blast
qed

lemma coarse_run_is_run:
  "run server_step s es s' \<Longrightarrow> server_ok s \<Longrightarrow> \<exists>es'. run two_step (at_rest s) es' (at_rest s')"
proof (induction rule: run.induct)
  case run_start
  show ?case by (auto intro: run.run_start)
next
  case (run_event es t e u)
  then have "server_ok t" using server_life.run_I[OF run_event.hyps(1)] by blast
  then have "0 \<le> tcp_socket_fd (sv_tcp t)" by (simp add: server_ok_def listening_def)
  from coarse_step_is_run[OF run_event.hyps(2) this] run_event.IH run_event.prems show ?case
    using run_trans[where step = two_step] by blast
qed

section \<open>Properties\<close>

text \<open>Whatever clients, signals, the kernel and the two threads do, and in whatever order: as long as nothing
  faults, at every access of a read, between the critical sections of \<open>mod_timer\<close> and between any two callbacks a
  server that came up keeps the size of its event array, objects that are apart, inside the pool's memory and with
  valid buffer indices, a map that only names blocks of the pool, a timer queue in order whose callbacks are for
  their own descriptors, and a well-formed table. The runs in which events and rounds of callbacks are not
  interrupted are among these.\<close>

theorem threads_keep_invariant:
  assumes "clean_start a" and "Webserver_new a db = Inr s0" and "run two_step (at_rest s0) es t"
  shows "server_ok (th_server t) \<and>
    (\<forall>es1 s1. run server_step s0 es1 s1 \<longrightarrow> (\<exists>es2. run two_step (at_rest s0) es2 (at_rest s1)))"
proof -
  have s0: "server_ok s0" by (rule Webserver_new_ok_inv[OF assms(1,2)])
  then show ?thesis using two_life.run_I[OF assms(3)] coarse_run_is_run[OF _ s0] by blast
qed

text \<open>The callback of a connection is collected while the event loop reads from it.\<close>

theorem threads_keep_invariant_witness:
  "\<exists>es t. run two_step (at_rest server0) es t \<and> th_loop t = Reading 7 (Rd_read (Block 0)) \<and>
    th_callbacks t = [Timer_task 7 TIME_OUT] \<and> server_ok (th_server t)"
proof -
  let ?new = "env0 100 7 Peer_closed" and ?e = "env0 101 0 (Bytes ''GET'')"
  have start: "clean_start start0" by (auto simp: clean_start_def start0_def zeroed_def)
  obtain s1 c where s1: "handle_event ?new (new_conn server0) server0 = Inr s1" "serves s1 7 0 0 c" "listening s1" "client_fd s1 7"
    "log_ready ?e s1" "timer_map (sv_clock s1) 7 = Some 1"
    "timer_queue (sv_clock s1) = [\<lparr>tm_id = 7, tm_expire_time = 101, tm_callback = Some (Timer_task 7 TIME_OUT), tm_version = 1\<rparr>]"
    using server0_first by blast
  let ?m = "fd_msg ''deal_Read conn fd: '' 7 []" let ?s2 = "logged 1 ?m ?e s1"
  let ?k = "snd (handle_timer 101 (sv_clock s1))"
  let ?t1 = "\<lparr>th_server = s1, th_loop = Reading 7 Rd_start, th_callbacks = []\<rparr>"
  let ?t2 = "\<lparr>th_server = ?s2, th_loop = Reading 7 (Rd_read (Block 0)), th_callbacks = []\<rparr>"
  let ?t3 = "\<lparr>th_server = ?s2\<lparr>sv_clock := ?k\<rparr>, th_loop = Reading 7 (Rd_read (Block 0)), th_callbacks = [Timer_task 7 TIME_OUT]\<rparr>"
  have "\<not> reads_client server0 (new_conn server0)" by (simp add: reads_client_def)
  then have a: "two_step (at_rest server0) (Two_event ?new (new_conn server0)) (at_rest s1)"
    using two_event[of "at_rest server0" "new_conn server0" ?new s1] s1(1) by (simp add: at_rest_def)
  have "reads_client s1 (readable 7)" using s1(3,4) by (auto simp: reads_client_def listening_def client_fd_def)
  then have b: "two_step (at_rest s1) (Two_begin (readable 7)) ?t1" using two_begin[of "at_rest s1" "readable 7"] by (simp add: at_rest_def)
  have "int32 7" by (simp add: int32_def)
  then have "read_move ?e 7 Rd_start s1 = Inr (Rd_read (Block 0), ?s2)" using s1(2,5) by (simp add: read_move_def serves_def)
  then have m: "two_step ?t1 (Two_move ?e) ?t2" using two_move[of ?t1 7 Rd_start ?e] by simp
  have "handle_timer 101 (sv_clock s1) = ([Timer_task 7 TIME_OUT], ?k)" using s1(6,7) by (simp add: handle_timer_def)
  then have h: "two_step ?t2 (Two_collect 101) ?t3" using two_collect[of ?t2 101 "[Timer_task 7 TIME_OUT]" ?k] by simp
  have r: "run two_step (at_rest server0) [Two_event ?new (new_conn server0), Two_begin (readable 7), Two_move ?e, Two_collect 101] ?t3"
    by (rule run_Cons[where step = two_step, OF a], rule run_Cons[where step = two_step, OF b],
        rule run_Cons[where step = two_step, OF m], rule run_one[where step = two_step, OF h])
  have ok: "server_ok (th_server ?t3)" using threads_keep_invariant[OF start server0_new r] by blast
  have "th_loop ?t3 = Reading 7 (Rd_read (Block 0))" "th_callbacks ?t3 = [Timer_task 7 TIME_OUT]" by simp_all
  with r ok show ?thesis by blast
qed

end
