(* ===== verification/ServerFaults.thy ===== *)
theory ServerFaults
  imports ServerThreads
begin

text \<open>
  What can go wrong in a running server. \<open>server_ok\<close> says what holds when a step returns; here are the only
  faults with which it may not: a calculus of the faults of an operation (\<open>faults_in\<close>) follows the handlers of
  \<open>Webserver.cpp\<close>, access by access, down to the pool, the parser and the engine.
\<close>

section \<open>The faults of an operation\<close>

definition faults_in :: "fault set \<Rightarrow> 'a res \<Rightarrow> bool" where
  "faults_in F m = (\<forall>f. m = Inl f \<longrightarrow> f \<in> F)"

lemma faults_simps [simp]: "faults_in F (Inr x)" "faults_in F (Inl f) \<longleftrightarrow> f \<in> F"
  by (simp_all add: faults_in_def)

lemma faults_bind:
  "faults_in F m \<Longrightarrow> (\<And>x. m = Inr x \<Longrightarrow> faults_in F (g x)) \<Longrightarrow> faults_in F (bind_res m g)"
  by (cases m) simp_all

lemma faults_mono: "faults_in F m \<Longrightarrow> F \<subseteq> G \<Longrightarrow> faults_in G m"
  by (auto simp: faults_in_def)

lemma faults_returns: "m = Inr x \<Longrightarrow> faults_in F m"
  by simp

section \<open>The pool\<close>

lemma pool_faults:
  "faults_in {Bad_pointer} (pool_get fd p)" "faults_in {Bad_pointer} (pool_object p x)"
  "faults_in {Bad_pointer} (Release x p)" "faults_in {Bad_pointer} (add_map fd x peer now p)"
  "faults_in {Bad_pointer, Overflow_write} (acquire p)"
proof -
  show o: "faults_in {Bad_pointer} (pool_object p x)" for x p
    by (simp add: pool_object_def split: paddr.splits option.splits)
  show "faults_in {Bad_pointer} (pool_get fd p)" by (simp add: pool_get_def split: option.splits)
  show "faults_in {Bad_pointer} (Release x p)"
    unfolding Release_def by (rule faults_bind[OF o]) (simp split: paddr.splits)
  show "faults_in {Bad_pointer} (add_map fd x peer now p)"
    unfolding add_map_def by (rule faults_bind[OF o]) (simp add: Let_def)
  show "faults_in {Bad_pointer, Overflow_write} (acquire p)"
    by (auto simp: acquire_def construct_def intro!: faults_bind split: paddr.splits)
qed

section \<open>Reading, parsing and handling\<close>

lemma read_returns:
  assumes "conn_ok c"
  shows "returns (conn_read inp now c)"
proof (cases inp)
  case (Bytes avail)
  let ?b = "ci_read_buffer c"
  have b: "rb_ok ?b" using assms by (simp add: conn_ok_def)
  then have "0 \<le> not_useSize ?b" using not_useSize_bounds[of ?b] by auto
  moreover have "nat (not_useSize ?b) \<le> length (get_buffer ?b)"
    using not_useSize_length[OF b] by (simp add: get_buffer_def)
  ultimately show ?thesis by (simp add: conn_read_def Bytes Let_def)
qed (simp_all add: conn_read_def)

lemma faults_of_returns: "returns m \<Longrightarrow> faults_in F m"
  by (auto simp: returns_iff)

lemma stoul_faults: "faults_in {Throws Invalid_argument, Throws Out_of_range} (c_stoul s)"
  by (simp add: c_stoul_def Let_def)

lemma parser_faults:
  assumes "n \<le> length b"
  shows "returns (get_parser reg b n)" and "returns (parser_handle p b n)"
    and "faults_in {Throws Invalid_argument, Throws Out_of_range} (parser_parse p b n)"
proof -
  have "min n max_signature_length \<le> length b" using assms by simp
  then show "returns (get_parser reg b n)" using match_prefix_spec by (fastforce simp: get_parser_def returns_iff)
  show "returns (parser_handle p b n)" by (rule parsers.handle_returns[OF assms])
  show "faults_in {Throws Invalid_argument, Throws Out_of_range} (parser_parse p b n)"
    using assms stoul_faults
    by (cases p) (auto simp: HttpParser_parse_def is_complete_message_def intro!: faults_bind split: option.splits)
qed

lemma convert_faults:
  assumes "conn_ok c"
  shows "faults_in {Throws Invalid_argument, Throws Out_of_range} (convert_request reg c)"
proof -
  let ?b = "get_buffer (ci_read_buffer c)" and ?n = "nat (not_useSize (ci_read_buffer c))"
  have n: "?n \<le> length ?b" using not_useSize_length assms by (simp add: conn_ok_def get_buffer_def)
  note f = parser_faults[OF n]
  show ?thesis
    unfolding convert_request_def Let_def
    by (rule faults_bind[OF faults_of_returns[OF f(1)]])
      (auto split: option.splits intro!: faults_bind[OF f(3)] faults_bind[OF faults_of_returns[OF f(2)]])
qed

text \<open>A request of a client can make the engine read a wild or missing token, or overflow its token array.\<close>

definition handler_fault :: "fault set" where
  "handler_fault = {Bad_pointer, Out_of_bounds, Overflow_write, Assert_failed}"

lemma handler_faults:
  assumes "kv_rel kv m"
  shows "faults_in handler_fault (run_handler order stk h c kv)"
proof (cases h)
  case Http_task_get1
  then show ?thesis by (simp add: http_task_get1_def)
next
  case Http_task_get2
  have at: "faults_in handler_fault (c_str_at bs d)" "faults_in handler_fault (store_at bs d new)" for bs d new
    by (simp_all add: c_str_at_def store_at_def handler_fault_def)
  have req: "faults_in handler_fault (kvstore_request (Str msg) (Some w) stk kv)" for msg w
    using any_request_outcome[OF assms, of "Str msg" "Some w" stk]
    by (cases "kvstore_request (Str msg) (Some w) stk kv") (auto simp: any_request_def request_fault_def handler_fault_def)
  have bad: "Bad_pointer \<in> handler_fault" by (simp add: handler_fault_def)
  show ?thesis
    unfolding Http_task_get2 run_handler.simps http_task_get2_def Let_def
    by (intro faults_bind at) (auto split: option.splits intro!: faults_bind at req simp: bad)
qed

section \<open>The handlers of the server\<close>

lemma log_ready_ok: "server_ok s \<Longrightarrow> log_ready e s \<longleftrightarrow> (\<forall>level. length (stamp_text level (e_time e)) \<le> 100)"
  by (simp add: server_ok_def log_ready_def)

text \<open>A log message of a server with a log of the right size never faults.\<close>

lemma log_faults:
  assumes "max_log_buffer_size (sv_log s) = LOG_BUFFER_SIZE" and "\<forall>level. length (stamp_text level (e_time e)) \<le> 100"
    and "length msg \<le> 100"
  shows "faults_in F (LOG_INFO msg e s)" and "faults_in F (LOG_ERROR msg e s)"
proof -
  have "log_ready e s" using assms(1,2) by (simp add: log_ready_def)
  from LOG_ok[OF this assms(3)] show "faults_in F (LOG_INFO msg e s)" "faults_in F (LOG_ERROR msg e s)" by simp_all
qed

lemma close_conn_faults:
  assumes "server_ok s" and "log_ready e s" and "int32 fd"
  shows "faults_in {Bad_pointer} (close_conn e fd s)"
proof -
  have cap: "max_log_buffer_size (sv_log s) = LOG_BUFFER_SIZE" using assms(1) by (simp add: server_ok_def)
  have t: "\<forall>level. length (stamp_text level (e_time e)) \<le> 100" using assms(2) by (simp add: log_ready_def)
  have del: "sv_log (snd (ws_del_timer fd x)) = sv_log x" for x
    by (simp add: ws_del_timer_def case_prod_unfold Let_def)
  show ?thesis
    unfolding close_conn_def Let_def
    by (rule faults_bind[OF pool_faults(1)])
      (auto intro!: faults_bind pool_faults(3) log_faults t simp: cap del assms(3) split: prod.splits)
qed

lemma deal_NewConn_faults: "server_ok s \<Longrightarrow> faults_in {Bad_pointer, Overflow_write} (deal_NewConn e s)"
  unfolding deal_NewConn_def Accept_tcp_def Let_def
  by (auto simp: server_ok_def listening_def intro!: faults_bind faults_mono[OF pool_faults(5)] faults_mono[OF pool_faults(4)])

definition read_fault :: "fault set" where
  "read_fault = handler_fault \<union> {Throws Invalid_argument, Throws Out_of_range}"

text \<open>A log message after a step that has kept the invariant.\<close>

lemma log_faults_ok:
  assumes "server_ok s" and "log_times_ok e" and "length msg \<le> 100"
  shows "faults_in F (LOG_INFO msg e s)" and "faults_in F (LOG_ERROR msg e s)"
  using log_faults[of s e msg] assms by (simp_all add: server_ok_def log_times_ok_def)

lemma read_move_faults:
  assumes s: "server_ok s" and e: "log_times_ok e" and fd: "int32 fd"
  shows "faults_in read_fault (read_move e fd pc s)"
proof -
  have sub: "{Bad_pointer} \<subseteq> read_fault" "{Throws Invalid_argument, Throws Out_of_range} \<subseteq> read_fault"
    "handler_fault \<subseteq> read_fault" and bad: "Bad_pointer \<in> read_fault"
    by (auto simp: read_fault_def handler_fault_def)
  have rdy: "log_ready e s" using s e by (simp add: server_ok_def log_ready_split)
  note get = faults_mono[OF pool_faults(1) sub(1)] and obj = faults_mono[OF pool_faults(2) sub(1)]
  have alive: "conn_ok c" if "pool_object (sv_pool s) conn = Inr c" for conn c
    using pool_ok_object[OF server_ok_parts(3)[OF s] that] by blast
  obtain m where kv: "kv_rel (sv_kv s) m" using s by (auto simp: server_ok_def)
  show ?thesis
  proof (cases pc)
    case Rd_start
    then show ?thesis
      by (auto simp: read_move_def fd split: if_splits intro!: faults_bind get log_faults_ok[OF s e])
  next
    case (Rd_read conn)
    then show ?thesis
      by (auto simp: read_move_def intro!: faults_bind obj faults_of_returns[OF read_returns] dest: alive)
  next
    case Rd_close
    have close: "faults_in read_fault (close_conn e fd s)" by (rule faults_mono[OF close_conn_faults[OF s rdy fd] sub(1)])
    from Rd_close show ?thesis
      by (auto simp: read_move_def fd intro!: faults_bind close log_faults_ok[OF _ e] dest: close_conn_ok[OF s])
  next
    case (Rd_convert conn)
    then show ?thesis
      by (auto simp: read_move_def intro!: faults_bind obj faults_mono[OF convert_faults sub(2)] dest: alive)
  next
    case (Rd_route conn)
    then show ?thesis by (auto simp: read_move_def bad intro!: faults_bind obj split: option.splits)
  next
    case (Rd_handle conn h)
    then show ?thesis by (auto simp: read_move_def intro!: faults_bind obj faults_mono[OF handler_faults[OF kv] sub(3)])
  next
    case (Rd_stamp conn)
    then show ?thesis by (auto simp: read_move_def intro!: faults_bind obj)
  qed (simp add: read_move_def)
qed

text \<open>So a whole read has no other faults.\<close>

lemma moves_faults:
  "server_ok s \<Longrightarrow> log_times_ok e \<Longrightarrow> int32 fd \<Longrightarrow> faults_in read_fault (read_moves n e fd pc s)"
  by (induction n arbitrary: pc s) (auto intro!: faults_bind read_move_faults dest: read_move_ok)

lemma deal_Read_faults:
  assumes "server_ok s" and "log_times_ok e" and "int32 fd"
  shows "faults_in read_fault (deal_Read e fd s)"
  using moves_faults[OF assms, of 6 Rd_start] unfolding moves_are_deal_Read by (cases "deal_Read e fd s") auto

lemma timer_task_faults:
  assumes s: "server_ok s" and e: "log_times_ok e" and fd: "int32 fd"
  shows "faults_in {Bad_pointer} (timer_task e fd timeout s)"
proof -
  have close: "faults_in {Bad_pointer} (close_conn e fd s1)" if "server_ok s1" for s1
    by (rule close_conn_faults[OF that _ fd]) (use that e in \<open>simp add: server_ok_def log_ready_split\<close>)
  have closed: "faults_in {Bad_pointer} (close_conn e fd s1)" if "LOG_ERROR msg e s = Inr s1" for msg s1
    using close[OF server_ok_log(2)] s that by blast
  show ?thesis
    unfolding timer_task_def
    by (auto intro!: faults_bind pool_faults(1,2) log_faults_ok[OF s e] close[OF s] simp: fd elim!: closed)
qed

lemma renew_push_faults:
  "server_ok s \<Longrightarrow> log_times_ok e \<Longrightarrow> int32 fd \<Longrightarrow> faults_in F (renew_push e fd v s)"
  unfolding renew_push_def by (rule log_faults_ok(1)) (simp_all add: server_ok_timers(1))

section \<open>Events\<close>

text \<open>The faults an event can have, by the branch of the event loop that handles it.\<close>

definition event_faults :: "server \<Rightarrow> event \<Rightarrow> fault set" where
  "event_faults s ev =
     (if ev_fd ev = tcp_socket_fd (sv_tcp s) then {Bad_pointer, Overflow_write}
      else if ev_events ev AND (EPOLLERR OR EPOLLHUP OR EPOLLRDHUP) \<noteq> 0 then {Bad_pointer}
      else if reads_client s ev then read_fault
      else if ev_events ev AND EPOLLIN \<noteq> 0 then {Blocks}
      else {})"

lemma deal_NewConn_fd: "deal_NewConn e s = Inr (fd, s') \<Longrightarrow> fd = 0 \<or> fd = e_accept e"
  by (auto simp: deal_NewConn_def Accept_tcp_def bind_res_eq_Inr Let_def split: if_splits)

lemma event_outcome:
  assumes s: "server_ok s" and e: "log_times_ok e" and fd: "int32 (ev_fd ev)" "int32 (e_accept e)"
  shows "faults_in (event_faults s ev) (handle_event e ev s)"
proof -
  have rdy: "log_ready e s" using s e by (simp add: server_ok_def log_ready_split)
  have lis: "get_listen_fd (sv_tcp s) = Inr (tcp_socket_fd (sv_tcp s))" "0 \<le> tcp_socket_fd (sv_tcp s)"
    using s by (simp_all add: server_ok_def listening_def)
  obtain pr pw where pipe: "sv_pipe_fd s = Some (pr, pw)" using s by (auto simp: server_ok_def listening_def)
  have zero: "int32 0" by (simp add: int32_def)
  consider (new) "ev_fd ev = tcp_socket_fd (sv_tcp s)"
    | (hup) "ev_fd ev \<noteq> tcp_socket_fd (sv_tcp s)" "ev_events ev AND (EPOLLERR OR EPOLLHUP OR EPOLLRDHUP) \<noteq> 0"
    | (read) "ev_fd ev \<noteq> tcp_socket_fd (sv_tcp s)" "ev_events ev AND (EPOLLERR OR EPOLLHUP OR EPOLLRDHUP) = 0" "reads_client s ev"
    | (sig) "ev_fd ev \<noteq> tcp_socket_fd (sv_tcp s)" "ev_events ev AND (EPOLLERR OR EPOLLHUP OR EPOLLRDHUP) = 0"
        "ev_fd ev = pr" "ev_events ev AND EPOLLIN \<noteq> 0" "\<not> reads_client s ev"
    | (none) "ev_fd ev \<noteq> tcp_socket_fd (sv_tcp s)" "ev_events ev AND (EPOLLERR OR EPOLLHUP OR EPOLLRDHUP) = 0"
        "ev_events ev AND EPOLLIN = 0" "\<not> reads_client s ev"
    using pipe by (auto simp: reads_client_def)
  then show ?thesis
  proof cases
    case new
    have log: "faults_in F (LOG_INFO (fd_msg ''add_timer conn fd: '' x []) e (snd (ws_add_timer (e_now e) x TIME_OUT 1 s1)))"
      if "deal_NewConn e s = Inr (x, s1)" for F x s1
      using log_faults_ok(1)[OF server_ok_timers(1)[OF deal_NewConn_ok[OF s that]] e] deal_NewConn_fd[OF that] fd(2) zero by auto
    from new show ?thesis
      by (auto simp: handle_event_def lis(1) event_faults_def intro!: faults_bind deal_NewConn_faults[OF s] log)
  next
    case hup
    have log: "faults_in F (LOG_ERROR (fd_msg ''close conn fd: '' (ev_fd ev) []) e s1)"
      if "close_conn e (ev_fd ev) s = Inr (r, s1)" for F r s1
      using log_faults_ok(2)[OF close_conn_ok[OF s that] e] fd(1) by simp
    from hup show ?thesis
      by (auto simp: handle_event_def lis(1) event_faults_def intro!: faults_bind close_conn_faults[OF s rdy fd(1)] log)
  next
    case read
    have log: "faults_in F (renew_timer e (ev_fd ev) s1)" if "deal_Read e (ev_fd ev) s = Inr (r, s1)" for F r s1
      unfolding renew_timer_def
      using log_faults_ok(1)[OF server_ok_timers(2)[OF deal_Read_ok[OF s that]] e] fd(1) by simp
    from read show ?thesis
      by (auto simp: handle_read[OF read(3) lis(2)] event_faults_def intro!: faults_bind deal_Read_faults[OF s e fd(1)] log)
  next
    case sig
    have log: "faults_in F (LOG_ERROR ''del_signal failed'' e s1)" if "del_signal e s = Inr (r, s1)" for F r s1
      using log_faults_ok(2)[OF del_signal_ok[OF s that] e, of "''del_signal failed''"] by simp
    have "faults_in {Blocks} (del_signal e s)" by (simp add: del_signal_def)
    with sig show ?thesis
      by (auto simp: handle_event_def lis(1) pipe event_faults_def intro!: faults_bind log)
  next
    case none
    then show ?thesis by (simp add: handle_event_def lis(1) pipe event_faults_def)
  qed
qed

section \<open>Properties\<close>

text \<open>How a running server can fail. Whatever its two threads have done so far, the next event, the next
  access of a read, the renewal of its timer and the next callback either return or fault in one of the ways listed
  for it, the renewal in none: a new connection by a broken free list or a block at the end of the pool, a hang-up
  and a callback by a dead connection, a read also by its request or a length field that is no number, the pipe by
  waiting for a signal. No loop runs for ever, no block is freed twice, nothing is read before it is written, and
  no system call throws.\<close>

theorem server_faults:
  assumes "clean_start a" and "Webserver_new a db = Inr s0" and "run two_step (at_rest s0) es t"
    and "log_times_ok e" and "int32 fd" and "int32 (e_accept e)"
  shows "faults_in (event_faults (th_server t) \<lparr>ev_fd = fd, ev_events = events\<rparr>)
      (handle_event e \<lparr>ev_fd = fd, ev_events = events\<rparr> (th_server t)) \<and>
    faults_in {Bad_pointer, Out_of_bounds, Overflow_write, Assert_failed, Throws Invalid_argument, Throws Out_of_range}
      (read_move e fd pc (th_server t)) \<and>
    faults_in {} (renew_push e fd v (th_server t)) \<and>
    faults_in {Bad_pointer} (timer_task e fd timeout (th_server t))"
proof -
  have s: "server_ok (th_server t)" using two_life.run_I[OF assms(3)] Webserver_new_ok_inv[OF assms(1,2)] by blast
  have eq: "read_fault = {Bad_pointer, Out_of_bounds, Overflow_write, Assert_failed, Throws Invalid_argument, Throws Out_of_range}"
    by (auto simp: read_fault_def handler_fault_def)
  from event_outcome[OF s assms(4), of "\<lparr>ev_fd = fd, ev_events = events\<rparr>"] read_move_faults[OF s assms(4,5), of pc]
    renew_push_faults[OF s assms(4,5)] timer_task_faults[OF s assms(4,5)] assms(5,6) show ?thesis by (simp add: eq)
qed

text \<open>A read of the first connection is about to convert the request, and its callback is about to run.\<close>

theorem server_faults_witness:
  "\<exists>s1. run two_step (at_rest server0) [Two_event (env0 100 7 Peer_closed) (new_conn server0)] (at_rest s1) \<and>
    faults_in {Bad_pointer} (timer_task (env0 101 0 Peer_closed) 7 TIME_OUT s1) \<and>
    faults_in {Bad_pointer, Out_of_bounds, Overflow_write, Assert_failed, Throws Invalid_argument, Throws Out_of_range}
      (read_move (env0 101 0 (Bytes ''GET'')) 7 (Rd_convert (Block 0)) s1)"
proof -
  let ?new = "env0 100 7 Peer_closed"
  have start: "clean_start start0" by (auto simp: clean_start_def start0_def zeroed_def)
  obtain s1 where s1: "handle_event ?new (new_conn server0) server0 = Inr s1" using server0_first by blast
  have "\<not> reads_client server0 (new_conn server0)" by (simp add: reads_client_def)
  then have "two_step (at_rest server0) (Two_event ?new (new_conn server0)) (at_rest s1)"
    using two_event[of "at_rest server0" "new_conn server0" ?new s1] s1 by (simp add: at_rest_def)
  then have r: "run two_step (at_rest server0) [Two_event ?new (new_conn server0)] (at_rest s1)"
    by (rule run_one[where step = two_step])
  have e: "log_times_ok (env0 101 0 i)" for i
    using june3_stamp[THEN less_imp_le, THEN order_trans, of 100] by (simp add: log_times_ok_def env0_def)
  have fd: "int32 7" "int32 (e_accept (env0 101 0 i))" for i by (simp_all add: int32_def env0_def)
  have "faults_in {Bad_pointer} (timer_task (env0 101 0 Peer_closed) 7 TIME_OUT s1)"
    using server_faults[OF start server0_new r e[of Peer_closed] fd(1) fd(2)] by (simp add: at_rest_def)
  moreover have "faults_in {Bad_pointer, Out_of_bounds, Overflow_write, Assert_failed, Throws Invalid_argument, Throws Out_of_range}
      (read_move (env0 101 0 (Bytes ''GET'')) 7 (Rd_convert (Block 0)) s1)"
    using server_faults[OF start server0_new r e[of "Bytes ''GET''"] fd(1) fd(2)] by (simp add: at_rest_def)
  ultimately show ?thesis using r by blast
qed

end
