(* ===== verification/ServerActs.thy ===== *)
theory ServerActs
  imports ServerFaults
begin

text \<open>
  The server one access at a time. A thread is a resumption: either it has ended, or its next access to the shared state
  gives the rest of it and the state. The functions of \<open>Webserver.cpp\<close> that work on connections and timers are written
  again as threads, in continuation-passing style and in the order of the source: a step is one call of the pool, of
  epoll, of the timers (\<open>mod_timer\<close> is three), of the log, or one use of a connection. Run without interruption they
  are the functions of \<open>WebServer\<close>.
\<close>

section \<open>Threads\<close>

datatype thread =
    Over
  | Next "env \<Rightarrow> server \<Rightarrow> (thread \<times> server) res"

text \<open>A thread that is alone, and gets the same answers at each of its accesses.\<close>

primrec alone :: "thread \<Rightarrow> env \<Rightarrow> server \<Rightarrow> server res" where
  "alone Over = (\<lambda>e s. Inr s)"
| "alone (Next f) = (\<lambda>e s. case map_sum id (map_prod alone id) (f e s) of Inl x \<Rightarrow> Inl x | Inr (rest, s') \<Rightarrow> rest e s')"

definition act :: "(env \<Rightarrow> server \<Rightarrow> ('a \<times> server) res) \<Rightarrow> ('a \<Rightarrow> thread) \<Rightarrow> thread" where
  "act g k = Next (\<lambda>e s. bind_res (g e s) (\<lambda>(x, s'). Inr (k x, s')))"

definition look :: "(server \<Rightarrow> 'a res) \<Rightarrow> ('a \<Rightarrow> thread) \<Rightarrow> thread" where
  "look g k = act (\<lambda>e s. bind_res (g s) (\<lambda>x. Inr (x, s))) k"

definition change :: "(env \<Rightarrow> server \<Rightarrow> server res) \<Rightarrow> thread \<Rightarrow> thread" where
  "change g t = act (\<lambda>e s. bind_res (g e s) (\<lambda>s'. Inr ((), s'))) (\<lambda>_. t)"

lemma alone_Next: "alone (Next f) e s = bind_res (f e s) (\<lambda>(t, s'). alone t e s')"
  by (cases "f e s") (auto simp: case_prod_unfold)

declare alone.simps(2) [simp del]

lemma alone_act: "alone (act g k) e s = bind_res (g e s) (\<lambda>(x, s'). alone (k x) e s')"
  by (cases "g e s") (auto simp: act_def alone_Next)

lemma alone_look: "alone (look g k) e s = bind_res (g s) (\<lambda>x. alone (k x) e s)"
  by (simp add: look_def alone_act bind_res_assoc)

lemma alone_change: "alone (change g t) e s = bind_res (g e s) (\<lambda>s'. alone t e s')"
  by (simp add: change_def alone_act bind_res_assoc)

lemma alone_if: "alone (if b then t else u) e s = (if b then alone t e s else alone u e s)"
  by simp

lemma bind_res_if: "bind_res (if b then m else n) f = (if b then bind_res m f else bind_res n f)"
  by simp

lemma alone_option:
  "alone (case x of None \<Rightarrow> t | Some y \<Rightarrow> u y) e s = (case x of None \<Rightarrow> alone t e s | Some y \<Rightarrow> alone (u y) e s)"
  "bind_res (case x of None \<Rightarrow> m | Some y \<Rightarrow> g y) f = (case x of None \<Rightarrow> bind_res m f | Some y \<Rightarrow> bind_res (g y) f)"
  by (simp_all split: option.split)

lemma bind_res_unit: "bind_res m Inr = m"
  by (cases m) simp_all

lemmas alone_simps = alone_option bind_res_unit alone_act alone_look alone_change alone_if bind_res_if bind_res_assoc Let_def case_prod_unfold

section \<open>Connections\<close>

definition close_conn_thread :: "int \<Rightarrow> (bool \<Rightarrow> thread) \<Rightarrow> thread" where
  "close_conn_thread conn_fd k =
     look (\<lambda>s. pool_get conn_fd (sv_pool s)) (\<lambda>conn.
       if conn = Null_addr then k False
       else
         change (\<lambda>e s. Inr (s\<lparr>sv_epoll := snd (ep_del (e_ctl e) conn_fd (sv_epoll s))\<rparr>)) (
         change (\<lambda>e s. Inr (snd (ws_del_timer conn_fd s))) (
         change (\<lambda>e s. bind_res (Release conn (sv_pool s)) (\<lambda>(closed, p).
           Inr (s\<lparr>sv_pool := p, sv_closed := sv_closed s @ (case closed of Some fd \<Rightarrow> [fd] | None \<Rightarrow> [])\<rparr>))) (
         change (LOG_INFO (fd_msg ''close conn fd: '' conn_fd [])) (
         k True)))))"

definition deal_NewConn_thread :: "(int \<Rightarrow> thread) \<Rightarrow> thread" where
  "deal_NewConn_thread k =
     act (\<lambda>e s. bind_res (Accept_tcp (e_accept e) (sv_tcp s)) (\<lambda>fd. Inr (fd, s))) (\<lambda>conn_fd.
       if conn_fd < 0 then k 0
       else
         change (\<lambda>e s. Inr (s\<lparr>sv_epoll := snd (ep_add (e_ctl e) conn_fd EPOLLIN (sv_epoll s))\<rparr>)) (
         act (\<lambda>e s. bind_res (acquire (sv_pool s)) (\<lambda>(conn, p). Inr (conn, s\<lparr>sv_pool := p\<rparr>))) (\<lambda>conn.
         if conn = Null_addr then k 0
         else
           change (\<lambda>e s. bind_res (add_map conn_fd conn (e_peer e) (e_now e) (sv_pool s)) (\<lambda>p. Inr (s\<lparr>sv_pool := p\<rparr>))) (
           k conn_fd))))"

text \<open>One use of the connection: the bytes of the object are read and written.\<close>

definition use_conn ::
  "paddr \<Rightarrow> (env \<Rightarrow> server \<Rightarrow> ConnectionInfo \<Rightarrow> ('a \<times> ConnectionInfo \<times> server) res) \<Rightarrow> ('a \<Rightarrow> thread) \<Rightarrow> thread" where
  "use_conn conn g k =
     act (\<lambda>e s. bind_res (pool_object (sv_pool s) conn) (\<lambda>c.
       bind_res (g e s c) (\<lambda>(x, c', s'). Inr (x, s'\<lparr>sv_pool := pool_update (sv_pool s') conn c'\<rparr>)))) k"

definition deal_Read_thread :: "int \<Rightarrow> (bool \<Rightarrow> thread) \<Rightarrow> thread" where
  "deal_Read_thread conn_fd k =
     look (\<lambda>s. pool_get conn_fd (sv_pool s)) (\<lambda>conn.
       if conn = Null_addr then k False
       else
         change (LOG_INFO (fd_msg ''deal_Read conn fd: '' conn_fd [])) (
         use_conn conn (\<lambda>e s c. bind_res (conn_read (e_sock e) (e_now e) c) (\<lambda>(ret, pending, c'). Inr (ret, c', s))) (\<lambda>ret.
         if ret \<le> 0 then
           close_conn_thread conn_fd (\<lambda>r.
           change (LOG_ERROR (fd_msg ''close conn fd: '' conn_fd [])) (
           k False))
         else
           use_conn conn (\<lambda>e s c. bind_res (convert_request registered_parsers c) (\<lambda>(success, c'). Inr (success, c', s))) (\<lambda>success.
           if \<not> success then k False
           else
             look (\<lambda>s. bind_res (pool_object (sv_pool s) conn) (\<lambda>c.
               case ci_request c of None \<Rightarrow> Inl Bad_pointer
               | Some request \<Rightarrow> Inr (get_handler (get_key_URL request) registered_routes))) (\<lambda>handler.
             case handler of
               None \<Rightarrow> k False
             | Some h \<Rightarrow>
                 use_conn conn (\<lambda>e s c. bind_res (run_handler (e_order e) (e_stk e) h c (sv_kv s)) (\<lambda>(sent, c', kv).
                   Inr ((), c', s\<lparr>sv_kv := kv, sv_sent := sv_sent s @ sent\<rparr>))) (\<lambda>_.
                 use_conn conn (\<lambda>e s c. Inr ((), c\<lparr>ci_last_active_time := e_now e\<rparr>, s)) (\<lambda>_.
                 k True)))))))"

definition timer_task_thread :: "int \<Rightarrow> int \<Rightarrow> thread" where
  "timer_task_thread fd timeout =
     look (\<lambda>s. pool_get fd (sv_pool s)) (\<lambda>conn.
       if conn = Null_addr then Over
       else
         act (\<lambda>e s. bind_res (pool_object (sv_pool s) conn) (\<lambda>c. Inr (ci_last_active_time c + timeout \<le> e_now e, s))) (\<lambda>expired.
         if expired then
           change (LOG_ERROR (fd_msg ''conn fd: '' fd '' timeout'')) (
           close_conn_thread fd (\<lambda>r. Over))
         else Over))"

fun task_thread :: "task \<Rightarrow> thread" where
  "task_thread (Timer_task fd timeout) = timer_task_thread fd timeout"
| "task_thread (Timer_log fd) = Over"

section \<open>The event loop\<close>

definition mod_timer_thread :: "int \<Rightarrow> int \<Rightarrow> thread \<Rightarrow> thread" where
  "mod_timer_thread fd timeout k =
     change (\<lambda>e s. Inr (s\<lparr>sv_clock := mod_timer_bump fd (sv_clock s)\<rparr>)) (
     act (\<lambda>e s. let (new_version, c) = mod_timer_read fd (sv_clock s) in Inr (new_version, s\<lparr>sv_clock := c\<rparr>)) (\<lambda>new_version.
     change (\<lambda>e s. Inr (snd (ws_add_timer (e_now e) fd timeout new_version s))) k))"

definition event_thread :: "event \<Rightarrow> thread" where
  "event_thread ev =
     look (\<lambda>s. get_listen_fd (sv_tcp s)) (\<lambda>listen_fd.
       if ev_fd ev = listen_fd then
         deal_NewConn_thread (\<lambda>conn_fd.
         change (\<lambda>e s. Inr (snd (ws_add_timer (e_now e) conn_fd TIME_OUT 1 s))) (
         change (LOG_INFO (fd_msg ''add_timer conn fd: '' conn_fd [])) Over))
       else if ev_events ev AND (EPOLLERR OR EPOLLHUP OR EPOLLRDHUP) \<noteq> 0 then
         close_conn_thread (ev_fd ev) (\<lambda>r.
         change (LOG_ERROR (fd_msg ''close conn fd: '' (ev_fd ev) [])) Over)
       else
         look (\<lambda>s. case sv_pipe_fd s of None \<Rightarrow> Inl Bad_pointer | Some (pipe_read, pipe_write) \<Rightarrow> Inr pipe_read) (\<lambda>pipe_read.
         if ev_fd ev = pipe_read \<and> ev_events ev AND EPOLLIN \<noteq> 0 then
           act del_signal (\<lambda>success.
           if \<not> success then change (LOG_ERROR ''del_signal failed'') Over else Over)
         else if ev_events ev AND EPOLLIN \<noteq> 0 then
           deal_Read_thread (ev_fd ev) (\<lambda>r.
           mod_timer_thread (ev_fd ev) TIME_OUT (
           change (LOG_INFO (fd_msg ''mod_timer conn fd: '' (ev_fd ev) [])) Over))
         else Over))"

section \<open>Alone, the threads are the functions\<close>

lemma alone_close:
  "alone (close_conn_thread fd k) e s = bind_res (close_conn e fd s) (\<lambda>(r, s'). alone (k r) e s')"
  unfolding close_conn_thread_def close_conn_def
  by (simp add: alone_simps cong: if_cong)

lemma alone_new:
  "alone (deal_NewConn_thread k) e s = bind_res (deal_NewConn e s) (\<lambda>(fd, s'). alone (k fd) e s')"
  unfolding deal_NewConn_thread_def deal_NewConn_def
  by (simp add: alone_simps cong: if_cong)

lemma alone_use:
  "alone (use_conn conn g k) e s =
     bind_res (pool_object (sv_pool s) conn) (\<lambda>c.
       bind_res (g e s c) (\<lambda>(x, c', s'). alone (k x) e (s'\<lparr>sv_pool := pool_update (sv_pool s') conn c'\<rparr>)))"
  unfolding use_conn_def by (simp add: alone_simps)

lemma alone_task: "alone (task_thread cb) e s = run_task e cb s"
  by (cases cb)
    (simp_all add: timer_task_thread_def timer_task_def alone_simps alone_close cong: if_cong)

lemma alone_mod_timer:
  "alone (mod_timer_thread fd timeout k) e s = alone k e (snd (ws_mod_timer (e_now e) fd timeout s))"
  unfolding mod_timer_thread_def
  by (simp add: alone_simps ws_mod_timer_def ws_add_timer_def mod_timer_def)

lemma alone_read:
  "alone (deal_Read_thread fd k) e s = bind_res (deal_Read e fd s) (\<lambda>(r, s'). alone (k r) e s')"
proof (cases "pool_get fd (sv_pool s)")
  case (Inl f)
  then show ?thesis by (simp add: deal_Read_thread_def deal_Read_def alone_simps)
next
  case (Inr conn)
  let ?m = "fd_msg ''deal_Read conn fd: '' fd []"
  show ?thesis
  proof (cases "conn = Null_addr \<or> (\<exists>f. LOG_INFO ?m e s = Inl f)")
    case True
    with Inr show ?thesis by (auto simp: deal_Read_thread_def deal_Read_def alone_simps)
  next
    case False
    then obtain s1 where s1: "LOG_INFO ?m e s = Inr s1" "conn \<noteq> Null_addr" by (cases "LOG_INFO ?m e s") auto
    show ?thesis
    proof (cases "pool_object (sv_pool s1) conn")
      case (Inl f)
      with Inr s1 show ?thesis by (simp add: deal_Read_thread_def deal_Read_def alone_simps alone_use)
    next
      case obj: (Inr c)
      note get = object_update[OF obj]
      have order: "s\<lparr>sv_pool := p, sv_sent := x\<rparr> = s\<lparr>sv_sent := x, sv_pool := p\<rparr>" for s :: server and p x by simp
      from Inr s1 obj show ?thesis
        by (simp add: deal_Read_thread_def deal_Read_def alone_simps alone_use alone_close get order cong: if_cong option.case_cong)
    qed
  qed
qed

text \<open>An event of a server that listens.\<close>

lemma alone_event: "alone (event_thread ev) e s = handle_event e ev s"
  unfolding event_thread_def handle_event_def
  by (simp add: alone_simps alone_new alone_close alone_read alone_mod_timer cong: if_cong option.case_cong)

section \<open>The functions of the server\<close>

text \<open>Cut into their accesses to the shared state, the handling of an event and a callback are the functions of the
  event loop and the timer thread: uninterrupted they return the same state on every branch and have every fault.\<close>

theorem accesses_are_functions:
  "alone (event_thread ev) e s = handle_event e ev s \<and> alone (timer_task_thread fd timeout) e s =
     bind_res (timer_task e fd timeout s) (\<lambda>(r, s'). Inr s')"
  using alone_event alone_task[of "Timer_task fd timeout"] by simp

end
