(* ===== verification/ServerFine.thy ===== *)
theory ServerFine
  imports ServerActs
begin

text \<open>
  The event loop and the timer thread, interleaved access by access. \<open>sound\<close> is what holds of a thread at each of its
  accesses: it faults only in given ways and keeps an invariant. The locales \<open>closing\<close> and \<open>serving\<close> collect what the
  threads of \<open>ServerActs\<close> rely on; they are interpreted on an arbitrary environment, for the invariant, and on
  one that answers C integers, for the faults.
\<close>

section \<open>Sound threads\<close>

inductive sound :: "(env \<Rightarrow> bool) \<Rightarrow> (server \<Rightarrow> bool) \<Rightarrow> fault set \<Rightarrow> thread \<Rightarrow> bool" for E I F where
  sound_over: "sound E I F Over"
| sound_next: "(\<And>e s. E e \<Longrightarrow> I s \<Longrightarrow> faults_in F (f e s)) \<Longrightarrow>
    (\<And>e s t s'. E e \<Longrightarrow> I s \<Longrightarrow> f e s = Inr (t, s') \<Longrightarrow> I s' \<and> sound E I F t) \<Longrightarrow> sound E I F (Next f)"

inductive_cases sound_NextE: "sound E I F (Next f)"

lemma sound_NextD:
  assumes "sound E I F (Next f)" and "E e" and "I s"
  shows "faults_in F (f e s)" and "f e s = Inr (t, s') \<Longrightarrow> I s' \<and> sound E I F t"
  using assms(1) by (rule sound_NextE; use assms(2,3) in blast)+

lemma sound_act:
  assumes "\<And>e s. E e \<Longrightarrow> I s \<Longrightarrow> faults_in F (g e s)"
    and "\<And>e s x s'. E e \<Longrightarrow> I s \<Longrightarrow> g e s = Inr (x, s') \<Longrightarrow> I s' \<and> sound E I F (k x)"
  shows "sound E I F (act g k)"
  unfolding act_def
proof (rule sound_next)
  show "faults_in F (bind_res (g e s) (\<lambda>(x, s'). Inr (k x, s')))" if "E e" "I s" for e s
    by (rule faults_bind[OF assms(1)[OF that]]) auto
  show "I s' \<and> sound E I F t" if "E e" "I s" "bind_res (g e s) (\<lambda>(x, s'). Inr (k x, s')) = Inr (t, s')" for e s t s'
    using assms(2)[OF that(1,2)] that(3) by (auto simp: bind_res_eq_Inr)
qed

lemma sound_look:
  assumes "\<And>s. I s \<Longrightarrow> faults_in F (g s)" and "\<And>s x. I s \<Longrightarrow> g s = Inr x \<Longrightarrow> sound E I F (k x)"
  shows "sound E I F (look g k)"
  unfolding look_def
proof (rule sound_act)
  show "faults_in F (bind_res (g s) (\<lambda>x. Inr (x, s)))" if "I s" for s
    by (rule faults_bind[OF assms(1)[OF that]]) simp
  show "I s' \<and> sound E I F (k x)" if "I s" "bind_res (g s) (\<lambda>x. Inr (x, s)) = Inr (x, s')" for s x s'
    using assms(2)[OF that(1)] that by (auto simp: bind_res_eq_Inr)
qed

lemma sound_change:
  assumes "\<And>e s. E e \<Longrightarrow> I s \<Longrightarrow> faults_in F (g e s)"
    and "\<And>e s s'. E e \<Longrightarrow> I s \<Longrightarrow> g e s = Inr s' \<Longrightarrow> I s'" and "sound E I F t"
  shows "sound E I F (change g t)"
  unfolding change_def
proof (rule sound_act)
  show "faults_in F (bind_res (g e s) (\<lambda>s'. Inr ((), s')))" if "E e" "I s" for e s
    by (rule faults_bind[OF assms(1)[OF that]]) simp
  show "I s' \<and> sound E I F t" if "E e" "I s" "bind_res (g e s) (\<lambda>s'. Inr ((), s')) = Inr (x, s')" for e s x s'
    using assms(2)[OF that(1,2)] assms(3) that(3) by (auto simp: bind_res_eq_Inr)
qed

section \<open>What threads rely on\<close>

text \<open>The invariant: the components', and that every timer is for an admissible descriptor.\<close>

definition ready_ok :: "(int \<Rightarrow> bool) \<Rightarrow> server \<Rightarrow> bool" where
  "ready_ok D s = (server_ok s \<and> (\<forall>t \<in> set (timer_queue (sv_clock s)). D (tm_id t)))"

lemma ready_frame:
  assumes "ready_ok D s"
  shows "server_ok s' \<Longrightarrow> sv_clock s' = sv_clock s \<Longrightarrow> ready_ok D s'"
  using assms by (simp add: ready_ok_def)

lemma log_clock: "LOG_INFO msg e s = Inr s' \<or> LOG_ERROR msg e s = Inr s' \<Longrightarrow> sv_clock s' = sv_clock s"
  by (auto simp: LOG_INFO_def LOG_ERROR_def log_at_def bind_res_eq_Inr)

text \<open>
  An environment (\<open>E\<close>), admissible descriptors (\<open>D\<close>) and allowed faults (\<open>F\<close>): either messages can be relied on
  to fit, or every fault is allowed.
\<close>

locale closing =
  fixes E :: "env \<Rightarrow> bool" and D :: "int \<Rightarrow> bool" and F :: "fault set"
  assumes fits: "E e \<Longrightarrow> D fd \<Longrightarrow> log_times_ok e \<and> int32 fd \<or> F = UNIV"
    and some_D: "D 0"
    and bad: "Bad_pointer \<in> F"
begin

lemma admits: "faults_in {Bad_pointer} m \<Longrightarrow> faults_in F m"
  using bad faults_mono by blast

lemma sound_message:
  assumes "sound E (ready_ok D) F t" and "\<And>e. E e \<Longrightarrow> log_times_ok e \<and> length msg \<le> 100 \<or> F = UNIV"
  shows "sound E (ready_ok D) F (change (LOG_INFO msg) t)" and "sound E (ready_ok D) F (change (LOG_ERROR msg) t)"
proof -
  have "faults_in F (LOG_INFO msg e s)" "faults_in F (LOG_ERROR msg e s)" if "E e" "ready_ok D s" for e s
    using assms(2)[OF that(1)] that(2) log_faults_ok[of s e msg F] by (auto simp: ready_ok_def faults_in_def)
  moreover have "ready_ok D s'" if "ready_ok D s" "LOG_INFO msg e s = Inr s' \<or> LOG_ERROR msg e s = Inr s'" for e s s'
    using ready_frame[OF that(1) _ log_clock[OF that(2)]] server_ok_log that by (auto simp: ready_ok_def)
  ultimately show "sound E (ready_ok D) F (change (LOG_INFO msg) t)" "sound E (ready_ok D) F (change (LOG_ERROR msg) t)"
    using assms(1) by (blast intro: sound_change)+
qed

lemma sound_log:
  assumes "sound E (ready_ok D) F t" and "D fd" and "length before + length after \<le> 80"
  shows "sound E (ready_ok D) F (change (LOG_INFO (fd_msg before fd after)) t)"
    and "sound E (ready_ok D) F (change (LOG_ERROR (fd_msg before fd after)) t)"
proof -
  have "log_times_ok e \<and> length (fd_msg before fd after) \<le> 100 \<or> F = UNIV" if "E e" for e
    using fits[OF that assms(2)] assms(3) fd_msg_fits by blast
  from sound_message[OF assms(1) this]
  show "sound E (ready_ok D) F (change (LOG_INFO (fd_msg before fd after)) t)"
    "sound E (ready_ok D) F (change (LOG_ERROR (fd_msg before fd after)) t)" by blast+
qed

lemma sound_close:
  assumes "D fd" and "\<And>r. sound E (ready_ok D) F (k r)"
  shows "sound E (ready_ok D) F (close_conn_thread fd k)"
  unfolding close_conn_thread_def
proof (rule sound_look)
  fix s conn
  show "faults_in F (pool_get fd (sv_pool s))" by (rule admits[OF pool_faults(1)])
  let ?log = "change (LOG_INFO (fd_msg ''close conn fd: '' fd [])) (k True)"
  let ?release = "\<lambda>e s. bind_res (Release conn (sv_pool s)) (\<lambda>(closed, p).
    Inr (s\<lparr>sv_pool := p, sv_closed := sv_closed s @ (case closed of Some fd \<Rightarrow> [fd] | None \<Rightarrow> [])\<rparr>))"
  have log: "sound E (ready_ok D) F ?log" by (rule sound_log(1)[OF assms(2,1)]) simp
  have release: "sound E (ready_ok D) F (change ?release ?log)"
  proof (rule sound_change[OF _ _ log])
    show "faults_in F (?release e s)" for e s by (auto intro!: faults_bind admits[OF pool_faults(3)])
    fix e s s' assume ok: "ready_ok D s" and s': "?release e s = Inr s'"
    obtain closed p where "Release conn (sv_pool s) = Inr (closed, p)" "\<exists>x. s' = s\<lparr>sv_pool := p, sv_closed := x\<rparr>"
      using s' by (auto simp: bind_res_eq_Inr)
    moreover have "server_ok s" using ok by (simp add: ready_ok_def)
    moreover from server_ok_update(2)[OF this pool_ok_release[OF server_ok_parts(3)[OF this]]] calculation(1)
    have "server_ok (s\<lparr>sv_pool := p\<rparr>)" by blast
    ultimately show "ready_ok D s'" using ok by (auto intro!: ready_frame[OF ok])
  qed
  have del: "ready_ok D (snd (ws_del_timer fd s))" if "ready_ok D s" for s
  proof -
    have "server_ok (snd (ws_del_timer fd s))" using that server_ok_timers(3) by (simp add: ready_ok_def)
    then show ?thesis using that
      by (simp add: ready_ok_def ws_del_timer_def del_timer_def case_prod_unfold Let_def split: option.splits)
  qed
  have ep: "ready_ok D (s\<lparr>sv_epoll := snd (ep_del r fd (sv_epoll s))\<rparr>)" if "ready_ok D s" for r s
    by (rule ready_frame[OF that]) (use that server_ok_ctl(2) in \<open>simp_all add: ready_ok_def\<close>)
  show "sound E (ready_ok D) F (if conn = Null_addr then k False else
      change (\<lambda>e s. Inr (s\<lparr>sv_epoll := snd (ep_del (e_ctl e) fd (sv_epoll s))\<rparr>)) (
      change (\<lambda>e s. Inr (snd (ws_del_timer fd s))) (change ?release ?log)))"
    using assms(2) by (auto intro!: sound_change release ep del)
qed

lemma sound_timer_task:
  assumes "D fd"
  shows "sound E (ready_ok D) F (timer_task_thread fd timeout)"
  unfolding timer_task_thread_def
proof (rule sound_look)
  fix s conn
  show "faults_in F (pool_get fd (sv_pool s))" by (rule admits[OF pool_faults(1)])
  have close: "sound E (ready_ok D) F (change (LOG_ERROR (fd_msg ''conn fd: '' fd '' timeout'')) (close_conn_thread fd (\<lambda>r. Over)))"
    by (intro sound_log(2) sound_close assms sound_over) simp
  show "sound E (ready_ok D) F (if conn = Null_addr then Over
      else act (\<lambda>e s. bind_res (pool_object (sv_pool s) conn) (\<lambda>c. Inr (ci_last_active_time c + timeout \<le> e_now e, s))) (\<lambda>expired.
        if expired then change (LOG_ERROR (fd_msg ''conn fd: '' fd '' timeout'')) (close_conn_thread fd (\<lambda>r. Over)) else Over))"
    using close sound_over[of E "ready_ok D" F]
    by (auto intro!: sound_act faults_bind[OF admits[OF pool_faults(2)]] simp: bind_res_eq_Inr split: if_splits)
qed

end

text \<open>The event loop accepts, reads and adds timers too.\<close>

locale serving = closing +
  assumes accepts: "E e \<Longrightarrow> D (e_accept e)"
    and allowed: "read_fault \<union> {Blocks} \<subseteq> F"
begin

lemma allows: "faults_in G m \<Longrightarrow> G \<subseteq> read_fault \<union> {Blocks} \<Longrightarrow> faults_in F m"
  using allowed faults_mono by blast

lemma ready_timer: "ready_ok D s \<Longrightarrow> D fd \<Longrightarrow> ready_ok D (snd (ws_add_timer now fd TIME_OUT v s))"
  using server_ok_timers(1)[of s now fd v]
  by (simp add: ready_ok_def ws_add_timer_def add_timer_def set_insort_key case_prod_unfold Let_def)

lemma ready_pool: "ready_ok D s \<Longrightarrow> pool_ok p \<Longrightarrow> ready_ok D (s\<lparr>sv_pool := p\<rparr>)"
  using server_ok_update(2)[of s p] by (simp add: ready_ok_def)

lemma sound_use:
  assumes "\<And>e s c. E e \<Longrightarrow> ready_ok D s \<Longrightarrow> conn_ok c \<Longrightarrow> faults_in F (g e s c)"
    and "\<And>e s c x c' s'. ready_ok D s \<Longrightarrow> conn_ok c \<Longrightarrow> g e s c = Inr (x, c', s') \<Longrightarrow>
      conn_ok c' \<and> ready_ok D s' \<and> sv_pool s' = sv_pool s"
    and "\<And>x. sound E (ready_ok D) F (k x)"
  shows "sound E (ready_ok D) F (use_conn conn g k)"
  unfolding use_conn_def
proof (rule sound_act)
  fix e s assume es: "E e" "ready_ok D s"
  have alive: "conn_ok c" if "pool_object (sv_pool s) conn = Inr c" for c
    using pool_ok_object[OF server_ok_parts(3) that] es(2) by (auto simp: ready_ok_def)
  show "faults_in F (bind_res (pool_object (sv_pool s) conn) (\<lambda>c. bind_res (g e s c) (\<lambda>(x, c', s').
      Inr (x, s'\<lparr>sv_pool := pool_update (sv_pool s') conn c'\<rparr>))))"
    by (rule faults_bind[OF admits[OF pool_faults(2)]], rule faults_bind[OF assms(1)[OF es alive]]) auto
  fix x s'
  assume "bind_res (pool_object (sv_pool s) conn) (\<lambda>c. bind_res (g e s c) (\<lambda>(x, c', s').
      Inr (x, s'\<lparr>sv_pool := pool_update (sv_pool s') conn c'\<rparr>))) = Inr (x, s')"
  then obtain c c' s1 where c: "pool_object (sv_pool s) conn = Inr c" "g e s c = Inr (x, c', s1)"
    "s' = s1\<lparr>sv_pool := pool_update (sv_pool s1) conn c'\<rparr>" by (auto simp: bind_res_eq_Inr)
  from assms(2)[OF es(2) alive[OF c(1)] c(2)] have s1: "conn_ok c'" "ready_ok D s1" "sv_pool s1 = sv_pool s" by blast+
  have "pool_ok (pool_update (sv_pool s1) conn c')"
    using pool_ok_use[OF _ c(1) s1(1)] es(2) server_ok_parts(3) by (simp add: s1(3) ready_ok_def)
  then show "ready_ok D s' \<and> sound E (ready_ok D) F (k x)" using ready_pool[OF s1(2)] assms(3) by (simp add: c(3))
qed

lemma sound_new:
  assumes "\<And>fd. D fd \<Longrightarrow> sound E (ready_ok D) F (k fd)"
  shows "sound E (ready_ok D) F (deal_NewConn_thread k)"
  unfolding deal_NewConn_thread_def
proof (rule sound_act)
  fix e s assume es: "E e" "ready_ok D s"
  have lis: "get_listen_fd (sv_tcp s) = Inr (tcp_socket_fd (sv_tcp s))"
    using es(2) by (simp add: ready_ok_def server_ok_def listening_def)
  then show "faults_in F (bind_res (Accept_tcp (e_accept e) (sv_tcp s)) (\<lambda>fd. Inr (fd, s)))" by (simp add: Accept_tcp_def)
  fix fd s' assume "bind_res (Accept_tcp (e_accept e) (sv_tcp s)) (\<lambda>fd. Inr (fd, s)) = Inr (fd, s')"
  then have fd: "s' = s" "fd < 0 \<or> D fd" using accepts[OF es(1)] lis by (auto simp: Accept_tcp_def split: if_splits)
  have add: "ready_ok D (s\<lparr>sv_epoll := snd (ep_add r fd EPOLLIN (sv_epoll s))\<rparr>)" if "ready_ok D s" for r s
    by (rule ready_frame[OF that]) (use that server_ok_ctl(1) in \<open>simp_all add: ready_ok_def\<close>)
  have map: "sound E (ready_ok D) F (change (\<lambda>e s. bind_res (add_map fd conn (e_peer e) (e_now e) (sv_pool s))
      (\<lambda>p. Inr (s\<lparr>sv_pool := p\<rparr>))) (k fd))" if "D fd" for conn
    by (rule sound_change[OF _ _ assms[OF that]])
      (auto simp: bind_res_eq_Inr ready_ok_def dest: server_ok_parts(3) pool_ok_add_map server_ok_update(2)
        intro!: faults_bind admits[OF pool_faults(4)])
  have acq: "sound E (ready_ok D) F (act (\<lambda>e s. bind_res (acquire (sv_pool s)) (\<lambda>(conn, p). Inr (conn, s\<lparr>sv_pool := p\<rparr>)))
      (\<lambda>conn. if conn = Null_addr then k 0 else change (\<lambda>e s. bind_res (add_map fd conn (e_peer e) (e_now e) (sv_pool s))
        (\<lambda>p. Inr (s\<lparr>sv_pool := p\<rparr>))) (k fd)))" if "D fd"
  proof (rule sound_act)
    show "faults_in F (bind_res (acquire (sv_pool s)) (\<lambda>(conn, p). Inr (conn, s\<lparr>sv_pool := p\<rparr>)))" for s :: server
      by (rule faults_bind[OF allows[OF pool_faults(5)]]) (auto simp: read_fault_def handler_fault_def)
    fix s conn s' assume s: "ready_ok D s" "bind_res (acquire (sv_pool s)) (\<lambda>(conn, p). Inr (conn, s\<lparr>sv_pool := p\<rparr>)) = Inr (conn, s')"
    then obtain p where p: "acquire (sv_pool s) = Inr (conn, p)" "s' = s\<lparr>sv_pool := p\<rparr>" by (auto simp: bind_res_eq_Inr)
    have "pool_ok p" using pool_ok_acquire[OF server_ok_parts(3) p(1)] s(1) by (simp add: ready_ok_def)
    then show "ready_ok D s' \<and> sound E (ready_ok D) F (if conn = Null_addr then k 0 else
        change (\<lambda>e s. bind_res (add_map fd conn (e_peer e) (e_now e) (sv_pool s)) (\<lambda>p. Inr (s\<lparr>sv_pool := p\<rparr>))) (k fd))"
      using ready_pool[OF s(1)] map[OF that] assms[OF some_D] by (simp add: p(2))
  qed
  show "ready_ok D s' \<and> sound E (ready_ok D) F (if fd < 0 then k 0 else
      change (\<lambda>e s. Inr (s\<lparr>sv_epoll := snd (ep_add (e_ctl e) fd EPOLLIN (sv_epoll s))\<rparr>)) (
      act (\<lambda>e s. bind_res (acquire (sv_pool s)) (\<lambda>(conn, p). Inr (conn, s\<lparr>sv_pool := p\<rparr>)))
      (\<lambda>conn. if conn = Null_addr then k 0 else change (\<lambda>e s. bind_res (add_map fd conn (e_peer e) (e_now e) (sv_pool s))
        (\<lambda>p. Inr (s\<lparr>sv_pool := p\<rparr>))) (k fd))))"
    using fd es(2) assms[OF some_D] acq add by (auto intro!: sound_change)
qed
lemma sound_stamp:
  "(\<And>x. sound E (ready_ok D) F (k x)) \<Longrightarrow>
   sound E (ready_ok D) F (use_conn conn (\<lambda>e s c. Inr ((), c\<lparr>ci_last_active_time := e_now e\<rparr>, s)) k)"
  by (rule sound_use) (auto simp: conn_ok_def)

lemma sound_handle:
  assumes "\<And>x. sound E (ready_ok D) F (k x)"
  shows "sound E (ready_ok D) F (use_conn conn (\<lambda>e s c. bind_res (run_handler (e_order e) (e_stk e) h c (sv_kv s)) (\<lambda>(sent, c', kv).
    Inr ((), c', s\<lparr>sv_kv := kv, sv_sent := sv_sent s @ sent\<rparr>))) k)"
proof (rule sound_use[OF _ _ assms])
  fix e s c assume s: "ready_ok D s" and c: "conn_ok c"
  obtain m where kv: "kv_rel (sv_kv s) m" using s by (auto simp: ready_ok_def server_ok_def)
  show "faults_in F (bind_res (run_handler (e_order e) (e_stk e) h c (sv_kv s)) (\<lambda>(sent, c', kv).
      Inr ((), c', s\<lparr>sv_kv := kv, sv_sent := sv_sent s @ sent\<rparr>)))"
    by (rule faults_bind[OF allows[OF handler_faults[OF kv]]]) (auto simp: read_fault_def)
  fix x c' s' assume "bind_res (run_handler (e_order e) (e_stk e) h c (sv_kv s)) (\<lambda>(sent, c', kv).
      Inr ((), c', s\<lparr>sv_kv := kv, sv_sent := sv_sent s @ sent\<rparr>)) = Inr (x, c', s')"
  then obtain sent kv' where r: "run_handler (e_order e) (e_stk e) h c (sv_kv s) = Inr (sent, c', kv')"
    "s' = s\<lparr>sv_kv := kv', sv_sent := sv_sent s @ sent\<rparr>" by (auto simp: bind_res_eq_Inr)
  from handler_ok[OF c kv r(1)] have h: "conn_ok c'" "\<exists>m. kv_rel kv' m" by blast+
  have "server_ok s'" using server_ok_update(4)[OF _ h(2), of s] s by (simp add: r(2) ready_ok_def)
  then show "conn_ok c' \<and> ready_ok D s' \<and> sv_pool s' = sv_pool s" using h(1) s by (simp add: r(2) ready_ok_def)
qed

text \<open>The read, from its last access to its first.\<close>

lemma sound_read:
  assumes fd: "D fd" and k: "\<And>r. sound E (ready_ok D) F (k r)"
  shows "sound E (ready_ok D) F (deal_Read_thread fd k)"
proof -
  let ?sound = "sound E (ready_ok D) F"
  have route: "?sound (look (\<lambda>s. bind_res (pool_object (sv_pool s) conn) (\<lambda>c.
        case ci_request c of None \<Rightarrow> Inl Bad_pointer
        | Some request \<Rightarrow> Inr (get_handler (get_key_URL request) registered_routes))) r)"
    if "\<And>h. ?sound (r h)" for conn and r :: "handler option \<Rightarrow> thread"
    using that by (intro sound_look faults_bind[OF admits[OF pool_faults(2)]]) (auto simp: bad split: option.splits)
  have convert: "?sound (use_conn conn (\<lambda>e s c. bind_res (convert_request registered_parsers c)
      (\<lambda>(success, c'). Inr (success, c', s))) r)" if "\<And>x. ?sound (r x)" for conn r
    using that
    by (intro sound_use faults_bind[OF allows[OF convert_faults]])
      (auto simp: read_fault_def bind_res_eq_Inr dest: conn_ok_convert)
  have reads: "?sound (use_conn conn (\<lambda>e s c. bind_res (conn_read (e_sock e) (e_now e) c)
      (\<lambda>(ret, pending, c'). Inr (ret, c', s))) r)" if "\<And>x. ?sound (r x)" for conn r
    using that
    by (intro sound_use faults_bind[OF faults_of_returns[OF read_returns]])
      (auto simp: bind_res_eq_Inr dest: conn_ok_read)
  note parts = sound_log[OF _ fd] sound_close[OF fd] sound_stamp sound_handle reads convert route k
  show ?thesis
    unfolding deal_Read_thread_def
    by (intro sound_look admits[OF pool_faults(1)]) (auto intro!: parts split: option.split)
qed

lemma sound_mod:
  assumes fd: "D fd" and t: "sound E (ready_ok D) F t"
  shows "sound E (ready_ok D) F (mod_timer_thread fd TIME_OUT t)"
proof -
  have "ready_ok D (s\<lparr>sv_clock := mod_timer_bump fd (sv_clock s)\<rparr>)"
    "ready_ok D (s\<lparr>sv_clock := snd (mod_timer_read fd (sv_clock s))\<rparr>)" if "ready_ok D s" for s
    using that renew_parts_ok(1)[of s fd] renew_parts_ok(2)[of s fd "fst (mod_timer_read fd (sv_clock s))"]
    by (simp_all add: ready_ok_def mod_timer_bump_def mod_timer_read_def)
  then show ?thesis
    unfolding mod_timer_thread_def case_prod_unfold Let_def
    by (auto intro!: sound_change sound_act t ready_timer[OF _ fd])
qed

lemma sound_event:
  assumes fd: "D (ev_fd ev)"
  shows "sound E (ready_ok D) F (event_thread ev)"
proof -
  let ?sound = "sound E (ready_ok D) F"
  have add: "?sound (deal_NewConn_thread (\<lambda>conn_fd. change (\<lambda>e s. Inr (snd (ws_add_timer (e_now e) conn_fd TIME_OUT 1 s)))
      (change (LOG_INFO (fd_msg ''add_timer conn fd: '' conn_fd [])) Over)))"
    by (intro sound_new sound_change sound_log(1) sound_over) (auto intro: ready_timer)
  have sig: "?sound (act del_signal (\<lambda>success. if \<not> success then change (LOG_ERROR ''del_signal failed'') Over else Over))"
  proof (rule sound_act)
    show "faults_in F (del_signal e s)" for e s by (rule allows[of "{Blocks}"]) (simp_all add: del_signal_def)
    have "sv_clock s' = sv_clock s" if "del_signal e s = Inr (x, s')" for e s x s'
      using that by (auto simp: del_signal_def split: if_splits)
    moreover have "?sound (change (LOG_ERROR ''del_signal failed'') Over)"
      using fits[OF _ some_D] by (intro sound_message(2) sound_over) auto
    ultimately show "ready_ok D s' \<and> ?sound (if \<not> x then change (LOG_ERROR ''del_signal failed'') Over else Over)"
      if "ready_ok D s" "del_signal e s = Inr (x, s')" for e s x s'
      using that del_signal_ok[OF _ that(2)] sound_over by (auto simp: ready_ok_def)
  qed
  have lis: "get_listen_fd (sv_tcp s) = Inr (tcp_socket_fd (sv_tcp s))" if "ready_ok D s" for s
    using that by (simp add: ready_ok_def server_ok_def listening_def)
  have pipe: "faults_in F (case sv_pipe_fd s of None \<Rightarrow> Inl Bad_pointer | Some (pipe_read, pipe_write) \<Rightarrow> Inr pipe_read)" for s
    using bad by (simp split: option.split)
  show ?thesis
    unfolding event_thread_def
  proof (rule sound_look)
    show "faults_in F (get_listen_fd (sv_tcp s))" if "ready_ok D s" for s using lis[OF that] by simp
  qed (use lis in \<open>auto intro!: add sig pipe sound_close[OF fd] sound_read[OF fd] sound_mod[OF fd] sound_log[OF _ fd] sound_look sound_over\<close>)
qed

end

section \<open>The system\<close>

text \<open>The server, the event that is being handled, the callback that is running and those still to run.\<close>

record server_fine =
  fn_server :: server
  fn_loop :: thread
  fn_task :: thread
  fn_callbacks :: "task list"

definition fine_rest :: "server \<Rightarrow> server_fine" where
  "fine_rest s = \<lparr>fn_server = s, fn_loop = Over, fn_task = Over, fn_callbacks = []\<rparr>"

datatype fine_event =
    Fine_signals "int list"
  | Fine_wait int "event list"
  | Fine_begin event
  | Fine_loop env
  | Fine_collect int
  | Fine_call
  | Fine_task env

inductive fine_step :: "server_fine \<Rightarrow> fine_event \<Rightarrow> server_fine \<Rightarrow> bool" where
  fine_signals: "deliver sigs (fn_server t) = Inr s' \<Longrightarrow> fine_step t (Fine_signals sigs) (t\<lparr>fn_server := s'\<rparr>)"
| fine_wait: "fn_loop t = Over \<Longrightarrow>
    fine_step t (Fine_wait ret ready)
      (t\<lparr>fn_server := (fn_server t)\<lparr>sv_epoll := snd (ep_wait ret ready (sv_epoll (fn_server t)))\<rparr>\<rparr>)"
| fine_begin: "fn_loop t = Over \<Longrightarrow> fine_step t (Fine_begin ev) (t\<lparr>fn_loop := event_thread ev\<rparr>)"
| fine_loop: "fn_loop t = Next f \<Longrightarrow> f e (fn_server t) = Inr (rest, s') \<Longrightarrow>
    fine_step t (Fine_loop e) (t\<lparr>fn_server := s', fn_loop := rest\<rparr>)"
| fine_collect: "fn_task t = Over \<Longrightarrow> fn_callbacks t = [] \<Longrightarrow> handle_timer now (sv_clock (fn_server t)) = (cbs, c) \<Longrightarrow>
    fine_step t (Fine_collect now) (t\<lparr>fn_server := (fn_server t)\<lparr>sv_clock := c\<rparr>, fn_callbacks := cbs\<rparr>)"
| fine_call: "fn_task t = Over \<Longrightarrow> fn_callbacks t = cb # cbs \<Longrightarrow>
    fine_step t Fine_call (t\<lparr>fn_task := task_thread cb, fn_callbacks := cbs\<rparr>)"
| fine_task: "fn_task t = Next f \<Longrightarrow> f e (fn_server t) = Inr (rest, s') \<Longrightarrow>
    fine_step t (Fine_task e) (t\<lparr>fn_server := s', fn_task := rest\<rparr>)"

inductive_cases fine_stepE: "fine_step t e u"

text \<open>Steps in which the environment keeps to \<open>E\<close> and reports admissible descriptors.\<close>

fun lawful :: "(env \<Rightarrow> bool) \<Rightarrow> (int \<Rightarrow> bool) \<Rightarrow> fine_event \<Rightarrow> bool" where
  "lawful E D (Fine_begin ev) = D (ev_fd ev)"
| "lawful E D (Fine_loop e) = E e"
| "lawful E D (Fine_task e) = E e"
| "lawful E D _ = True"

fun task_D :: "(int \<Rightarrow> bool) \<Rightarrow> task \<Rightarrow> bool" where
  "task_D D (Timer_task fd timeout) = D fd"
| "task_D D (Timer_log fd) = True"

definition fine_ok :: "(env \<Rightarrow> bool) \<Rightarrow> (int \<Rightarrow> bool) \<Rightarrow> fault set \<Rightarrow> fault set \<Rightarrow> server_fine \<Rightarrow> bool" where
  "fine_ok E D F F' t = (ready_ok D (fn_server t) \<and> sound E (ready_ok D) F (fn_loop t) \<and>
     sound E (ready_ok D) F' (fn_task t) \<and> (\<forall>cb \<in> set (fn_callbacks t). task_D D cb))"

lemma expire_collected:
  "set (fst (expire_loop now q m)) \<subseteq> {cb. \<exists>t \<in> set q. tm_callback t = Some cb} \<and>
   set (fst (snd (expire_loop now q m))) \<subseteq> set q"
  by (induction now q m rule: expire_loop.induct)
    (auto simp: Let_def case_prod_unfold simp del: fun_upd_apply split: option.splits if_splits, blast+)

lemma ready_collect:
  assumes "ready_ok D s" and "handle_timer now (sv_clock s) = (cbs, c)"
  shows "ready_ok D (s\<lparr>sv_clock := c\<rparr>)" and "\<forall>cb \<in> set cbs. task_D D cb"
proof -
  have s: "server_ok s" and q: "\<forall>t \<in> set (timer_queue (sv_clock s)). D (tm_id t) \<and>
      tm_callback t = Some (Timer_task (tm_id t) TIME_OUT)"
    using assms(1) server_ok_parts(4) by (auto simp: ready_ok_def timers_ok_def)
  have c: "timer_queue c = fst (snd (expire_loop now (timer_queue (sv_clock s)) (timer_map (sv_clock s))))"
    "cbs = fst (expire_loop now (timer_queue (sv_clock s)) (timer_map (sv_clock s)))"
    using assms(2) by (auto simp: handle_timer_def case_prod_unfold Let_def)
  note got = expire_collected[of now "timer_queue (sv_clock s)" "timer_map (sv_clock s)"]
  show "ready_ok D (s\<lparr>sv_clock := c\<rparr>)" using collect_ok[OF s assms(2)] q got by (auto simp: ready_ok_def c(1))
  show "\<forall>cb \<in> set cbs. task_D D cb" using q got by (fastforce simp: c(2))
qed

text \<open>Both threads together.\<close>

locale two_threads = loop: serving E D F + task: closing E D F' for E D F F'
begin

lemma sound_task: "task_D D cb \<Longrightarrow> sound E (ready_ok D) F' (task_thread cb)"
  by (cases cb) (auto intro: task.sound_timer_task sound_over)

lemma step_ok:
  assumes ok: "fine_ok E D F F' t" and step: "fine_step t ev u" and ev: "lawful E D ev"
  shows "fine_ok E D F F' u"
proof -
  have s: "ready_ok D (fn_server t)" using ok by (simp add: fine_ok_def)
  have frame: "ready_ok D s'" if "server_ok s'" "sv_clock s' = sv_clock (fn_server t)" for s'
    using ready_frame[OF s that] .
  show ?thesis
    using step
  proof cases
    case (fine_signals sigs s')
    have "sv_clock s' = sv_clock s" if "deliver sigs s = Inr s'" for s
      using that by (induction sigs s rule: deliver.induct) (auto simp: sigint_handler_def split: option.splits if_splits)
    moreover have "server_ok s'" by (rule deliver_ok[OF _ fine_signals(3)]) (use s in \<open>simp add: ready_ok_def\<close>)
    ultimately show ?thesis using fine_signals frame ok by (simp add: fine_ok_def)
  next
    case (fine_wait ret ready)
    with ok frame server_ok_ctl(3) show ?thesis by (simp add: fine_ok_def ready_ok_def)
  next
    case (fine_begin ev')
    with ok ev loop.sound_event show ?thesis by (simp add: fine_ok_def)
  next
    case (fine_loop f e rest s')
    with ok ev have "sound E (ready_ok D) F (Next f)" "E e" by (simp_all add: fine_ok_def)
    from sound_NextD(2)[OF this s fine_loop(4)] fine_loop(2) ok show ?thesis by (simp add: fine_ok_def)
  next
    case (fine_collect now cbs c)
    with ok ready_collect[OF s] show ?thesis by (simp add: fine_ok_def)
  next
    case (fine_call cb cbs)
    with ok sound_task show ?thesis by (simp add: fine_ok_def)
  next
    case (fine_task f e rest s')
    with ok ev have "sound E (ready_ok D) F' (Next f)" "E e" by (simp_all add: fine_ok_def)
    from sound_NextD(2)[OF this s fine_task(4)] fine_task(2) ok show ?thesis by (simp add: fine_ok_def)
  qed
qed

lemma run_ok:
  "run (\<lambda>t ev u. fine_step t ev u \<and> lawful E D ev) (fine_rest s0) es t \<Longrightarrow> ready_ok D s0 \<Longrightarrow> fine_ok E D F F' t"
proof (induction rule: run.induct)
  case run_start
  then show ?case by (simp add: fine_ok_def fine_rest_def sound_over)
next
  case (run_event es t e u)
  with step_ok show ?case by blast
qed

end

text \<open>An arbitrary environment, and one that answers C integers.\<close>

definition typed :: "env \<Rightarrow> bool" where
  "typed e = (log_times_ok e \<and> int32 (e_accept e))"

interpretation any_threads: two_threads "\<lambda>_. True" "\<lambda>_. True" UNIV UNIV
  by unfold_locales simp_all

interpretation c_threads: two_threads typed int32 "read_fault \<union> {Blocks}" "{Bad_pointer}"
  by unfold_locales (auto simp: typed_def int32_def read_fault_def handler_fault_def)

section \<open>Uninterrupted threads\<close>

lemma thread_induct [case_names Over Next]:
  assumes "P Over" and "\<And>f. (\<And>e s t s'. f e s = Inr (t, s') \<Longrightarrow> P t) \<Longrightarrow> P (Next f)"
  shows "P t"
proof (induction t)
  case (Next f)
  show ?case
  proof (rule assms(2))
    fix e s t s' assume "f e s = Inr (t, s')"
    then show "P t" using Next[of "f e" "f e s" "(t, s')" t] rangeI[of "f e" s] by (auto intro: setr.intros fsts.intros)
  qed
qed (rule assms(1))

text \<open>Wherever a thread stands in a system that lets it move, it can run to its end.\<close>

lemma alone_is_run:
  assumes "\<And>f s t s'. f e s = Inr (t, s') \<Longrightarrow> step (place (Next f) s) ev (place t s')"
  shows "alone th e s = Inr s' \<Longrightarrow> \<exists>es. run step (place th s) es (place Over s')"
proof (induction th arbitrary: s rule: thread_induct)
  case Over
  then show ?case by (auto intro: run_start)
next
  case (Next f)
  obtain t s1 where t: "f e s = Inr (t, s1)" "alone t e s1 = Inr s'"
    using Next.prems by (auto simp: alone_Next bind_res_eq_Inr)
  from Next.IH[OF t] obtain es where "run step (place t s1) es (place Over s')" by blast
  from run_Cons[where step = step, OF assms[of f s t s1, OF t(1)] this] show ?case by blast
qed

lemma alone_loop_run:
  assumes "E e" and "alone th e s = Inr s'"
  shows "\<exists>es. run (\<lambda>t ev u. fine_step t ev u \<and> lawful E D ev)
      \<lparr>fn_server = s, fn_loop = th, fn_task = tk, fn_callbacks = cbs\<rparr> es
      \<lparr>fn_server = s', fn_loop = Over, fn_task = tk, fn_callbacks = cbs\<rparr>"
  by (rule alone_is_run[OF _ assms(2), where place = "\<lambda>th s. \<lparr>fn_server = s, fn_loop = th, fn_task = tk, fn_callbacks = cbs\<rparr>"
        and ev = "Fine_loop e"])
    (use fine_loop[of "\<lparr>fn_server = s, fn_loop = Next f, fn_task = tk, fn_callbacks = cbs\<rparr>" for s f] assms(1) in simp)

lemma alone_task_run:
  assumes "E e" and "alone th e s = Inr s'"
  shows "\<exists>es. run (\<lambda>t ev u. fine_step t ev u \<and> lawful E D ev)
      \<lparr>fn_server = s, fn_loop = lp, fn_task = th, fn_callbacks = cbs\<rparr> es
      \<lparr>fn_server = s', fn_loop = lp, fn_task = Over, fn_callbacks = cbs\<rparr>"
  by (rule alone_is_run[OF _ assms(2), where place = "\<lambda>th s. \<lparr>fn_server = s, fn_loop = lp, fn_task = th, fn_callbacks = cbs\<rparr>"
        and ev = "Fine_task e"])
    (use fine_task[of "\<lparr>fn_server = s, fn_loop = lp, fn_task = Next f, fn_callbacks = cbs\<rparr>" for s f] assms(1) in simp)

lemma lawful_run: "run (\<lambda>t ev u. fine_step t ev u \<and> lawful E D ev) s es t \<Longrightarrow> run fine_step s es t"
  by (induction rule: run.induct) (auto intro: run.intros)

lemma any_run: "run fine_step s es t \<Longrightarrow> run (\<lambda>t ev u. fine_step t ev u \<and> lawful (\<lambda>_. True) (\<lambda>_. True) ev) s es t"
proof (induction rule: run.induct)
  case (run_event es t e u)
  have "lawful (\<lambda>_. True) (\<lambda>_. True) e" by (cases e) simp_all
  with run_event show ?case by (blast intro: run.run_event[where step = "\<lambda>t ev u. fine_step t ev u \<and> lawful (\<lambda>_. True) (\<lambda>_. True) ev"])
qed (rule run_start)

lemma callbacks_fine_run:
  "run_callbacks e cbs s = Inr s' \<Longrightarrow>
   \<exists>es. run fine_step \<lparr>fn_server = s, fn_loop = Over, fn_task = Over, fn_callbacks = cbs\<rparr> es (fine_rest s')"
proof (induction cbs arbitrary: s)
  case Nil
  then show ?case using run_start[of fine_step] by (auto simp: fine_rest_def)
next
  case (Cons cb cbs)
  obtain s2 where s2: "run_task e cb s = Inr s2" "run_callbacks e cbs s2 = Inr s'"
    using Cons.prems by (cases cb) (auto simp: bind_res_eq_Inr)
  let ?t = "\<lparr>fn_server = s, fn_loop = Over, fn_task = Over, fn_callbacks = cb # cbs\<rparr>"
  let ?u = "\<lparr>fn_server = s, fn_loop = Over, fn_task = task_thread cb, fn_callbacks = cbs\<rparr>"
  have b: "fine_step ?t Fine_call ?u" using fine_call[of ?t cb cbs] by simp
  have "alone (task_thread cb) e s = Inr s2" using s2(1) by (simp add: alone_task)
  from alone_task_run[of "\<lambda>_. True", OF _ this, of "\<lambda>_. True" Over cbs] lawful_run obtain es where
    es: "run fine_step ?u es \<lparr>fn_server = s2, fn_loop = Over, fn_task = Over, fn_callbacks = cbs\<rparr>" by blast
  from Cons.IH[OF s2(2)] obtain es2 where
    "run fine_step \<lparr>fn_server = s2, fn_loop = Over, fn_task = Over, fn_callbacks = cbs\<rparr> es2 (fine_rest s')" by blast
  from run_trans[OF this run_Cons[where step = fine_step, OF b es]] show ?case by blast
qed

lemma fine_coarse_step:
  assumes "server_step s ev s'"
  shows "\<exists>es. run fine_step (fine_rest s) es (fine_rest s')"
  using assms
proof cases
  case (step_signals sigs)
  then have "fine_step (fine_rest s) (Fine_signals sigs) (fine_rest s')"
    using fine_signals[of sigs "fine_rest s" s'] by (simp add: fine_rest_def)
  then show ?thesis using run_one[where step = fine_step] by blast
next
  case (step_wait ret ready)
  then have "fine_step (fine_rest s) (Fine_wait ret ready) (fine_rest s')"
    using fine_wait[of "fine_rest s" ret ready] by (simp add: fine_rest_def)
  then show ?thesis using run_one[where step = fine_step] by blast
next
  case (step_event e x)
  let ?t = "\<lparr>fn_server = s, fn_loop = event_thread x, fn_task = Over, fn_callbacks = []\<rparr>"
  have b: "fine_step (fine_rest s) (Fine_begin x) ?t" using fine_begin[of "fine_rest s" x] by (simp add: fine_rest_def)
  have "alone (event_thread x) e s = Inr s'" using step_event by (simp add: alone_event)
  from alone_loop_run[of "\<lambda>_. True", OF _ this, of "\<lambda>_. True" Over "[]"] lawful_run obtain es where
    "run fine_step ?t es (fine_rest s')" unfolding fine_rest_def by blast
  from run_Cons[where step = fine_step, OF b this] show ?thesis by blast
next
  case (step_fire e)
  obtain cbs c where h: "handle_timer (e_now e) (sv_clock s) = (cbs, c)" by force
  have "fine_step (fine_rest s) (Fine_collect (e_now e))
      \<lparr>fn_server = s\<lparr>sv_clock := c\<rparr>, fn_loop = Over, fn_task = Over, fn_callbacks = cbs\<rparr>"
    using fine_collect[of "fine_rest s" "e_now e" cbs c] h by (simp add: fine_rest_def)
  with callbacks_fine_run[of e cbs "s\<lparr>sv_clock := c\<rparr>"] h step_fire(2) show ?thesis
    by (auto simp: fire_timers_def intro: run_Cons[where step = fine_step])
qed

lemma fine_coarse_run: "run server_step s es s' \<Longrightarrow> \<exists>es'. run fine_step (fine_rest s) es' (fine_rest s')"
proof (induction rule: run.induct)
  case run_start
  show ?case by (auto intro: run.run_start)
next
  case (run_event es t e u)
  then show ?case using fine_coarse_step run_trans[where step = fine_step] by blast
qed

section \<open>Properties\<close>

lemma start_ready:
  assumes "clean_start a" and "Webserver_new a db = Inr s"
  shows "ready_ok D s"
proof -
  have "sv_clock s = Thread_clockr_new"
    using assms(2) by (auto simp: Webserver_new_def bind_res_eq_Inr Let_def add_sig_def ep_add_def split: if_splits)
  with Webserver_new_ok_inv[OF assms] show ?thesis by (simp add: ready_ok_def Thread_clockr_new_def)
qed

text \<open>C9. Whatever clients, signals, the kernel and the two threads do, and in whatever order: as long as nothing
  faults, after every single access of either thread a server that came up keeps the size of its event array,
  objects that are apart, inside the pool's memory and with valid buffer indices, a map that only names blocks of the
  pool, a timer queue in order whose callbacks are for their own descriptors, and a well-formed table. The runs in
  which events and rounds of callbacks are not interrupted are among these.\<close>

theorem accesses_keep_invariant:
  assumes "clean_start a" and "Webserver_new a db = Inr s0" and "run fine_step (fine_rest s0) es t"
  shows "server_ok (fn_server t) \<and>
    (\<forall>es1 s1. run server_step s0 es1 s1 \<longrightarrow> (\<exists>es2. run fine_step (fine_rest s0) es2 (fine_rest s1)))"
  using any_threads.run_ok[OF any_run[OF assms(3)] start_ready[OF assms(1,2)]] fine_coarse_run
  by (auto simp: fine_ok_def ready_ok_def)

text \<open>A read and the callback of the same connection are both under way.\<close>

lemma both_under_way:
  "\<exists>es t. run (\<lambda>t ev u. fine_step t ev u \<and> lawful typed int32 ev) (fine_rest server0) es t \<and>
    fn_loop t = event_thread (readable 7) \<and> fn_task t = timer_task_thread 7 TIME_OUT \<and>
    pool_get 7 (sv_pool (fn_server t)) = Inr (Block 0)"
proof -
  let ?step = "\<lambda>t ev u. fine_step t ev u \<and> lawful typed int32 ev" and ?new = "env0 100 7 Peer_closed"
  obtain s1 c where s1: "handle_event ?new (new_conn server0) server0 = Inr s1" "serves s1 7 0 0 c"
    "timer_map (sv_clock s1) 7 = Some 1"
    "timer_queue (sv_clock s1) = [\<lparr>tm_id = 7, tm_expire_time = 101, tm_callback = Some (Timer_task 7 TIME_OUT), tm_version = 1\<rparr>]"
    using server0_first by blast
  let ?t0 = "\<lparr>fn_server = server0, fn_loop = event_thread (new_conn server0), fn_task = Over, fn_callbacks = []\<rparr>"
  let ?k = "snd (handle_timer 101 (sv_clock s1))"
  let ?t2 = "\<lparr>fn_server = s1\<lparr>sv_clock := ?k\<rparr>, fn_loop = Over, fn_task = Over, fn_callbacks = [Timer_task 7 TIME_OUT]\<rparr>"
  let ?t3 = "\<lparr>fn_server = s1\<lparr>sv_clock := ?k\<rparr>, fn_loop = Over, fn_task = timer_task_thread 7 TIME_OUT, fn_callbacks = []\<rparr>"
  let ?t4 = "\<lparr>fn_server = s1\<lparr>sv_clock := ?k\<rparr>, fn_loop = event_thread (readable 7), fn_task = timer_task_thread 7 TIME_OUT, fn_callbacks = []\<rparr>"
  have typed: "typed ?new"
    using june3_stamp[THEN less_imp_le, THEN order_trans, of 100] by (simp add: typed_def log_times_ok_def env0_def int32_def)
  have a: "?step (fine_rest server0) (Fine_begin (new_conn server0)) ?t0"
    using fine_begin[of "fine_rest server0" "new_conn server0"] by (simp add: fine_rest_def int32_def server0_fields)
  have "alone (event_thread (new_conn server0)) ?new server0 = Inr s1" using s1(1) by (simp add: alone_event)
  from alone_loop_run[where E = typed and D = int32 and tk = Over and cbs = "[]", OF typed this] obtain es where
    b: "run ?step ?t0 es (fine_rest s1)" unfolding fine_rest_def by blast
  have "handle_timer 101 (sv_clock s1) = ([Timer_task 7 TIME_OUT], ?k)" using s1(3,4) by (simp add: handle_timer_def)
  then have c: "?step (fine_rest s1) (Fine_collect 101) ?t2"
    using fine_collect[of "fine_rest s1" 101 "[Timer_task 7 TIME_OUT]" ?k] by (simp add: fine_rest_def)
  have d: "?step ?t2 Fine_call ?t3" using fine_call[of ?t2 "Timer_task 7 TIME_OUT" "[]"] by simp
  have e: "?step ?t3 (Fine_begin (readable 7)) ?t4" using fine_begin[of ?t3 "readable 7"] by (simp add: int32_def)
  from run_trans[OF run_Cons[where step = ?step, OF c run_Cons[where step = ?step, OF d run_one[where step = ?step, OF e]]]
      run_Cons[where step = ?step, OF a b]]
  have r: "run ?step (fine_rest server0) ((Fine_begin (new_conn server0) # es) @ [Fine_collect 101, Fine_call, Fine_begin (readable 7)]) ?t4" .
  have "pool_get 7 (sv_pool (fn_server ?t4)) = Inr (Block 0)" using s1(2) by (simp add: serves_def)
  then show ?thesis by (intro exI[of _ ?t4] exI conjI) (rule r, simp_all)
qed

theorem accesses_keep_invariant_witness:
  "\<exists>es t. run fine_step (fine_rest server0) es t \<and> fn_loop t = event_thread (readable 7) \<and>
    fn_task t = timer_task_thread 7 TIME_OUT \<and> server_ok (fn_server t)"
proof -
  have start: "clean_start start0" by (auto simp: clean_start_def start0_def zeroed_def)
  from both_under_way obtain es t where r: "run fine_step (fine_rest server0) es t"
    "fn_loop t = event_thread (readable 7)" "fn_task t = timer_task_thread 7 TIME_OUT" using lawful_run by blast
  with accesses_keep_invariant[OF start server0_new r(1)] show ?thesis by blast
qed

text \<open>
  The next access of a thread, and behind it the signals that it raises or that arrive with it. The faults it may
  end with are those of \<open>F\<close>, and the end of the process exactly when one of the signals brings it about.
\<close>

definition next_access :: "int list \<Rightarrow> env \<Rightarrow> server \<Rightarrow> thread \<Rightarrow> (thread \<times> server) res" where
  "next_access sigs e s th =
     bind_res (case th of Over \<Rightarrow> Inr (Over, s) | Next f \<Rightarrow> f e s) (\<lambda>(th', s').
       bind_res (deliver sigs s') (\<lambda>s''. Inr (th', s'')))"

definition ends_in :: "fault set \<Rightarrow> int list \<Rightarrow> 'a res \<Rightarrow> bool" where
  "ends_in F sigs r =
     (case r of
        Inl f \<Rightarrow> f \<in> F \<or> (f = Exits \<and> (\<exists>sig \<in> set sigs. kills sig))
      | Inr _ \<Rightarrow> \<forall>sig \<in> set sigs. \<not> kills sig)"

lemma sound_next_access:
  assumes th: "sound E (ready_ok D) F th" and e: "E e" and s: "ready_ok D s"
  shows "ends_in F sigs (next_access sigs e s th)"
proof -
  have after: "ends_in F sigs (bind_res (deliver sigs s') (\<lambda>s''. Inr (th', s'')))" if "ready_ok D s'" for s' th'
  proof -
    have "dom (sv_handlers s') = {SIGINT, SIGTERM}" using that by (simp add: ready_ok_def server_ok_def)
    from deliver_result[OF this, of sigs] show ?thesis by (auto simp: ends_in_def split: sum.splits)
  qed
  show ?thesis
  proof (cases th)
    case Over
    then show ?thesis using after[OF s] by (simp add: next_access_def)
  next
    case (Next f)
    show ?thesis
    proof (cases "f e s")
      case (Inl x)
      then show ?thesis using sound_NextD(1)[OF th[unfolded Next] e s] by (simp add: next_access_def Next ends_in_def)
    next
      case (Inr x)
      obtain th' s' where x: "x = (th', s')" by (cases x)
      have "ready_ok D s'" using sound_NextD(2)[OF th[unfolded Next] e s Inr[unfolded x]] by simp
      then show ?thesis using after by (simp add: next_access_def Next Inr x)
    qed
  qed
qed

text \<open>C10. How a running server can fail. Whatever the two threads have done so far, access by access, a fault of the
  next access of the event loop is one of those listed, and a fault of the timer thread is the access to a dead
  connection; no loop runs for ever, no block is freed twice, nothing is read before it is written, and no system
  call throws. The process ends in no other way than by a signal: when one is raised by the access or arrives
  with it that is neither handled nor outlived by default, as SIGPIPE, which a \<open>send\<close> to a closed peer raises, the access
  never returns, and otherwise nothing exits.\<close>

theorem access_faults:
  assumes "clean_start a" and "Webserver_new a db = Inr s0"
    and "run (\<lambda>t ev u. fine_step t ev u \<and> lawful typed int32 ev) (fine_rest s0) es t" and "typed e"
  shows "ends_in {Bad_pointer, Out_of_bounds, Overflow_write, Assert_failed, Blocks, Throws Invalid_argument,
      Throws Out_of_range} sigs (next_access sigs e (fn_server t) (fn_loop t)) \<and>
    ends_in {Bad_pointer} sigs (next_access sigs e (fn_server t) (fn_task t))"
proof -
  have ok: "fine_ok typed int32 (read_fault \<union> {Blocks}) {Bad_pointer} t"
    by (rule c_threads.run_ok[OF assms(3) start_ready[OF assms(1,2)]])
  have eq: "read_fault \<union> {Blocks} = {Bad_pointer, Out_of_bounds, Overflow_write, Assert_failed, Blocks,
      Throws Invalid_argument, Throws Out_of_range}"
    by (auto simp: read_fault_def handler_fault_def)
  from ok show ?thesis
    unfolding fine_ok_def eq using sound_next_access[of typed int32, OF _ assms(4)] by blast
qed

text \<open>The callback of a connection is about to look it up while the event loop begins to read from it; a
  SIGPIPE ends either thread, a SIGTERM none.\<close>

theorem access_faults_witness:
  "\<exists>es t. run (\<lambda>t ev u. fine_step t ev u \<and> lawful typed int32 ev) (fine_rest server0) es t \<and>
    fn_loop t = event_thread (readable 7) \<and>
    ends_in {Bad_pointer} [SIGTERM] (next_access [SIGTERM] (env0 101 0 Peer_closed) (fn_server t) (timer_task_thread 7 TIME_OUT)) \<and>
    \<not> returns (next_access [SIGPIPE] (env0 101 0 Peer_closed) (fn_server t) (event_thread (readable 7)))"
proof -
  have start: "clean_start start0" by (auto simp: clean_start_def start0_def zeroed_def)
  have typed: "typed (env0 101 0 Peer_closed)"
    using june3_stamp[THEN less_imp_le, THEN order_trans, of 100] by (simp add: typed_def log_times_ok_def env0_def int32_def)
  from both_under_way obtain es t where r: "run (\<lambda>t ev u. fine_step t ev u \<and> lawful typed int32 ev) (fine_rest server0) es t"
    "fn_loop t = event_thread (readable 7)" "fn_task t = timer_task_thread 7 TIME_OUT" by blast
  note faults = access_faults[OF start server0_new r(1) typed]
  have "kills SIGPIPE" by (simp add: kills_def SIGPIPE_def SIGINT_def SIGTERM_def outlived_def)
  then have "\<not> returns (next_access [SIGPIPE] (env0 101 0 Peer_closed) (fn_server t) (fn_loop t))"
    using faults[of "[SIGPIPE]", THEN conjunct1] by (auto simp: ends_in_def returns_def split: sum.splits)
  with r faults[of "[SIGTERM]", THEN conjunct2] show ?thesis by auto
qed

end
