(* ===== verification/CloseRace.thy ===== *)
theory CloseRace
  imports ServerFine
begin

text \<open>
  The two threads close the same connection: the event loop because the client has gone, the timer thread because
  its callback had been collected before. \<open>needs\<close> is a thread that cannot end without releasing a given block,
  \<open>quiet\<close> one that no longer touches the pool. Nothing in the source keeps the two threads from both needing the block.
\<close>

section \<open>Threads that need a block\<close>

text \<open>What the two threads see of the connection and what neither of them changes.\<close>

definition still :: "server \<Rightarrow> server \<Rightarrow> bool" where
  "still s s' = (sv_tcp s' = sv_tcp s \<and> sv_pipe_fd s' = sv_pipe_fd s)"

definition in_view :: "int \<Rightarrow> nat \<Rightarrow> ConnectionInfo \<Rightarrow> server \<Rightarrow> bool" where
  "in_view fd a c s = (pool_get fd (sv_pool s) = Inr (Block a) \<and> client_fd s fd \<and> objs (sv_pool s) a \<in> {None, Some c})"

inductive quiet :: "thread \<Rightarrow> bool" where
  quiet_over: "quiet Over"
| quiet_next: "(\<And>e s t s'. f e s = Inr (t, s') \<Longrightarrow> still s s' \<and> sv_pool s' = sv_pool s \<and> quiet t) \<Longrightarrow> quiet (Next f)"

inductive needs :: "(env \<Rightarrow> bool) \<Rightarrow> int \<Rightarrow> nat \<Rightarrow> ConnectionInfo \<Rightarrow> thread \<Rightarrow> bool" for W fd a c where
  needs_next: "(\<And>e s t s'. W e \<Longrightarrow> in_view fd a c s \<Longrightarrow> f e s = Inr (t, s') \<Longrightarrow>
      still s s' \<and> (sv_pool s' = sv_pool s \<and> needs W fd a c t \<or>
        objs (sv_pool s) a = Some c \<and> sv_pool s' = pool_closed a (sv_pool s) \<and> quiet t)) \<Longrightarrow>
    needs W fd a c (Next f)"

inductive_cases quiet_NextE: "quiet (Next f)"
inductive_cases needs_NextE: "needs W fd a c (Next f)"
inductive_cases needs_OverE [elim!]: "needs W fd a c Over"

lemma quiet_NextD: "quiet (Next f) \<Longrightarrow> f e s = Inr (t, s') \<Longrightarrow> still s s' \<and> sv_pool s' = sv_pool s \<and> quiet t"
  by (erule quiet_NextE) blast

lemma needs_NextD:
  "needs W fd a c (Next f) \<Longrightarrow> W e \<Longrightarrow> in_view fd a c s \<Longrightarrow> f e s = Inr (t, s') \<Longrightarrow>
   still s s' \<and> (sv_pool s' = sv_pool s \<and> needs W fd a c t \<or>
     objs (sv_pool s) a = Some c \<and> sv_pool s' = pool_closed a (sv_pool s) \<and> quiet t)"
  by (erule needs_NextE) blast

lemma still_refl [simp]: "still s s"
  by (simp add: still_def)

lemma quiet_change:
  assumes "\<And>e s s'. g e s = Inr s' \<Longrightarrow> still s s' \<and> sv_pool s' = sv_pool s" and "quiet t"
  shows "quiet (change g t)"
  unfolding change_def act_def by (rule quiet_next) (use assms in \<open>auto simp: bind_res_eq_Inr\<close>)

lemma needs_act:
  assumes "\<And>e s x s'. W e \<Longrightarrow> in_view fd a c s \<Longrightarrow> g e s = Inr (x, s') \<Longrightarrow>
    still s s' \<and> sv_pool s' = sv_pool s \<and> needs W fd a c (k x)"
  shows "needs W fd a c (act g k)"
  unfolding act_def by (rule needs_next) (use assms in \<open>auto simp: bind_res_eq_Inr\<close>)

lemma needs_look:
  assumes "\<And>s x. in_view fd a c s \<Longrightarrow> g s = Inr x \<Longrightarrow> needs W fd a c (k x)"
  shows "needs W fd a c (look g k)"
  unfolding look_def by (rule needs_act) (use assms in \<open>auto simp: bind_res_eq_Inr\<close>)

lemma needs_change:
  assumes "\<And>e s s'. g e s = Inr s' \<Longrightarrow> still s s' \<and> sv_pool s' = sv_pool s" and "needs W fd a c t"
  shows "needs W fd a c (change g t)"
  unfolding change_def by (rule needs_act) (use assms in \<open>auto simp: bind_res_eq_Inr\<close>)

text \<open>What logging, epoll and the timers leave alone.\<close>

lemma side_still:
  "LOG_INFO msg e s = Inr s' \<Longrightarrow> still s s' \<and> sv_pool s' = sv_pool s"
  "LOG_ERROR msg e s = Inr s' \<Longrightarrow> still s s' \<and> sv_pool s' = sv_pool s"
  "still s (snd (ws_del_timer fd s)) \<and> sv_pool (snd (ws_del_timer fd s)) = sv_pool s"
  "still s (snd (ws_add_timer now fd timeout v s)) \<and> sv_pool (snd (ws_add_timer now fd timeout v s)) = sv_pool s"
  by (auto simp: still_def LOG_INFO_def LOG_ERROR_def log_at_def bind_res_eq_Inr ws_del_timer_def ws_add_timer_def
      case_prod_unfold Let_def)

lemma release_closes:
  "Release (Block a) p = Inr (closed, p') \<Longrightarrow> objs p a \<noteq> None \<and> p' = pool_closed a p"
  by (auto simp: Release_def bind_res_eq_Inr pool_object_def pool_closed_def split: option.splits)

lemma quiet_log: "quiet t \<Longrightarrow> quiet (change (LOG_INFO msg) t)" "quiet t \<Longrightarrow> quiet (change (LOG_ERROR msg) t)"
  by (auto intro: quiet_change dest: side_still(1,2))

lemma quiet_mod: "quiet t \<Longrightarrow> quiet (mod_timer_thread fd timeout t)"
proof -
  assume t: "quiet t"
  have "quiet (act (\<lambda>e s. let (v, c) = mod_timer_read fd (sv_clock s) in Inr (v, s\<lparr>sv_clock := c\<rparr>))
      (\<lambda>v. change (\<lambda>e s. Inr (snd (ws_add_timer (e_now e) fd timeout v s))) t))"
    unfolding act_def
    by (rule quiet_next) (auto simp: still_def case_prod_unfold Let_def side_still(4)[unfolded still_def] intro!: quiet_change t)
  then show ?thesis unfolding mod_timer_thread_def by (intro quiet_change) (auto simp: still_def)
qed

text \<open>Closing, from the lookup on.\<close>

lemma needs_close:
  assumes "\<And>r. quiet (k r)"
  shows "needs W fd a c (close_conn_thread fd k)"
  unfolding close_conn_thread_def
proof (rule needs_look)
  fix s conn assume "in_view fd a c s" "pool_get fd (sv_pool s) = Inr conn"
  then have conn: "conn = Block a" by (simp add: in_view_def)
  let ?log = "change (LOG_INFO (fd_msg ''close conn fd: '' fd [])) (k True)"
  have release: "needs W fd a c (change (\<lambda>e s. bind_res (Release conn (sv_pool s)) (\<lambda>(closed, p).
      Inr (s\<lparr>sv_pool := p, sv_closed := sv_closed s @ (case closed of Some fd \<Rightarrow> [fd] | None \<Rightarrow> [])\<rparr>))) ?log)"
    unfolding change_def act_def
    by (rule needs_next)
      (auto simp: bind_res_eq_Inr conn in_view_def still_def dest: release_closes intro!: quiet_log(1)[unfolded change_def act_def] assms)
  have del: "needs W fd a c (change (\<lambda>e s. Inr (snd (ws_del_timer fd s))) t)" if "needs W fd a c t" for t
    by (rule needs_change[OF _ that]) (auto simp: side_still(3))
  have ep: "needs W fd a c (change (\<lambda>e s. Inr (s\<lparr>sv_epoll := snd (ep_del (e_ctl e) fd (sv_epoll s))\<rparr>)) t)"
    if "needs W fd a c t" for t
    by (rule needs_change[OF _ that]) (auto simp: still_def)
  from ep[OF del[OF release]] show "needs W fd a c (if conn = Null_addr then k False else
      change (\<lambda>e s. Inr (s\<lparr>sv_epoll := snd (ep_del (e_ctl e) fd (sv_epoll s))\<rparr>)) (
      change (\<lambda>e s. Inr (snd (ws_del_timer fd s))) (
      change (\<lambda>e s. bind_res (Release conn (sv_pool s)) (\<lambda>(closed, p).
        Inr (s\<lparr>sv_pool := p, sv_closed := sv_closed s @ (case closed of Some fd \<Rightarrow> [fd] | None \<Rightarrow> [])\<rparr>))) ?log)))"
    by (simp add: conn)
qed

lemma needs_timer_task:
  assumes "\<And>e. W e \<Longrightarrow> ci_last_active_time c + timeout \<le> e_now e"
  shows "needs W fd a c (timer_task_thread fd timeout)"
  unfolding timer_task_thread_def
proof (rule needs_look)
  fix s conn assume "in_view fd a c s" "pool_get fd (sv_pool s) = Inr conn"
  then have conn: "conn = Block a" by (simp add: in_view_def)
  have close: "needs W fd a c (change (LOG_ERROR (fd_msg ''conn fd: '' fd '' timeout'')) (close_conn_thread fd (\<lambda>r. Over)))"
    by (rule needs_change[OF side_still(2)]) (auto intro: needs_close quiet_over)
  have "needs W fd a c (act (\<lambda>e s. bind_res (pool_object (sv_pool s) conn) (\<lambda>c. Inr (ci_last_active_time c + timeout \<le> e_now e, s)))
      (\<lambda>expired. if expired then change (LOG_ERROR (fd_msg ''conn fd: '' fd '' timeout'')) (close_conn_thread fd (\<lambda>r. Over)) else Over))"
  proof (rule needs_act)
    fix e s x s' assume w: "W e" and v: "in_view fd a c s"
      and g: "bind_res (pool_object (sv_pool s) conn) (\<lambda>c. Inr (ci_last_active_time c + timeout \<le> e_now e, s)) = Inr (x, s')"
    then have "s' = s" "x" using assms[OF w] by (auto simp: bind_res_eq_Inr conn pool_object_def in_view_def split: option.splits)
    then show "still s s' \<and> sv_pool s' = sv_pool s \<and> needs W fd a c
        (if x then change (LOG_ERROR (fd_msg ''conn fd: '' fd '' timeout'')) (close_conn_thread fd (\<lambda>r. Over)) else Over)"
      using close by simp
  qed
  then show "needs W fd a c (if conn = Null_addr then Over else act (\<lambda>e s. bind_res (pool_object (sv_pool s) conn)
      (\<lambda>c. Inr (ci_last_active_time c + timeout \<le> e_now e, s))) (\<lambda>expired. if expired
        then change (LOG_ERROR (fd_msg ''conn fd: '' fd '' timeout'')) (close_conn_thread fd (\<lambda>r. Over)) else Over))"
    by (simp add: conn)
qed

text \<open>A read that finds the stream at its end.\<close>

lemma needs_read:
  assumes "\<And>e. W e \<Longrightarrow> \<forall>avail. e_sock e \<noteq> Bytes avail" and "\<And>r. quiet (k r)"
  shows "needs W fd a c (deal_Read_thread fd k)"
  unfolding deal_Read_thread_def
proof (rule needs_look)
  fix s conn assume "in_view fd a c s" "pool_get fd (sv_pool s) = Inr conn"
  then have conn: "conn = Block a" by (simp add: in_view_def)
  let ?g = "\<lambda>e s c. bind_res (conn_read (e_sock e) (e_now e) c) (\<lambda>(ret, pending, c'). Inr (ret, c', s))"
  let ?close = "close_conn_thread fd (\<lambda>r. change (LOG_ERROR (fd_msg ''close conn fd: '' fd [])) (k False))"
  have close: "needs W fd a c ?close" by (intro needs_close quiet_log(2) assms(2))
  have "needs W fd a c (use_conn conn ?g (\<lambda>ret. if ret \<le> 0 then ?close else r ret))" for r :: "int \<Rightarrow> thread"
    unfolding use_conn_def
  proof (rule needs_act)
    fix e s x s' assume w: "W e" and v: "in_view fd a c s"
      and g: "bind_res (pool_object (sv_pool s) conn) (\<lambda>c. bind_res (?g e s c) (\<lambda>(x, c', s').
        Inr (x, s'\<lparr>sv_pool := pool_update (sv_pool s') conn c'\<rparr>))) = Inr (x, s')"
    have o: "objs (sv_pool s) a = Some c" using g v by (auto simp: bind_res_eq_Inr conn pool_object_def in_view_def split: option.splits)
    then have "pool_update (sv_pool s) conn c = sv_pool s" by (simp add: conn pool_update_def fun_upd_idem)
    moreover from g o have "x \<le> 0 \<and> s' = s\<lparr>sv_pool := pool_update (sv_pool s) conn c\<rparr>"
      using assms(1)[OF w] by (cases "e_sock e") (auto simp: conn pool_object_def conn_read_def Let_def)
    ultimately show "still s s' \<and> sv_pool s' = sv_pool s \<and> needs W fd a c (if x \<le> 0 then ?close else r x)"
      using close by (simp add: still_def)
  qed
  then show "needs W fd a c (if conn = Null_addr then k False else change (LOG_INFO (fd_msg ''deal_Read conn fd: '' fd []))
      (use_conn conn ?g (\<lambda>ret. if ret \<le> 0 then ?close else r ret)))" for r
    using needs_change[OF side_still(1)] by (simp add: conn)
qed

section \<open>The race\<close>

text \<open>An event at which the event loop closes the connection: a hang-up, or a read at the end of the stream.\<close>

definition closes_for :: "event \<Rightarrow> env \<Rightarrow> bool" where
  "closes_for ev e = (ev_events ev AND (EPOLLERR OR EPOLLHUP OR EPOLLRDHUP) \<noteq> 0 \<or>
     ev_events ev AND EPOLLIN \<noteq> 0 \<and> (\<forall>avail. e_sock e \<noteq> Bytes avail))"

lemma needs_event:
  assumes "\<And>e. W e \<Longrightarrow> closes_for ev e" and "ev_fd ev = fd"
    and "ev_events ev AND (EPOLLERR OR EPOLLHUP OR EPOLLRDHUP) \<noteq> 0 \<or> ev_events ev AND EPOLLIN \<noteq> 0"
  shows "needs W fd a c (event_thread ev)"
proof -
  have hup: "needs W fd a c (close_conn_thread fd (\<lambda>r. change (LOG_ERROR (fd_msg ''close conn fd: '' fd [])) Over))"
    by (intro needs_close quiet_log(2) quiet_over)
  have rd: "needs W fd a c (deal_Read_thread fd (\<lambda>r. mod_timer_thread fd TIME_OUT
      (change (LOG_INFO (fd_msg ''mod_timer conn fd: '' fd [])) Over)))"
    if "ev_events ev AND (EPOLLERR OR EPOLLHUP OR EPOLLRDHUP) = 0"
    by (intro needs_read quiet_mod quiet_log(1) quiet_over) (use assms(1) that in \<open>auto simp: closes_for_def\<close>)
  show ?thesis
    unfolding event_thread_def assms(2)
  proof (rule needs_look)
    fix s listen_fd assume v: "in_view fd a c s" and l: "get_listen_fd (sv_tcp s) = Inr listen_fd"
    then have "fd \<noteq> listen_fd" by (auto simp: in_view_def client_fd_def get_listen_fd_def split: if_splits)
    then show "needs W fd a c (if fd = listen_fd then
        deal_NewConn_thread (\<lambda>conn_fd. change (\<lambda>e s. Inr (snd (ws_add_timer (e_now e) conn_fd TIME_OUT 1 s)))
          (change (LOG_INFO (fd_msg ''add_timer conn fd: '' conn_fd [])) Over))
      else if ev_events ev AND (EPOLLERR OR EPOLLHUP OR EPOLLRDHUP) \<noteq> 0 then
        close_conn_thread fd (\<lambda>r. change (LOG_ERROR (fd_msg ''close conn fd: '' fd [])) Over)
      else look (\<lambda>s. case sv_pipe_fd s of None \<Rightarrow> Inl Bad_pointer | Some (pipe_read, pipe_write) \<Rightarrow> Inr pipe_read) (\<lambda>pipe_read.
        if fd = pipe_read \<and> ev_events ev AND EPOLLIN \<noteq> 0 then
          act del_signal (\<lambda>success. if \<not> success then change (LOG_ERROR ''del_signal failed'') Over else Over)
        else if ev_events ev AND EPOLLIN \<noteq> 0 then
          deal_Read_thread fd (\<lambda>r. mod_timer_thread fd TIME_OUT (change (LOG_INFO (fd_msg ''mod_timer conn fd: '' fd [])) Over))
        else Over))"
      using assms(3) hup rd by (auto intro!: needs_look simp: in_view_def client_fd_def split: option.splits)
  qed
qed

text \<open>Only the two threads move, and the environment keeps to \<open>W\<close>.\<close>

definition duel :: "(env \<Rightarrow> bool) \<Rightarrow> server_fine \<Rightarrow> fine_event \<Rightarrow> server_fine \<Rightarrow> bool" where
  "duel W t ev u = (fine_step t ev u \<and> (\<exists>e. W e \<and> ev \<in> {Fine_loop e, Fine_task e}))"

definition contested :: "(env \<Rightarrow> bool) \<Rightarrow> int \<Rightarrow> nat \<Rightarrow> ConnectionInfo \<Rightarrow> server_fine \<Rightarrow> bool" where
  "contested W fd a c t = (in_view fd a c (fn_server t) \<and>
     (needs W fd a c (fn_loop t) \<and> needs W fd a c (fn_task t) \<or>
      objs (sv_pool (fn_server t)) a = None \<and>
        (needs W fd a c (fn_loop t) \<and> quiet (fn_task t) \<or> quiet (fn_loop t) \<and> needs W fd a c (fn_task t))))"

lemma in_view_same: "still s s' \<Longrightarrow> sv_pool s' = sv_pool s \<Longrightarrow> in_view fd a c s \<Longrightarrow> in_view fd a c s'"
  by (simp add: in_view_def still_def client_fd_def)

lemma in_view_closed:
  "still s s' \<Longrightarrow> sv_pool s' = pool_closed a (sv_pool s) \<Longrightarrow> in_view fd a c s \<Longrightarrow>
   in_view fd a c s' \<and> objs (sv_pool s') a = None"
  by (simp add: in_view_def still_def client_fd_def pool_closed_def pool_get_def)

lemma contested_step:
  assumes "contested W fd a c t" and "duel W t ev u"
  shows "contested W fd a c u"
proof -
  have v: "in_view fd a c (fn_server t)" using assms(1) by (simp add: contested_def)
  obtain e where e: "W e" "ev = Fine_loop e \<or> ev = Fine_task e" and step: "fine_step t ev u"
    using assms(2) by (auto simp: duel_def)
  have moved: "in_view fd a c s' \<and> (needs W fd a c th \<longrightarrow>
      sv_pool s' = sv_pool (fn_server t) \<and> needs W fd a c rest \<or>
      objs (sv_pool (fn_server t)) a \<noteq> None \<and> objs (sv_pool s') a = None \<and> quiet rest) \<and>
    (quiet th \<longrightarrow> sv_pool s' = sv_pool (fn_server t) \<and> quiet rest)"
    if th: "th = Next f" "f e (fn_server t) = Inr (rest, s')" "needs W fd a c th \<or> quiet th" for th f rest s'
    using needs_NextD[of W fd a c f e "fn_server t" rest s'] quiet_NextD[of f e "fn_server t" rest s'] th e(1) v
      in_view_same[OF _ _ v, of s'] in_view_closed[OF _ _ v, of s'] by auto
  show ?thesis
    using step
  proof cases
    case (fine_loop f e' rest s')
    with e(2) moved[OF fine_loop(3)] assms(1) show ?thesis by (auto simp: contested_def)
  next
    case (fine_task f e' rest s')
    with e(2) moved[OF fine_task(3)] assms(1) show ?thesis by (auto simp: contested_def)
  qed (use e(2) in auto)
qed

interpretation contest: inductive_invariant "duel W" t0 "\<lambda>es t. contested W fd a c t0 \<longrightarrow> contested W fd a c t" for W t0 fd a c
  by unfold_locales (auto dest: contested_step)

section \<open>Properties\<close>

text \<open>C23. The client of an idle connection goes while the callback of the connection, already collected, runs in the timer
  thread. Both threads close the connection, and in no order of their accesses do both of them get to the end: as
  soon as one has, the object is dead and the other one is still to release it.\<close>

theorem double_close:
  assumes "pool_get fd (sv_pool s) = Inr (Block a)" and "objs (sv_pool s) a = Some c" and "client_fd s fd"
    and "ev_fd ev = fd" and "ev_events ev AND (EPOLLERR OR EPOLLHUP OR EPOLLRDHUP) \<noteq> 0 \<or> ev_events ev AND EPOLLIN \<noteq> 0"
    and "run (duel (\<lambda>e. closes_for ev e \<and> ci_last_active_time c + timeout \<le> e_now e))
      \<lparr>fn_server = s, fn_loop = event_thread ev, fn_task = timer_task_thread fd timeout, fn_callbacks = cbs\<rparr> es t"
  shows "fn_loop t \<noteq> Over \<and> fn_task t \<noteq> Over \<or>
    (fn_loop t \<noteq> Over \<or> fn_task t \<noteq> Over) \<and> pool_get fd (sv_pool (fn_server t)) = Inr (Block a) \<and>
      pool_object (sv_pool (fn_server t)) (Block a) = Inl Bad_pointer"
proof -
  let ?W = "\<lambda>e. closes_for ev e \<and> ci_last_active_time c + timeout \<le> e_now e"
  let ?t0 = "\<lparr>fn_server = s, fn_loop = event_thread ev, fn_task = timer_task_thread fd timeout, fn_callbacks = cbs\<rparr>"
  have "needs ?W fd a c (event_thread ev)" by (rule needs_event[OF _ assms(4,5)]) simp
  moreover have "needs ?W fd a c (timer_task_thread fd timeout)" by (rule needs_timer_task) simp
  ultimately have "contested ?W fd a c ?t0" using assms(1,2,3) by (simp add: contested_def in_view_def)
  then have "contested ?W fd a c t" using contest.run_I[OF assms(6), of fd a c] by blast
  then show ?thesis by (auto simp: contested_def in_view_def pool_object_def)
qed

text \<open>The event loop closes the connection, its callback still to come: that one has nothing left to release.\<close>

theorem double_close_witness:
  "\<exists>s es t. run (duel (\<lambda>e. closes_for \<lparr>ev_fd = 7, ev_events = EPOLLHUP\<rparr> e \<and> 101 \<le> e_now e))
      \<lparr>fn_server = s, fn_loop = event_thread \<lparr>ev_fd = 7, ev_events = EPOLLHUP\<rparr>, fn_task = timer_task_thread 7 TIME_OUT,
        fn_callbacks = []\<rparr> es t \<and>
    returns (pool_object (sv_pool s) (Block 0)) \<and> fn_loop t = Over \<and> fn_task t \<noteq> Over \<and>
    pool_object (sv_pool (fn_server t)) (Block 0) = Inl Bad_pointer"
proof -
  let ?ev = "\<lparr>ev_fd = 7, ev_events = EPOLLHUP\<rparr>" and ?e = "env0 101 0 Peer_closed"
  let ?c = "ConnectionInfo_new\<lparr>ci_fd := 7, ci_last_active_time := 100, ci_addr := \<lparr>sin_addr = 1, sin_port = 2\<rparr>\<rparr>"
  let ?W = "\<lambda>e. closes_for ?ev e \<and> ci_last_active_time ?c + TIME_OUT \<le> e_now e"
  obtain s1 where s1: "serves s1 7 0 0 ?c" "listening s1" "client_fd s1 7" "log_ready ?e s1" using server0_first by blast
  have c: "pool_get 7 (sv_pool s1) = Inr (Block 0)" "objs (sv_pool s1) 0 = Some ?c" using s1(1) by (simp_all add: serves_def)
  have fd: "int32 7" by (simp add: int32_def)
  have hup: "EPOLLHUP AND (EPOLLERR OR EPOLLHUP OR EPOLLRDHUP) \<noteq> 0" by (simp add: EPOLLHUP_def EPOLLERR_def EPOLLRDHUP_def)
  have obj: "pool_object (sv_pool s1) (Block 0) = Inr ?c" using c(2) by (simp add: pool_object_def)
  obtain s2 where s2: "close_conn ?e 7 s1 = Inr (True, s2)" "log_ready ?e s2"
    using close_conn_returns[OF c(1) obj s1(4) fd] by blast
  have "handle_event ?e ?ev s1 = LOG_ERROR (fd_msg ''close conn fd: '' 7 []) ?e s2"
    using s1(2,3) hup by (simp add: handle_event_def listening_def client_fd_def s2(1))
  also obtain s3 where "\<dots> = Inr s3" using LOG_ok[OF s2(2), of "fd_msg ''close conn fd: '' 7 []"] fd by auto
  finally have "alone (event_thread ?ev) ?e s1 = Inr s3" by (simp add: alone_event)
  let ?at = "\<lambda>th s. \<lparr>fn_server = s, fn_loop = th, fn_task = timer_task_thread 7 TIME_OUT, fn_callbacks = []\<rparr>"
  have W: "?W ?e" using hup by (simp add: closes_for_def TIME_OUT_def env0_def)
  have move: "duel ?W (?at (Next f) s) (Fine_loop ?e) (?at t s')" if "f ?e s = Inr (t, s')" for f s t s'
    using fine_loop[of "?at (Next f) s" f ?e t s'] that W by (auto simp: duel_def)
  from alone_is_run[where step = "duel ?W" and place = ?at, OF move \<open>alone _ _ _ = _\<close>] obtain es where
    r: "run (duel ?W) (?at (event_thread ?ev) s1) es (?at Over s3)" by blast
  have "pool_object (sv_pool s3) (Block 0) = Inl Bad_pointer" "timer_task_thread 7 TIME_OUT \<noteq> Over"
    using double_close[OF c s1(3) _ _ r] hup by simp_all
  with r obj show ?thesis by (intro exI[of _ s1] exI[of _ es] exI[of _ "?at Over s3"]) (simp add: TIME_OUT_def)
qed

end
