(* ===== verification/TimerThread.thy ===== *)
theory TimerThread
  imports TimerClock
begin

text \<open>
  The timer thread, the lambda in the constructor of \<open>Thread_clockr\<close> (\<open>timer/timer.cpp\<close>), and the destructor that
  stops and joins it. A position of the thread (\<open>thread_pc\<close>) is a point where another thread can run: the tests of the
  flag, the critical sections, and the two waits. A notification reaches the thread only while it is parked. The clock
  advances in whole seconds, at any moment. The calls of the server are those of \<open>clock_step\<close>; a callback
  may delete a timer, as \<open>timer_task\<close> does when it closes a connection.
\<close>

datatype 'cb thread_pc =
    Loop
  | Look
  | Decide int
  | Sleep_check int
  | Parked_until int
  | Wait_check
  | Parked
  | Handle
  | Handling
  | Running "'cb list"
  | Ended

datatype dtor_pc = Alive | Cleared | Stopping | Notified | Joined

record 'cb threaded =
  ts_clock :: "'cb clock"
  ts_mod :: "'cb mod_pc"
  ts_pc :: "'cb thread_pc"
  ts_notified :: bool
  ts_dtor :: dtor_pc
  ts_now :: int

section \<open>The thread\<close>

text \<open>
  One move of the thread; \<open>None\<close> when it is parked or has ended. \<open>wait_for\<close> and \<open>wait\<close> test their predicate
  first and after every wake-up; the predicate of \<open>wait_for\<close> is the flag alone. \<open>act\<close> is what a callback does to the timers.
\<close>

definition thread_move :: "('cb \<Rightarrow> 'cb clock \<Rightarrow> 'cb clock) \<Rightarrow> 'cb threaded \<Rightarrow> 'cb threaded option" where
  "thread_move act s =
     (let c = ts_clock s; now = ts_now s; stop = stop_flag c
      in case ts_pc s of
           Loop \<Rightarrow> Some (s\<lparr>ts_pc := if stop then Ended else Look\<rparr>)
         | Look \<Rightarrow> Some (s\<lparr>ts_pc := Decide (wait_time now c)\<rparr>)
         | Decide w \<Rightarrow>
             Some (s\<lparr>ts_pc := if stop then Handle
                             else if 0 < w then Sleep_check (now + w)
                             else if timer_queue c = [] then Wait_check else Handle\<rparr>)
         | Sleep_check d \<Rightarrow>
             Some (s\<lparr>ts_pc := if stop \<or> d \<le> now then Handle else Parked_until d, ts_notified := False\<rparr>)
         | Parked_until d \<Rightarrow>
             if ts_notified s \<or> d \<le> now then Some (s\<lparr>ts_pc := Sleep_check d, ts_notified := False\<rparr>) else None
         | Wait_check \<Rightarrow>
             Some (s\<lparr>ts_pc := if stop \<or> timer_queue c \<noteq> [] then Handle else Parked, ts_notified := False\<rparr>)
         | Parked \<Rightarrow>
             if ts_notified s then Some (s\<lparr>ts_pc := Wait_check, ts_notified := False\<rparr>) else None
         | Handle \<Rightarrow>
             Some (s\<lparr>ts_pc := if stop then Loop else Handling\<rparr>)
         | Handling \<Rightarrow>
             let (cbs, c') = handle_timer now c in Some (s\<lparr>ts_pc := Running cbs, ts_clock := c'\<rparr>)
         | Running cbs \<Rightarrow>
             (case cbs of
                [] \<Rightarrow> Some (s\<lparr>ts_pc := Loop\<rparr>)
              | cb # rest \<Rightarrow> Some (s\<lparr>ts_pc := Running rest, ts_clock := act cb c\<rparr>))
         | Ended \<Rightarrow> None)"

definition callbacks_ok :: "('cb \<Rightarrow> 'cb clock \<Rightarrow> 'cb clock) \<Rightarrow> bool" where
  "callbacks_ok act = (\<forall>cb c. act cb c = c \<or> (\<exists>i. act cb c = snd (del_timer i c)))"

text \<open>\<open>notify_one\<close> and \<open>notify_all\<close>: a thread that is not parked misses it.\<close>

definition notify :: "'cb threaded \<Rightarrow> 'cb threaded" where
  "notify s = (case ts_pc s of
     Parked \<Rightarrow> s\<lparr>ts_notified := True\<rparr> | Parked_until d \<Rightarrow> s\<lparr>ts_notified := True\<rparr> | _ \<Rightarrow> s)"

definition notifies :: "'cb clock \<Rightarrow> 'cb clock_event \<Rightarrow> bool" where
  "notifies c e = (case e of
     Ev_add _ _ _ _ _ \<Rightarrow> True | Ev_push _ \<Rightarrow> True | Ev_del i \<Rightarrow> timer_map c i \<noteq> None | _ \<Rightarrow> False)"

text \<open>A call of the server happens at the current time and is not the work of the timer thread.\<close>

definition server_call :: "int \<Rightarrow> 'cb clock_event \<Rightarrow> bool" where
  "server_call now e = (case e of
     Ev_add t _ _ _ _ \<Rightarrow> t = now | Ev_push t \<Rightarrow> t = now | Ev_fire _ _ \<Rightarrow> False | _ \<Rightarrow> True)"

text \<open>The constructor, and the destructor up to its notification.\<close>

definition thread_start :: "int \<Rightarrow> 'cb threaded" where
  "thread_start now = \<lparr>ts_clock = Thread_clockr_new, ts_mod = Idle, ts_pc = Loop, ts_notified = False,
     ts_dtor = Alive, ts_now = now\<rparr>"

definition dtor_move :: "'cb threaded \<Rightarrow> 'cb threaded option" where
  "dtor_move s =
     (case ts_dtor s of
        Alive \<Rightarrow>
          if ts_mod s = Idle
          then Some (s\<lparr>ts_clock := if timer_queue (ts_clock s) \<noteq> [] then snd (del_all_timer (ts_clock s)) else ts_clock s,
                      ts_dtor := Cleared\<rparr>) else None
      | Cleared \<Rightarrow> Some (s\<lparr>ts_clock := (ts_clock s)\<lparr>stop_flag := True\<rparr>, ts_dtor := Stopping\<rparr>)
      | Stopping \<Rightarrow> Some (notify (s\<lparr>ts_dtor := Notified\<rparr>))
      | Notified \<Rightarrow> if ts_pc s = Ended then Some (s\<lparr>ts_dtor := Joined\<rparr>) else None
      | Joined \<Rightarrow> None)"

lemma dtor_is_clock_stop:
  "ts_dtor s = Alive \<Longrightarrow> ts_mod s = Idle \<Longrightarrow>
   \<exists>s1 s2. dtor_move s = Some s1 \<and> dtor_move s1 = Some s2 \<and> ts_clock s2 = clock_stop (ts_clock s)"
  by (auto simp: dtor_move_def clock_stop_def)

datatype 'cb thread_event = Tick | Server "'cb clock_event" | Thread | Destructor

inductive thread_step :: "'cb threaded \<Rightarrow> 'cb thread_event \<Rightarrow> 'cb threaded \<Rightarrow> bool" where
  tick: "thread_step s Tick (s\<lparr>ts_now := ts_now s + 1\<rparr>)"
| server: "clock_step (ts_clock s, ts_mod s) e (c, m) \<Longrightarrow> server_call (ts_now s) e \<Longrightarrow> ts_dtor s = Alive \<Longrightarrow>
    t = s\<lparr>ts_clock := c, ts_mod := m\<rparr> \<Longrightarrow> thread_step s (Server e) (if notifies (ts_clock s) e then notify t else t)"
| thread: "thread_move act s = Some t \<Longrightarrow> callbacks_ok act \<Longrightarrow> thread_step s Thread t"
| destructor: "dtor_move s = Some t \<Longrightarrow> thread_step s Destructor t"

inductive_cases thread_stepE: "thread_step s e t"

section \<open>No lost wake-up\<close>

text \<open>
  The flag says how far the destructor is. A parked thread that has something to do, a timer or the end, has been
  notified.
\<close>

definition thread_inv :: "'cb threaded \<Rightarrow> bool" where
  "thread_inv s =
     ((stop_flag (ts_clock s) \<longleftrightarrow> ts_dtor s \<in> {Stopping, Notified, Joined}) \<and>
      (ts_pc s = Parked \<and> timer_queue (ts_clock s) \<noteq> [] \<longrightarrow> ts_notified s) \<and>
      (ts_dtor s \<in> {Notified, Joined} \<and> (ts_pc s = Parked \<or> (\<exists>d. ts_pc s = Parked_until d)) \<longrightarrow> ts_notified s) \<and>
      (ts_dtor s = Joined \<longrightarrow> ts_pc s = Ended))"

lemma notify_fields [simp]:
  "ts_clock (notify s) = ts_clock s" "ts_mod (notify s) = ts_mod s" "ts_pc (notify s) = ts_pc s"
  "ts_dtor (notify s) = ts_dtor s" "ts_now (notify s) = ts_now s"
  by (simp_all add: notify_def split: thread_pc.splits)

lemma notify_parked:
  "ts_pc s = Parked \<Longrightarrow> ts_notified (notify s)" "ts_pc s = Parked_until d \<Longrightarrow> ts_notified (notify s)"
  "ts_notified s \<Longrightarrow> ts_notified (notify s)"
  by (simp_all add: notify_def split: thread_pc.splits)

lemma handle_timer_flag: "handle_timer now c = (cbs, c') \<Longrightarrow> stop_flag c' = stop_flag c"
  by (auto simp: handle_timer_def split: prod.splits)

lemma callback_keeps:
  "callbacks_ok act \<Longrightarrow> stop_flag (act cb c) = stop_flag c \<and> timer_queue (act cb c) = timer_queue c"
  unfolding callbacks_ok_def by (drule spec[of _ cb], drule spec[of _ c]) (auto simp: del_timer_def split: option.splits)

text \<open>A call of the server keeps the flag, and a call that adds to an empty queue notifies.\<close>

lemma server_call_effect:
  assumes "clock_step (c, m) e (c', m')" and "server_call now e"
  shows "stop_flag c' = stop_flag c \<and> (timer_queue c' \<noteq> [] \<longrightarrow> timer_queue c \<noteq> [] \<or> notifies c e)"
  using assms
  by (cases rule: clock_step.cases)
    (auto simp: server_call_def notifies_def add_timer_def Let_def del_all_timer_def mod_timer_bump_def mod_timer_read_def
      del_timer_def split: option.splits)

lemma thread_inv_start: "thread_inv (thread_start now)"
  by (simp add: thread_inv_def thread_start_def Thread_clockr_new_def)

lemma thread_inv_move:
  assumes "thread_inv s" and "thread_move act s = Some t" and "callbacks_ok act"
  shows "thread_inv t"
  using assms callback_keeps[OF assms(3)]
  by (cases "ts_pc s")
    (auto simp: thread_inv_def thread_move_def Let_def handle_timer_flag split: if_splits list.splits prod.splits)

lemma thread_inv_server:
  assumes "thread_inv s" and "clock_step (ts_clock s, ts_mod s) e (c, m)" and "server_call (ts_now s) e"
    and "ts_dtor s = Alive"
  shows "thread_inv (if notifies (ts_clock s) e then notify (s\<lparr>ts_clock := c, ts_mod := m\<rparr>) else s\<lparr>ts_clock := c, ts_mod := m\<rparr>)"
  using assms(1,4) server_call_effect[OF assms(2,3)] by (auto simp: thread_inv_def notify_parked)

lemma thread_inv_dtor: "thread_inv s \<Longrightarrow> dtor_move s = Some t \<Longrightarrow> thread_inv t"
  by (cases "ts_dtor s")
    (auto simp: thread_inv_def dtor_move_def del_all_timer_def notify_parked split: if_splits)

lemma thread_inv_step:
  assumes "thread_inv s" and "thread_step s e t"
  shows "thread_inv t"
  using assms(2)
proof cases
  case tick
  with assms(1) show ?thesis by (simp add: thread_inv_def)
next
  case (server ev c m u)
  show ?thesis unfolding server(2,6) by (rule thread_inv_server[OF assms(1) server(3-5)])
next
  case (thread act)
  show ?thesis by (rule thread_inv_move[OF assms(1) thread(2,3)])
next
  case destructor
  show ?thesis by (rule thread_inv_dtor[OF assms(1) destructor(2)])
qed

interpretation timer_thread: inductive_invariant thread_step "thread_start now" "\<lambda>es. thread_inv" for now
proof unfold_locales
  fix es and s :: "'a threaded" and e t assume "thread_inv s" "thread_step s e t"
  then show "thread_inv t" by (rule thread_inv_step)
qed (rule thread_inv_start)

section \<open>How far the thread is from its end\<close>

fun pc_steps :: "'cb thread_pc \<Rightarrow> nat \<Rightarrow> nat" where
  "pc_steps Ended n = 0"
| "pc_steps Loop n = 1"
| "pc_steps Handle n = 2"
| "pc_steps (Running cbs) n = 2 + length cbs"
| "pc_steps Handling n = 3 + n"
| "pc_steps (Sleep_check d) n = 3"
| "pc_steps Wait_check n = 3"
| "pc_steps (Parked_until d) n = 4"
| "pc_steps Parked n = 4"
| "pc_steps (Decide w) n = 4"
| "pc_steps Look n = 5"

text \<open>A thread that has passed its last test of the flag still runs the callbacks that are due.\<close>

definition steps_left :: "'cb threaded \<Rightarrow> nat" where
  "steps_left s = pc_steps (ts_pc s) (length (timer_queue (ts_clock s)))"

lemma expire_loop_callbacks: "length (fst (expire_loop now q m)) \<le> length q"
  by (induction now q m rule: expire_loop.induct) (auto simp: case_prod_unfold Let_def fun_upd_def split: option.splits)

lemma handle_timer_callbacks: "handle_timer now c = (cbs, c') \<Longrightarrow> length cbs \<le> length (timer_queue c)"
  using expire_loop_callbacks[of now "timer_queue c" "timer_map c"] by (auto simp: handle_timer_def split: prod.splits)

text \<open>A thread of a stopped clock moves towards its end.\<close>

lemma move_decreases:
  assumes "stop_flag (ts_clock s)" and "thread_move act s = Some t"
  shows "steps_left t < steps_left s"
  using assms
  by (cases "ts_pc s")
    (auto simp: steps_left_def thread_move_def Let_def split: if_splits list.splits prod.splits dest!: handle_timer_callbacks)

lemma notified_moves:
  assumes "thread_inv s" and "ts_dtor s = Notified" and "ts_pc s \<noteq> Ended"
  shows "\<exists>t. thread_move act s = Some t \<and> ts_dtor t = Notified"
  using assms by (cases "ts_pc s") (auto simp: thread_inv_def thread_move_def Let_def split: list.splits prod.splits)

fun thread_run :: "nat \<Rightarrow> ('cb \<Rightarrow> 'cb clock \<Rightarrow> 'cb clock) \<Rightarrow> 'cb threaded \<Rightarrow> 'cb threaded" where
  "thread_run 0 act s = s"
| "thread_run (Suc n) act s = (case thread_move act s of None \<Rightarrow> s | Some t \<Rightarrow> thread_run n act t)"

lemma thread_run_ends:
  assumes "thread_inv s" and "ts_dtor s = Notified" and "callbacks_ok act" and "steps_left s \<le> n"
  shows "ts_pc (thread_run n act s) = Ended"
  using assms
proof (induction n arbitrary: s)
  case 0
  then show ?case by (cases "ts_pc s") (simp_all add: steps_left_def)
next
  case (Suc n)
  show ?case
  proof (cases "ts_pc s = Ended")
    case True
    then show ?thesis by (simp add: thread_move_def)
  next
    case False
    then obtain t where t: "thread_move act s = Some t" "ts_dtor t = Notified"
      using notified_moves[OF Suc.prems(1,2)] by blast
    have "stop_flag (ts_clock s)" using Suc.prems(1,2) by (simp add: thread_inv_def)
    from move_decreases[OF this t(1)] Suc.prems(4) have "steps_left t \<le> n" by simp
    from Suc.IH[OF thread_inv_move[OF Suc.prems(1) t(1) Suc.prems(3)] t(2) Suc.prems(3) this] t(1) show ?thesis by simp
  qed
qed

section \<open>While the thread sleeps\<close>

lemma step_mono:
  assumes "thread_step s e t"
  shows "ts_now s \<le> ts_now t \<and> (stop_flag (ts_clock s) \<longrightarrow> stop_flag (ts_clock t))"
  using assms
proof cases
  case (server ev c m u)
  show ?thesis unfolding server(2,6) using server_call_effect[OF server(3,4)] by simp
next
  case (thread act)
  then show ?thesis using callback_keeps[OF thread(3)]
    by (auto simp: thread_move_def Let_def handle_timer_flag split: thread_pc.splits if_splits list.splits prod.splits)
next
  case destructor
  then show ?thesis by (auto simp: dtor_move_def del_all_timer_def split: dtor_pc.splits if_splits)
qed simp

lemma sleeping_step:
  assumes "thread_step s e t" and "ts_pc s \<in> {Parked_until d, Sleep_check d}"
    and "\<not> stop_flag (ts_clock s)" and "ts_now s < d"
  shows "ts_pc t \<in> {Parked_until d, Sleep_check d}"
  using assms(1)
proof cases
  case (server ev c m u)
  then show ?thesis using assms(2) by simp
next
  case (thread act)
  with assms(2-4) show ?thesis by (auto simp: thread_move_def Let_def split: if_splits)
next
  case destructor
  with assms(2) show ?thesis by (auto simp: dtor_move_def split: dtor_pc.splits if_splits)
qed (use assms(2) in simp)

section \<open>Properties\<close>

text \<open>C20. The destructor's join returns. Once it has notified, and whatever happened before, the thread is never
  parked for good: it can move until it has ended, in at most \<open>steps_left\<close> moves, and nothing
  that other threads do takes it further away from its end.\<close>

theorem timer_thread_stops:
  assumes "run thread_step (thread_start now) es s" and "ts_dtor s = Notified" and "callbacks_ok act"
  shows "ts_pc (thread_run (steps_left s) act s) = Ended \<and>
    (ts_pc s \<noteq> Ended \<longrightarrow> thread_move act s \<noteq> None) \<and>
    (\<forall>e t. thread_step s e t \<longrightarrow> steps_left t \<le> steps_left s)"
proof (intro conjI allI impI)
  have I: "thread_inv s" by (rule timer_thread.run_I[OF assms(1)])
  then have stop: "stop_flag (ts_clock s)" using assms(2) by (simp add: thread_inv_def)
  show "ts_pc (thread_run (steps_left s) act s) = Ended"
    by (rule thread_run_ends[OF I assms(2,3) order_refl])
  show "thread_move act s \<noteq> None" if "ts_pc s \<noteq> Ended" using notified_moves[OF I assms(2) that] by auto
  fix e t assume "thread_step s e t"
  then show "steps_left t \<le> steps_left s"
  proof cases
    case (thread act')
    then show ?thesis using move_decreases[OF stop] by (simp add: less_imp_le)
  next
    case destructor
    then show ?thesis using assms(2) by (auto simp: dtor_move_def steps_left_def split: if_splits)
  qed (use assms(2) in \<open>simp_all add: steps_left_def\<close>)
qed

text \<open>A thread that parked on an empty queue before the destructor ran.\<close>

theorem timer_thread_stops_witness:
  "\<exists>es s. run thread_step (thread_start 0 :: string threaded) es s \<and> ts_pc s = Parked \<and>
    ts_pc (thread_run 4 (\<lambda>_ c. c) s) = Ended"
proof -
  define s where "s pc n d c = \<lparr>ts_clock = c :: string clock, ts_mod = Idle, ts_pc = pc, ts_notified = n, ts_dtor = d, ts_now = 0\<rparr>"
    for pc n d c
  note fields = s_def thread_move_def dtor_move_def notify_def Thread_clockr_new_def wait_time_def
  let ?c = "Thread_clockr_new :: string clock" and ?act = "\<lambda>_ c. c"
  let ?stopped = "?c\<lparr>stop_flag := True\<rparr>"
  have ok: "callbacks_ok ?act" by (simp add: callbacks_ok_def)
  have m: "thread_step (s Loop False Alive ?c) Thread (s Look False Alive ?c)"
    "thread_step (s Look False Alive ?c) Thread (s (Decide 0) False Alive ?c)"
    "thread_step (s (Decide 0) False Alive ?c) Thread (s Wait_check False Alive ?c)"
    "thread_step (s Wait_check False Alive ?c) Thread (s Parked False Alive ?c)"
    by (rule thread_step.thread[OF _ ok]; simp add: fields)+
  have d: "thread_step (s Parked False Alive ?c) Destructor (s Parked False Cleared ?c)"
    "thread_step (s Parked False Cleared ?c) Destructor (s Parked False Stopping ?stopped)"
    "thread_step (s Parked False Stopping ?stopped) Destructor (s Parked True Notified ?stopped)"
    by (rule thread_step.destructor; simp add: fields)+
  note c = run_Cons[where step = thread_step]
  have "run thread_step (s Loop False Alive ?c) [Thread, Thread, Thread, Thread, Destructor, Destructor, Destructor]
      (s Parked True Notified ?stopped)"
    by (rule c[OF m(1)], rule c[OF m(2)], rule c[OF m(3)], rule c[OF m(4)], rule c[OF d(1)], rule c[OF d(2)],
        rule run_one[where step = thread_step, OF d(3)])
  moreover have "s Loop False Alive ?c = thread_start 0" by (simp add: s_def thread_start_def)
  ultimately have r: "run thread_step (thread_start 0) [Thread, Thread, Thread, Thread, Destructor, Destructor, Destructor]
      (s Parked True Notified ?stopped)" by simp
  have "ts_pc (s Parked True Notified ?stopped) = Parked" "ts_dtor (s Parked True Notified ?stopped) = Notified"
    by (simp_all add: s_def)
  moreover have "steps_left (s Parked True Notified ?stopped) = 4" by (simp add: steps_left_def s_def)
  ultimately show ?thesis using timer_thread_stops[OF r _ ok] r by metis
qed

text \<open>C40. While the thread sleeps until \<open>d\<close>, nothing but the stop flag ends its sleep: timers that are added in
  the meantime and expire earlier notify it in vain, and are not handled before \<open>d\<close>.\<close>

theorem sleeper_ignores_timers:
  assumes "run thread_step s es s'" and "ts_pc s = Parked_until d"
    and "\<not> stop_flag (ts_clock s')" and "ts_now s' < d"
  shows "ts_pc s' \<in> {Parked_until d, Sleep_check d}"
  using assms
proof (induction rule: run.induct)
  case (run_event es t e u)
  have "ts_now t < d" "\<not> stop_flag (ts_clock t)" using step_mono[OF run_event.hyps(2)] run_event.prems by auto
  with run_event.IH run_event.prems(1) sleeping_step[OF run_event.hyps(2), of d] show ?case by blast
qed simp

text \<open>A timer added at 0 for second 1 is still in the queue at second 2, and the thread is parked until 10.\<close>

theorem sleeper_ignores_timers_witness:
  "\<exists>s es s'. run thread_step s es s' \<and> ts_pc s = Parked_until 10 \<and> ts_now s' = 2 \<and>
    (\<exists>t \<in> set (timer_queue (ts_clock s')). tm_expire_time t = 1 \<and> tm_callback t = Some ''early'') \<and>
    ts_pc s' \<in> {Parked_until 10, Sleep_check 10}"
proof -
  let ?c1 = "snd (add_timer 0 5 10 (Some ''late'') 1 Thread_clockr_new)"
  let ?c2 = "snd (add_timer 0 6 1 (Some ''early'') 1 ?c1)"
  let ?s = "\<lparr>ts_clock = ?c1, ts_mod = Idle, ts_pc = Parked_until 10, ts_notified = False, ts_dtor = Alive, ts_now = 0\<rparr>"
  let ?e = "Ev_add 0 6 1 (Some ''early'') 1"
  let ?s1 = "?s\<lparr>ts_clock := ?c2, ts_notified := True\<rparr>"
  have "clock_step (ts_clock ?s, ts_mod ?s) ?e (?c2, Idle)" using clock_step.add[of ?c1] by simp
  from thread_step.server[OF this _ _ refl] have a: "thread_step ?s (Server ?e) ?s1"
    by (simp add: server_call_def notifies_def notify_def)
  have t: "thread_step ?s1 Tick (?s1\<lparr>ts_now := 1\<rparr>)" "thread_step (?s1\<lparr>ts_now := 1\<rparr>) Tick (?s1\<lparr>ts_now := 2\<rparr>)"
    using thread_step.tick[of ?s1] thread_step.tick[of "?s1\<lparr>ts_now := 1\<rparr>"] by simp_all
  have r: "run thread_step ?s [Server ?e, Tick, Tick] (?s1\<lparr>ts_now := 2\<rparr>)"
    by (rule run_Cons[where step = thread_step, OF a], rule run_Cons[where step = thread_step, OF t(1)],
        rule run_one[where step = thread_step, OF t(2)])
  have "\<not> stop_flag (ts_clock (?s1\<lparr>ts_now := 2\<rparr>))" by (simp add: add_timer_def Thread_clockr_new_def Let_def)
  from sleeper_ignores_timers[OF r _ this, of 10]
  have "ts_pc (?s1\<lparr>ts_now := 2\<rparr>) \<in> {Parked_until 10, Sleep_check 10}" by simp
  moreover have "\<exists>t \<in> set (timer_queue (ts_clock (?s1\<lparr>ts_now := 2\<rparr>))). tm_expire_time t = 1 \<and> tm_callback t = Some ''early''"
    by (simp add: add_timer_def Let_def Thread_clockr_new_def)
  moreover have "ts_pc ?s = Parked_until 10" "ts_now (?s1\<lparr>ts_now := 2\<rparr>) = 2" by simp_all
  ultimately show ?thesis using r by blast
qed

end
