(* ===== verification/PoolThreads.thy ===== *)
theory PoolThreads
  imports ThreadPool
begin

text \<open>
  The workers of the thread pool and the condition variable they wait on (\<open>utils/threads_pool.{h,cpp}\<close>), at the
  grain at which wake-ups can get lost: \<open>enqueue\<close> pushes under the lock and notifies after it, \<open>shutdown\<close> sets the
  flag under the lock, notifies all, and then joins the workers one by one. \<open>wp_asleep\<close> holds the workers parked in
  the condition variable; a parked worker that is notified, or wakes up by itself, evaluates the predicate again
  under the lock, as a worker does that has just come to \<open>wait\<close>. Forgetting the condition variable gives
  \<open>worker_step\<close> (\<open>waiting_refines\<close>), so that the facts of \<open>ThreadPool\<close> hold of these runs as well.
\<close>

datatype shutdown_pc = Open | Flagged | Joining nat

record waiting_pool =
  wp_pool :: thread_pool
  wp_asleep :: "nat set"
  wp_pending :: nat
  wp_shut :: shutdown_pc

datatype waiting_event =
    Locked thread_event
  | Sleep nat
  | Spurious nat
  | Notify "nat option"
  | Notify_all
  | Join nat

section \<open>Steps\<close>

definition waiting_new :: "nat \<Rightarrow> waiting_pool" where
  "waiting_new threadCount =
     \<lparr>wp_pool = pthreads_new threadCount, wp_asleep = {}, wp_pending = 0, wp_shut = Open\<rparr>"

text \<open>A worker that is neither running a task nor parked nor gone: it is about to take the lock.\<close>

definition at_wait :: "waiting_pool \<Rightarrow> nat \<Rightarrow> bool" where
  "at_wait s w = (w < length (workers (wp_pool s)) \<and> workers (wp_pool s) ! w = Idle_worker \<and> w \<notin> wp_asleep s)"

text \<open>\<open>enqueue\<close> up to the end of its critical section; the notification is still to come.\<close>

definition submit :: "nat \<Rightarrow> waiting_pool \<Rightarrow> waiting_event \<times> waiting_pool" where
  "submit task s =
     (case enqueue task (wp_pool s) of
        Inl e \<Rightarrow> (Locked (Enqueue_refused task), s)
      | Inr p \<Rightarrow> (Locked (Enqueue task), s\<lparr>wp_pool := p, wp_pending := Suc (wp_pending s)\<rparr>))"

text \<open>The next move of a worker; \<open>None\<close> when it is parked or gone.\<close>

definition worker_move :: "nat \<Rightarrow> waiting_pool \<Rightarrow> (waiting_event \<times> waiting_pool) option" where
  "worker_move w s =
     (if at_wait s w then
        (case worker_section (wp_pool s) of
           (Wait, p) \<Rightarrow> Some (Sleep w, s\<lparr>wp_asleep := insert w (wp_asleep s)\<rparr>)
         | (Got task, p) \<Rightarrow>
             Some (Locked (Take w task), s\<lparr>wp_pool := p\<lparr>workers := (workers p)[w := Running task]\<rparr>\<rparr>)
         | (Return, p) \<Rightarrow>
             Some (Locked (Worker_exit w), s\<lparr>wp_pool := p\<lparr>workers := (workers p)[w := Exited]\<rparr>\<rparr>))
      else if w < length (workers (wp_pool s)) then
        (case workers (wp_pool s) ! w of
           Running task \<Rightarrow> Some (Locked (Finish w task),
             s\<lparr>wp_pool := (wp_pool s)\<lparr>workers := (workers (wp_pool s))[w := Idle_worker]\<rparr>\<rparr>)
         | _ \<Rightarrow> None)
      else None)"

text \<open>The next move of \<open>shutdown\<close>; \<open>None\<close> while it waits in a join, and after the last one.\<close>

definition shutdown_move :: "waiting_pool \<Rightarrow> (waiting_event \<times> waiting_pool) option" where
  "shutdown_move s =
     (case wp_shut s of
        Open \<Rightarrow> Some (Locked Shutdown, s\<lparr>wp_pool := shutdown_flag (wp_pool s), wp_shut := Flagged\<rparr>)
      | Flagged \<Rightarrow> Some (Notify_all, s\<lparr>wp_asleep := {}, wp_shut := Joining 0\<rparr>)
      | Joining k \<Rightarrow>
          if k < length (workers (wp_pool s)) \<and> workers (wp_pool s) ! k = Exited
          then Some (Join k, s\<lparr>wp_shut := Joining (Suc k)\<rparr>) else None)"

text \<open>\<open>notify_one\<close> wakes some parked worker, if there is one.\<close>

inductive waiting_step :: "waiting_pool \<Rightarrow> waiting_event \<Rightarrow> waiting_pool \<Rightarrow> bool" where
  caller: "submit task s = (e, t) \<Longrightarrow> waiting_step s e t"
| notify_one: "wp_pending s = Suc k \<Longrightarrow> w \<in> wp_asleep s \<Longrightarrow>
    waiting_step s (Notify (Some w)) (s\<lparr>wp_pending := k, wp_asleep := wp_asleep s - {w}\<rparr>)"
| notify_none: "wp_pending s = Suc k \<Longrightarrow> wp_asleep s = {} \<Longrightarrow> waiting_step s (Notify None) (s\<lparr>wp_pending := k\<rparr>)"
| spurious: "w \<in> wp_asleep s \<Longrightarrow> waiting_step s (Spurious w) (s\<lparr>wp_asleep := wp_asleep s - {w}\<rparr>)"
| worker: "worker_move w s = Some (e, t) \<Longrightarrow> waiting_step s e t"
| stopper: "shutdown_move s = Some (e, t) \<Longrightarrow> waiting_step s e t"

text \<open>The steps one by one.\<close>

lemma sleep: "at_wait s w \<Longrightarrow> worker_section (wp_pool s) = (Wait, p) \<Longrightarrow>
    waiting_step s (Sleep w) (s\<lparr>wp_asleep := insert w (wp_asleep s)\<rparr>)"
  by (rule worker[of w]) (simp add: worker_move_def)

lemma take_front: "at_wait s w \<Longrightarrow> worker_section (wp_pool s) = (Got task, p) \<Longrightarrow>
    waiting_step s (Locked (Take w task)) (s\<lparr>wp_pool := p\<lparr>workers := (workers p)[w := Running task]\<rparr>\<rparr>)"
  by (rule worker[of w]) (simp add: worker_move_def)

lemma leave: "at_wait s w \<Longrightarrow> worker_section (wp_pool s) = (Return, p) \<Longrightarrow>
    waiting_step s (Locked (Worker_exit w)) (s\<lparr>wp_pool := p\<lparr>workers := (workers p)[w := Exited]\<rparr>\<rparr>)"
  by (rule worker[of w]) (simp add: worker_move_def)

lemma finish_task: "w < length (workers (wp_pool s)) \<Longrightarrow> workers (wp_pool s) ! w = Running task \<Longrightarrow>
    waiting_step s (Locked (Finish w task))
      (s\<lparr>wp_pool := (wp_pool s)\<lparr>workers := (workers (wp_pool s))[w := Idle_worker]\<rparr>\<rparr>)"
  by (rule worker[of w]) (simp add: worker_move_def at_wait_def)

lemma join_worker: "wp_shut s = Joining k \<Longrightarrow> k < length (workers (wp_pool s)) \<Longrightarrow> workers (wp_pool s) ! k = Exited \<Longrightarrow>
    waiting_step s (Join k) (s\<lparr>wp_shut := Joining (Suc k)\<rparr>)"
  by (rule stopper) (simp add: shutdown_move_def)

lemma waiting_stepE [consumes 1, case_names push push_refused notify_one notify_none sleep spurious take_front leave
    finish_task set_stop wake_all join_worker]:
  assumes "waiting_step s e t"
  obtains
    task p where "e = Locked (Enqueue task)" "t = s\<lparr>wp_pool := p, wp_pending := Suc (wp_pending s)\<rparr>"
      "enqueue task (wp_pool s) = Inr p"
  | task x where "e = Locked (Enqueue_refused task)" "t = s" "enqueue task (wp_pool s) = Inl x"
  | k w where "e = Notify (Some w)" "t = s\<lparr>wp_pending := k, wp_asleep := wp_asleep s - {w}\<rparr>"
      "wp_pending s = Suc k" "w \<in> wp_asleep s"
  | k where "e = Notify None" "t = s\<lparr>wp_pending := k\<rparr>" "wp_pending s = Suc k" "wp_asleep s = {}"
  | w p where "e = Sleep w" "t = s\<lparr>wp_asleep := insert w (wp_asleep s)\<rparr>" "at_wait s w"
      "worker_section (wp_pool s) = (Wait, p)"
  | w where "e = Spurious w" "t = s\<lparr>wp_asleep := wp_asleep s - {w}\<rparr>" "w \<in> wp_asleep s"
  | w task p where "e = Locked (Take w task)" "t = s\<lparr>wp_pool := p\<lparr>workers := (workers p)[w := Running task]\<rparr>\<rparr>"
      "at_wait s w" "worker_section (wp_pool s) = (Got task, p)"
  | w p where "e = Locked (Worker_exit w)" "t = s\<lparr>wp_pool := p\<lparr>workers := (workers p)[w := Exited]\<rparr>\<rparr>"
      "at_wait s w" "worker_section (wp_pool s) = (Return, p)"
  | w task where "e = Locked (Finish w task)"
      "t = s\<lparr>wp_pool := (wp_pool s)\<lparr>workers := (workers (wp_pool s))[w := Idle_worker]\<rparr>\<rparr>"
      "w < length (workers (wp_pool s))" "workers (wp_pool s) ! w = Running task"
  | "e = Locked Shutdown" "t = s\<lparr>wp_pool := shutdown_flag (wp_pool s), wp_shut := Flagged\<rparr>" "wp_shut s = Open"
  | "e = Notify_all" "t = s\<lparr>wp_asleep := {}, wp_shut := Joining 0\<rparr>" "wp_shut s = Flagged"
  | k where "e = Join k" "t = s\<lparr>wp_shut := Joining (Suc k)\<rparr>" "wp_shut s = Joining k"
      "k < length (workers (wp_pool s))" "workers (wp_pool s) ! k = Exited"
  using assms
  by cases
    (auto simp: submit_def worker_move_def shutdown_move_def
      split: sum.splits if_splits prod.splits worker_choice.splits worker.splits shutdown_pc.splits)

section \<open>Refinement of the critical sections\<close>

definition locked_events :: "waiting_event list \<Rightarrow> thread_event list" where
  "locked_events es = List.map_filter (\<lambda>e. case e of Locked x \<Rightarrow> Some x | _ \<Rightarrow> None) es"

lemma locked_events_snoc:
  "locked_events (es @ [e]) = locked_events es @ (case e of Locked x \<Rightarrow> [x] | _ \<Rightarrow> [])"
  by (simp add: locked_events_def map_filter_snoc split: waiting_event.splits)

lemma section_workers: "worker_section p = (x, p') \<Longrightarrow> workers p' = workers p"
  by (auto simp: worker_section_def split: if_splits)

lemma waiting_step_refines:
  assumes "waiting_step s e t"
  shows "case e of Locked x \<Rightarrow> worker_step (wp_pool s) x (wp_pool t) | _ \<Rightarrow> wp_pool t = wp_pool s"
  using assms
proof (cases rule: waiting_stepE)
  case (take_front w task p)
  then show ?thesis using worker_step.take_task[of w "wp_pool s" task p] section_workers[of "wp_pool s" "Got task" p]
    by (simp add: at_wait_def)
next
  case (leave w p)
  then show ?thesis using worker_step.worker_exit[of w "wp_pool s" p] section_workers[of "wp_pool s" Return p]
    by (simp add: at_wait_def)
qed (simp_all add: worker_step.intros)

lemma waiting_refines:
  "run waiting_step s es t \<Longrightarrow> run worker_step (wp_pool s) (locked_events es) (wp_pool t)"
proof (induction rule: run.induct)
  case run_start
  then show ?case by (simp add: locked_events_def map_filter_simps run.run_start)
next
  case (run_event es t e u)
  then show ?case using waiting_step_refines[OF run_event.hyps(2)]
    by (cases e) (simp_all add: locked_events_snoc run.run_event)
qed

section \<open>No lost wake-up\<close>

text \<open>The workers about to take the lock.\<close>

definition awake :: "waiting_pool \<Rightarrow> nat set" where
  "awake s = {w. w < length (workers (wp_pool s)) \<and> workers (wp_pool s) ! w = Idle_worker} - wp_asleep s"

lemma at_wait_awake: "at_wait s w \<longleftrightarrow> w \<in> awake s"
  by (auto simp: at_wait_def awake_def)

lemma finite_awake [simp]: "finite (awake s)"
  by (simp add: awake_def)

text \<open>
  Only idle workers are parked; when one is parked, each queued task has a worker on the way to the lock
  or a notification still to come; the flag and the progress of \<open>shutdown\<close> agree; once all have been notified no
  worker is parked, and the workers that have been joined are gone.
\<close>

definition waiting_inv :: "waiting_pool \<Rightarrow> bool" where
  "waiting_inv s =
     ((\<forall>w \<in> wp_asleep s. w < length (workers (wp_pool s)) \<and> workers (wp_pool s) ! w = Idle_worker) \<and>
      (wp_asleep s \<noteq> {} \<longrightarrow> length (task_queue (wp_pool s)) \<le> card (awake s) + wp_pending s) \<and>
      (stopped (wp_pool s) \<longleftrightarrow> wp_shut s \<noteq> Open) \<and>
      (\<forall>k. wp_shut s = Joining k \<longrightarrow> wp_asleep s = {} \<and> k \<le> length (workers (wp_pool s)) \<and>
         (\<forall>w < k. workers (wp_pool s) ! w = Exited)))"

lemma waiting_inv_new: "waiting_inv (waiting_new n)"
  by (simp add: waiting_inv_def waiting_new_def pthreads_new_def)

lemma awake_wake: "w \<in> wp_asleep s \<Longrightarrow> waiting_inv s \<Longrightarrow> awake (s\<lparr>wp_asleep := wp_asleep s - {w}\<rparr>) = insert w (awake s)"
  by (auto simp: awake_def waiting_inv_def)

lemma awake_sleep: "awake (s\<lparr>wp_asleep := insert w (wp_asleep s)\<rparr>) = awake s - {w}"
  by (auto simp: awake_def)

lemma awake_busy:
  "w < length (workers (wp_pool s)) \<Longrightarrow> workers p = workers (wp_pool s) \<Longrightarrow> x \<noteq> Idle_worker \<Longrightarrow>
   awake (s\<lparr>wp_pool := p\<lparr>workers := (workers (wp_pool s))[w := x]\<rparr>\<rparr>) = awake s - {w}"
  by (auto simp: awake_def nth_list_update split: if_splits)

lemma awake_finish:
  "w < length (workers (wp_pool s)) \<Longrightarrow> w \<notin> wp_asleep s \<Longrightarrow>
   awake (s\<lparr>wp_pool := (wp_pool s)\<lparr>workers := (workers (wp_pool s))[w := Idle_worker]\<rparr>\<rparr>) = insert w (awake s)"
  by (auto simp: awake_def nth_list_update split: if_splits)

lemma awake_cong:
  "workers (wp_pool t) = workers (wp_pool s) \<Longrightarrow> wp_asleep t = wp_asleep s \<Longrightarrow> awake t = awake s"
  by (simp add: awake_def)

lemma waiting_inv_step:
  assumes I: "waiting_inv s" and st: "waiting_step s e t"
  shows "waiting_inv t"
  using st
proof (cases rule: waiting_stepE)
  case (push task p)
  then have "awake t = awake s" by (intro awake_cong) (auto simp: enqueue_def split: if_splits)
  with I push show ?thesis by (auto simp: waiting_inv_def enqueue_def split: if_splits)
next
  case (notify_one k w)
  have "w \<notin> awake s" using notify_one(4) by (simp add: awake_def)
  moreover have "awake t = insert w (awake s)"
    using awake_wake[OF notify_one(4) I] notify_one(2) by (simp add: awake_def)
  ultimately have "card (awake t) = Suc (card (awake s))" by simp
  with I notify_one show ?thesis by (auto simp: waiting_inv_def)
next
  case (sleep w p)
  then have q: "task_queue (wp_pool s) = []" "\<not> stopped (wp_pool s)"
    by (auto simp: worker_section_def split: if_splits)
  with I sleep show ?thesis by (auto simp: waiting_inv_def at_wait_def)
next
  case (spurious w)
  have "w \<notin> awake s" using spurious(3) by (simp add: awake_def)
  then have "card (awake t) = Suc (card (awake s))" using awake_wake[OF spurious(3) I] spurious(2) by simp
  with I spurious show ?thesis by (auto simp: waiting_inv_def)
next
  case (take_front w task p)
  then have q: "task_queue (wp_pool s) = task # task_queue p" "stopped p = stopped (wp_pool s)"
    "workers p = workers (wp_pool s)" by (auto simp: worker_section_def split: if_splits)
  then have "awake t = awake s - {w}" using awake_busy[of w s p "Running task"] take_front(2,3)
    by (simp add: at_wait_def)
  then have "card (awake s) = Suc (card (awake t))"
    using take_front(3) by (metis at_wait_awake card_Suc_Diff1 finite_awake)
  with I take_front q show ?thesis
    by (auto simp: waiting_inv_def at_wait_def nth_list_update)
next
  case (leave w p)
  then have q: "p = wp_pool s" "task_queue (wp_pool s) = []"
    by (auto simp: worker_section_def split: if_splits)
  with I leave show ?thesis by (auto simp: waiting_inv_def at_wait_def nth_list_update)
next
  case (finish_task w task)
  then have "w \<notin> wp_asleep s" "w \<notin> awake s" using I by (auto simp: waiting_inv_def awake_def)
  with awake_finish[of w s] finish_task have "card (awake t) = Suc (card (awake s))" by simp
  with I finish_task show ?thesis by (auto simp: waiting_inv_def nth_list_update)
next
  case set_stop
  have "awake t = awake s" using set_stop by (intro awake_cong) (simp_all add: shutdown_flag_def)
  with I set_stop show ?thesis by (auto simp: waiting_inv_def shutdown_flag_def)
next
  case (join_worker k)
  have "awake t = awake s" using join_worker by (intro awake_cong) simp_all
  with I join_worker show ?thesis by (auto simp: waiting_inv_def less_Suc_eq)
qed (use I in \<open>auto simp: waiting_inv_def\<close>)

interpretation waiting: inductive_invariant waiting_step "waiting_new n" "\<lambda>es. waiting_inv" for n
proof unfold_locales
  fix es s e t assume "waiting_inv s" "waiting_step s e t"
  then show "waiting_inv t" by (rule waiting_inv_step)
qed (rule waiting_inv_new)

lemma waiting_threads_inv:
  "run waiting_step (waiting_new n) es s \<Longrightarrow> threads_inv n (locked_events es) (wp_pool s)"
  using threads.run_I waiting_refines[of "waiting_new n" es s] by (simp add: waiting_new_def)

section \<open>How far the shutdown is from its end\<close>

fun worker_rank :: "worker \<Rightarrow> nat" where
  "worker_rank Exited = 0"
| "worker_rank Idle_worker = 1"
| "worker_rank (Running task) = 2"

definition joins_left :: "waiting_pool \<Rightarrow> nat" where
  "joins_left s = 2 * pendingTasks (wp_pool s) + sum_list (map worker_rank (workers (wp_pool s))) +
     (case wp_shut s of Joining k \<Rightarrow> length (workers (wp_pool s)) - k | _ \<Rightarrow> 0)"

text \<open>What the workers and the joining thread do, as opposed to callers that are refused and late notifications.\<close>

definition progress :: "waiting_event \<Rightarrow> bool" where
  "progress e = (case e of Locked x \<Rightarrow> (case x of Enqueue_refused _ \<Rightarrow> False | _ \<Rightarrow> True) | Join _ \<Rightarrow> True | _ \<Rightarrow> False)"

lemma rank_update:
  assumes "w < length ws"
  shows "sum_list (map worker_rank (ws[w := x])) + worker_rank (ws ! w) = sum_list (map worker_rank ws) + worker_rank x"
  using assms by (induction ws arbitrary: w) (auto split: nat.splits)

lemma joining_step:
  assumes I: "waiting_inv s" and shut: "wp_shut s = Joining k" and st: "waiting_step s e t"
  shows "(\<exists>k'. wp_shut t = Joining k') \<and> joins_left t + of_bool (progress e) \<le> joins_left s"
proof -
  have stop: "stopped (wp_pool s)" "wp_asleep s = {}" using I shut by (auto simp: waiting_inv_def)
  from st show ?thesis
  proof (cases rule: waiting_stepE)
    case (push task p)
    with stop show ?thesis by (simp add: enqueue_def)
  next
    case (sleep w p)
    with stop show ?thesis by (auto simp: worker_section_def split: if_splits)
  next
    case (take_front w task p)
    then have q: "task_queue (wp_pool s) = task # task_queue p" "workers p = workers (wp_pool s)"
      by (auto simp: worker_section_def split: if_splits)
    with take_front rank_update[of w "workers (wp_pool s)" "Running task"] shut show ?thesis
      by (simp add: joins_left_def at_wait_def pendingTasks_def progress_def)
  next
    case (leave w p)
    then have "p = wp_pool s" by (auto simp: worker_section_def split: if_splits)
    with leave rank_update[of w "workers (wp_pool s)" Exited] shut show ?thesis
      by (simp add: joins_left_def at_wait_def pendingTasks_def progress_def)
  next
    case (finish_task w task)
    with rank_update[of w "workers (wp_pool s)" Idle_worker] shut show ?thesis
      by (simp add: joins_left_def pendingTasks_def progress_def)
  qed (use shut stop in \<open>auto simp: joins_left_def progress_def\<close>)
qed

text \<open>Until the last worker is joined, a worker can go on or the next join returns.\<close>

lemma joining_progress:
  assumes I: "waiting_inv s" and shut: "wp_shut s = Joining k" and k: "k < length (workers (wp_pool s))"
  shows "\<exists>e t. progress e \<and> waiting_step s e t"
proof (cases "workers (wp_pool s) ! k")
  case Exited
  show ?thesis by (intro exI conjI, rule_tac[2] join_worker[OF shut k Exited]) (simp add: progress_def)
next
  case (Running task)
  show ?thesis by (intro exI conjI, rule_tac[2] finish_task[OF k Running]) (simp add: progress_def)
next
  case Idle_worker
  have a: "at_wait s k" "stopped (wp_pool s)" using I shut k Idle_worker by (auto simp: waiting_inv_def at_wait_def)
  show ?thesis
  proof (cases "task_queue (wp_pool s)")
    case Nil
    then have "worker_section (wp_pool s) = (Return, wp_pool s)" using a(2) by (simp add: worker_section_def)
    from leave[OF a(1) this] show ?thesis by (intro exI conjI) (simp_all add: progress_def)
  next
    case (Cons task q)
    then have "worker_section (wp_pool s) = (Got task, (wp_pool s)\<lparr>task_queue := q\<rparr>)"
      using a(2) by (simp add: worker_section_def)
    from take_front[OF a(1) this] show ?thesis by (intro exI conjI) (simp_all add: progress_def)
  qed
qed

lemma joining_ends:
  assumes "waiting_inv s" and "wp_shut s = Joining k"
  shows "\<exists>es t. run waiting_step s es t \<and> length es \<le> joins_left s \<and>
    wp_shut t = Joining (length (workers (wp_pool t)))"
  using assms
proof (induction "joins_left s" arbitrary: s k rule: less_induct)
  case less
  show ?case
  proof (cases "k < length (workers (wp_pool s))")
    case True
    then obtain e t where e: "progress e" "waiting_step s e t" using joining_progress less.prems by blast
    then obtain k' where t: "wp_shut t = Joining k'" "joins_left t < joins_left s"
      using joining_step[OF less.prems e(2)] by auto
    from less.hyps[OF t(2) waiting_inv_step[OF less.prems(1) e(2)] t(1)] obtain es u where
      u: "run waiting_step t es u" "length es \<le> joins_left t" "wp_shut u = Joining (length (workers (wp_pool u)))" by blast
    have "run waiting_step s (e # es) u" by (rule run_Cons[where step = waiting_step, OF e(2) u(1)])
    with u t(2) show ?thesis by (intro exI[of _ "e # es"] exI[of _ u]) simp
  next
    case False
    then have "k = length (workers (wp_pool s))" using less.prems by (auto simp: waiting_inv_def)
    with less.prems(2) show ?thesis using run.run_start[of waiting_step s] by (intro exI[of _ "[]"] exI[of _ s]) simp
  qed
qed

lemma take_enabled:
  assumes "at_wait s w" and "0 < pendingTasks (wp_pool s)"
  shows "\<exists>task t. waiting_step s (Locked (Take w task)) t"
proof -
  obtain task q where "task_queue (wp_pool s) = task # q"
    using assms(2) by (cases "task_queue (wp_pool s)") (auto simp: pendingTasks_def)
  then have "worker_section (wp_pool s) = (Got task, (wp_pool s)\<lparr>task_queue := q\<rparr>)" by (simp add: worker_section_def)
  from take_front[OF assms(1) this] show ?thesis by blast
qed

text \<open>No worker is gone as long as a task is queued.\<close>

lemma queued_not_exited:
  assumes "run waiting_step (waiting_new n) es s" and "0 < pendingTasks (wp_pool s)"
  shows "workers (wp_pool s) \<noteq> [] \<and> Exited \<notin> set (workers (wp_pool s))"
  using waiting_threads_inv[OF assms(1)] assms(2) by (auto simp: threads_inv_def pendingTasks_def split: if_splits)

section \<open>Properties\<close>

text \<open>C18. No wake-up is lost. As long as a worker is parked, the queued tasks are at most as many as the workers that are on their
  way to the lock and the notifications still to come; when no notification is to come, some worker can take
  a queued task now or after finishing the one it runs.\<close>

theorem wakeups_not_lost:
  assumes "run waiting_step (waiting_new n) es s"
  shows "(wp_asleep s \<noteq> {} \<longrightarrow> pendingTasks (wp_pool s) \<le> card {w. at_wait s w} + wp_pending s) \<and>
    (0 < pendingTasks (wp_pool s) \<and> wp_pending s = 0 \<longrightarrow>
       (\<exists>w task t. waiting_step s (Locked (Take w task)) t \<or> waiting_step s (Locked (Finish w task)) t))"
proof (intro conjI impI)
  have I: "waiting_inv s" by (rule waiting.run_I[OF assms])
  have aw: "{w. at_wait s w} = awake s" by (simp add: at_wait_awake)
  show le: "pendingTasks (wp_pool s) \<le> card {w. at_wait s w} + wp_pending s" if "wp_asleep s \<noteq> {}"
    using I that by (simp add: waiting_inv_def aw pendingTasks_def)
  assume q: "0 < pendingTasks (wp_pool s) \<and> wp_pending s = 0"
  show "\<exists>w task t. waiting_step s (Locked (Take w task)) t \<or> waiting_step s (Locked (Finish w task)) t"
  proof (cases "\<exists>w. at_wait s w")
    case True
    with take_enabled q show ?thesis by blast
  next
    case False
    then have "{w. at_wait s w} = {}" by simp
    with le q have "wp_asleep s = {}" by auto
    moreover have l: "0 < length (workers (wp_pool s))" and "workers (wp_pool s) ! 0 \<noteq> Exited"
      using queued_not_exited[OF assms] q by (auto simp: in_set_conv_nth)
    ultimately obtain task where "workers (wp_pool s) ! 0 = Running task"
      using False by (cases "workers (wp_pool s) ! 0") (auto simp: at_wait_def)
    from finish_task[OF l this] show ?thesis by blast
  qed
qed

text \<open>A task is pushed while the only worker sleeps: the notification is still to come.\<close>

theorem wakeups_not_lost_witness:
  "\<exists>es s. run waiting_step (waiting_new 1) es s \<and> wp_asleep s = {0} \<and> pendingTasks (wp_pool s) = 1 \<and>
    1 \<le> card {w. at_wait s w} + wp_pending s"
proof -
  let ?s0 = "waiting_new 1" let ?s1 = "?s0\<lparr>wp_asleep := {0}\<rparr>"
  let ?s2 = "?s1\<lparr>wp_pool := (wp_pool ?s0)\<lparr>task_queue := [7]\<rparr>, wp_pending := 1\<rparr>"
  note fields = waiting_new_def pthreads_new_def at_wait_def worker_section_def enqueue_def
  have "waiting_step ?s0 (Sleep 0) ?s1" using sleep[of ?s0 0 "wp_pool ?s0"] by (simp add: fields)
  moreover have "waiting_step ?s1 (Locked (Enqueue 7)) ?s2"
    using caller[of 7 ?s1] by (simp add: fields submit_def)
  ultimately have r: "run waiting_step ?s0 [Sleep 0, Locked (Enqueue 7)] ?s2" by (meson run_Cons run_one)
  have "wp_asleep ?s2 = {0}" "pendingTasks (wp_pool ?s2) = 1" by (simp_all add: pendingTasks_def)
  with wakeups_not_lost[OF r] r show ?thesis by (intro exI[of _ "[Sleep 0, Locked (Enqueue 7)]"] exI[of _ ?s2]) simp
qed

text \<open>C19. \<open>shutdown\<close> returns. Once it has notified all workers, no worker is parked again, nothing that any thread
  does takes the end further away, and each task taken or finished, each worker that returns and each join brings it
  nearer; as long as a worker is not joined, one of these is possible; at most \<open>joins_left\<close> of them lead to the end.
  When all workers are joined, every accepted task has been finished.\<close>

theorem shutdown_returns:
  assumes "run waiting_step (waiting_new n) es s" and "wp_shut s = Joining k"
  shows "wp_asleep s = {} \<and>
    (\<forall>e t. waiting_step s e t \<longrightarrow> joins_left t + of_bool (progress e) \<le> joins_left s) \<and>
    (k < length (workers (wp_pool s)) \<longrightarrow> (\<exists>e t. progress e \<and> waiting_step s e t)) \<and>
    (\<exists>es' t. run waiting_step s es' t \<and> length es' \<le> joins_left s \<and> wp_shut t = Joining (length (workers (wp_pool t)))) \<and>
    (k = length (workers (wp_pool s)) \<longrightarrow> all_joined (wp_pool s) \<and>
       mset (finished (locked_events es)) = mset (accepted (locked_events es)))"
proof -
  have I: "waiting_inv s" by (rule waiting.run_I[OF assms(1)])
  have "all_joined (wp_pool s)" if "k = length (workers (wp_pool s))"
    using I assms(2) that by (auto simp: waiting_inv_def all_joined_def in_set_conv_nth)
  moreover have "mset (finished (locked_events es)) = mset (accepted (locked_events es))" if "all_joined (wp_pool s)"
  proof -
    have T: "threads_inv n (locked_events es) (wp_pool s)" by (rule waiting_threads_inv[OF assms(1)])
    then have "workers (wp_pool s) \<noteq> []" by (auto simp: threads_inv_def split: if_splits)
    then have "Exited \<in> set (workers (wp_pool s))" using that by (metis all_joined_def list.set_sel(1))
    with T running_none[of "workers (wp_pool s)"] that show ?thesis by (simp add: threads_inv_def all_joined_def)
  qed
  moreover have "wp_asleep s = {}" using I assms(2) by (simp add: waiting_inv_def)
  ultimately show ?thesis
    using joining_step[OF I assms(2)] joining_progress[OF I assms(2)] joining_ends[OF I assms(2)] by blast
qed

text \<open>The only worker sleeps when \<open>shutdown\<close> is called: one step of it and one join are left.\<close>

theorem shutdown_returns_witness:
  "\<exists>es s. run waiting_step (waiting_new 1) es s \<and> wp_shut s = Joining 0 \<and> joins_left s = 2 \<and>
    (\<exists>es' t. run waiting_step s es' t \<and> length es' \<le> 2 \<and> wp_shut t = Joining (length (workers (wp_pool t))))"
proof -
  let ?s0 = "waiting_new 1" let ?s1 = "?s0\<lparr>wp_asleep := {0}\<rparr>"
  let ?s2 = "?s1\<lparr>wp_pool := shutdown_flag (wp_pool ?s1), wp_shut := Flagged\<rparr>"
  let ?s3 = "?s2\<lparr>wp_asleep := {}, wp_shut := Joining 0\<rparr>" let ?es = "[Sleep 0, Locked Shutdown, Notify_all]"
  note fields = waiting_new_def pthreads_new_def at_wait_def worker_section_def
  have "waiting_step ?s0 (Sleep 0) ?s1" using sleep[of ?s0 0 "wp_pool ?s0"] by (simp add: fields)
  moreover have "waiting_step ?s1 (Locked Shutdown) ?s2" by (rule stopper) (simp add: shutdown_move_def waiting_new_def)
  moreover have "waiting_step ?s2 Notify_all ?s3" by (rule stopper) (simp add: shutdown_move_def)
  ultimately have r: "run waiting_step ?s0 ?es ?s3" by (meson run_Cons run_one)
  have j: "wp_shut ?s3 = Joining 0" "joins_left ?s3 = 2"
    by (simp_all add: joins_left_def pendingTasks_def fields shutdown_flag_def)
  from shutdown_returns[OF r j(1)] j r show ?thesis by (intro exI[of _ ?es] exI[of _ ?s3]) simp
qed

end
