(* ===== verification/LogThreads.thy ===== *)
theory LogThreads
  imports KvLog
begin

text \<open>
  Several threads that write to the one log (\<open>log/log.cpp\<close>): the event loop and the timer thread do. \<open>write_log\<close> tests the
  stream before it takes the lock, and uses it under the lock without testing again. \<open>write_section\<close> is what it does under
  the lock; \<open>log_step\<close> interleaves tests and critical sections of any number of threads.
\<close>

section \<open>The critical section\<close>

text \<open>\<open>fclose\<close> and \<open>fputs\<close> get the stream as it is now; a null stream is undefined behaviour.\<close>

definition write_section :: "int \<Rightarrow> string \<Rightarrow> log_time \<Rightarrow> bool \<Rightarrow> kv_log \<Rightarrow> kv_log res" where
  "write_section level msg t open_ok l =
     (case log_fp l of
        None \<Rightarrow> Inl Bad_pointer
      | Some fp \<Rightarrow>
          (let l1 = l\<lparr>used_lines := used_lines l + 1\<rparr>
           in if rotates t l1 \<and> \<not> open_ok then Inr (l1\<lparr>on_disk := appended l1, log_fp := None\<rparr>)
              else let file = (if rotates t l1 then rotated_name t l1 else fp);
                       l2 = (if rotates t l1 then l1\<lparr>on_disk := appended l1, log_fp := Some file\<rparr> else l1)
                   in bind_res (format_line level t msg (max_log_buffer_size l2)) (\<lambda>line.
                        Inr (l2\<lparr>appended := appended l2 @ [(file, line)]\<rparr>))))"

text \<open>Without another thread in between, the test and the section are \<open>write_log\<close>.\<close>

lemma write_log_split:
  "write_log level msg t open_ok l = (if log_fp l = None then Inr l else write_section level msg t open_ok l)"
  by (auto simp: write_log_def write_section_def Let_def split: option.splits)

section \<open>Threads\<close>

text \<open>A thread is between two messages, or has found the stream open and waits for the lock with its message.\<close>

datatype log_pc = At_rest | Wants_lock int string log_time

record log_threads =
  lt_log :: kv_log
  lt_pc :: "nat \<Rightarrow> log_pc"

datatype log_event = Test nat int string log_time | Section nat int string log_time bool | Flush nat

definition log_start :: "kv_log \<Rightarrow> log_threads" where
  "log_start l = \<lparr>lt_log = l, lt_pc = (\<lambda>_. At_rest)\<rparr>"

text \<open>A thread that finds no stream gives up its message.\<close>

definition log_test :: "nat \<Rightarrow> int \<Rightarrow> string \<Rightarrow> log_time \<Rightarrow> log_threads \<Rightarrow> log_threads" where
  "log_test w level msg t s =
     (if log_fp (lt_log s) = None then s else s\<lparr>lt_pc := (lt_pc s)(w := Wants_lock level msg t)\<rparr>)"

definition log_section :: "nat \<Rightarrow> int \<Rightarrow> string \<Rightarrow> log_time \<Rightarrow> bool \<Rightarrow> log_threads \<Rightarrow> log_threads res" where
  "log_section w level msg t open_ok s =
     bind_res (write_section level msg t open_ok (lt_log s)) (\<lambda>l.
       Inr (s\<lparr>lt_log := l, lt_pc := (lt_pc s)(w := At_rest)\<rparr>))"

inductive log_step :: "log_threads \<Rightarrow> log_event \<Rightarrow> log_threads \<Rightarrow> bool" where
  test: "lt_pc s w = At_rest \<Longrightarrow> log_step s (Test w level msg t) (log_test w level msg t s)"
| locked: "lt_pc s w = Wants_lock level msg t \<Longrightarrow> log_section w level msg t open_ok s = Inr s' \<Longrightarrow>
    log_step s (Section w level msg t open_ok) s'"
| flush: "lt_pc s w = At_rest \<Longrightarrow> log_step s (Flush w) (s\<lparr>lt_log := flush_log (lt_log s)\<rparr>)"

section \<open>Histories\<close>

text \<open>What a thread has asked to be written, what has been written for it, and the lines of all threads in the order of their
  critical sections.\<close>

fun asked :: "nat \<Rightarrow> log_event list \<Rightarrow> (int \<times> string \<times> log_time) list" where
  "asked w [] = []"
| "asked w (Test v level msg t # es) = (if v = w then [(level, msg, t)] else []) @ asked w es"
| "asked w (e # es) = asked w es"

fun done_for :: "nat \<Rightarrow> log_event list \<Rightarrow> (int \<times> string \<times> log_time) list" where
  "done_for w [] = []"
| "done_for w (Section v level msg t open_ok # es) = (if v = w then [(level, msg, t)] else []) @ done_for w es"
| "done_for w (e # es) = done_for w es"

fun section_lines :: "log_event list \<Rightarrow> string list" where
  "section_lines [] = []"
| "section_lines (Section v level msg t open_ok # es) = (stamp_text level t @ msg @ [NL]) # section_lines es"
| "section_lines (e # es) = section_lines es"

lemma histories_append [simp]:
  "asked w (es @ es') = asked w es @ asked w es'" "done_for w (es @ es') = done_for w es @ done_for w es'"
  "section_lines (es @ es') = section_lines es @ section_lines es'"
  by (induction es rule: asked.induct; simp)+

definition waiting_for :: "log_pc \<Rightarrow> (int \<times> string \<times> log_time) list" where
  "waiting_for pc = (case pc of At_rest \<Rightarrow> [] | Wants_lock level msg t \<Rightarrow> [(level, msg, t)])"

text \<open>Messages that fit, behind a stamp that does, and files that can be opened.\<close>

definition event_ok :: "int \<Rightarrow> log_event \<Rightarrow> bool" where
  "event_ok capacity e =
     (case e of
        Test w level msg t \<Rightarrow>
          length (stamp_text level t) < 48 \<and> int (length (stamp_text level t @ msg)) + 2 \<le> capacity
      | Section w level msg t open_ok \<Rightarrow> open_ok
      | Flush w \<Rightarrow> True)"

definition log_inv :: "kv_log \<Rightarrow> log_event list \<Rightarrow> log_threads \<Rightarrow> bool" where
  "log_inv l es s =
     (log_fp (lt_log s) \<noteq> None \<and> max_log_buffer_size (lt_log s) = max_log_buffer_size l \<and>
      map snd (appended (lt_log s)) = map snd (appended l) @ section_lines es \<and>
      (\<forall>w. asked w es = done_for w es @ waiting_for (lt_pc s w)) \<and>
      (\<forall>w level msg t. lt_pc s w = Wants_lock level msg t \<longrightarrow> length (stamp_text level t) < 48 \<and>
         int (length (stamp_text level t @ msg)) + 2 \<le> max_log_buffer_size l))"

lemma section_writes:
  assumes "log_fp l = Some f" and "length (stamp_text level t) < 48"
    and "int (length (stamp_text level t @ msg)) + 2 \<le> max_log_buffer_size l"
  shows "\<exists>l' file. write_section level msg t True l = Inr l' \<and> log_fp l' \<noteq> None \<and>
    max_log_buffer_size l' = max_log_buffer_size l \<and> appended l' = appended l @ [(file, stamp_text level t @ msg @ [NL])]"
  using assms format_line_fits[of level t msg "l\<lparr>used_lines := used_lines l + 1\<rparr>"]
  by (auto simp: write_section_def line_fits_def Let_def)

lemma log_inv_step:
  assumes I: "log_inv l es s" and st: "log_step s e s'" and ok: "event_ok (max_log_buffer_size l) e"
  shows "log_inv l (es @ [e]) s'"
  using st
proof cases
  case (test w level msg t)
  with I ok show ?thesis by (auto simp: log_inv_def log_test_def event_ok_def waiting_for_def)
next
  case (locked w level msg t open_ok)
  with I ok have fits: "length (stamp_text level t) < 48" "open_ok"
    "int (length (stamp_text level t @ msg)) + 2 \<le> max_log_buffer_size (lt_log s)"
    by (auto simp: log_inv_def event_ok_def)
  obtain f where "log_fp (lt_log s) = Some f" using I by (auto simp: log_inv_def)
  from section_writes[OF this fits(1,3)] obtain l' name where
    l': "write_section level msg t True (lt_log s) = Inr l'" "log_fp l' \<noteq> None"
    "max_log_buffer_size l' = max_log_buffer_size (lt_log s)"
    "appended l' = appended (lt_log s) @ [(name, stamp_text level t @ msg @ [NL])]" by blast
  have "s' = s\<lparr>lt_log := l', lt_pc := (lt_pc s)(w := At_rest)\<rparr>" using locked l'(1) fits(2) by (simp add: log_section_def)
  with I locked l' show ?thesis by (auto simp: log_inv_def waiting_for_def)
next
  case (flush w)
  with I show ?thesis by (auto simp: log_inv_def flush_log_def split: option.splits)
qed

lemma log_inv_start: "log_fp l \<noteq> None \<Longrightarrow> log_inv l [] (log_start l)"
  by (simp add: log_inv_def log_start_def waiting_for_def)

interpretation log_life: inductive_invariant log_step "log_start l"
  "\<lambda>es s. log_fp l \<noteq> None \<and> (\<forall>e \<in> set es. event_ok (max_log_buffer_size l) e) \<longrightarrow> log_inv l es s" for l
  by unfold_locales (auto simp: log_inv_start intro: log_inv_step)

section \<open>Properties\<close>

text \<open>C31. However the threads interleave, as long as messages fit and files can be opened: the log gets whole lines, those of
  the critical sections in their order; each thread's messages are written once and in its own order, and a thread
  that waits for the lock with its message can write it.\<close>

theorem threads_log_lines:
  assumes "log_fp l \<noteq> None" and "run log_step (log_start l) es s"
    and "\<forall>e \<in> set es. event_ok (max_log_buffer_size l) e"
  shows "map snd (appended (lt_log s)) = map snd (appended l) @ section_lines es \<and>
    asked w es = done_for w es @ waiting_for (lt_pc s w) \<and>
    (\<forall>level msg t. lt_pc s w = Wants_lock level msg t \<longrightarrow> returns (log_section w level msg t True s))"
proof -
  have I: "log_inv l es s" using log_life.run_I[OF assms(2)] assms(1,3) by blast
  have "returns (log_section w level msg t True s)" if "lt_pc s w = Wants_lock level msg t" for level msg t
  proof -
    obtain f where f: "log_fp (lt_log s) = Some f" using I by (auto simp: log_inv_def)
    have "length (stamp_text level t) < 48" "int (length (stamp_text level t @ msg)) + 2 \<le> max_log_buffer_size (lt_log s)"
      using I that by (auto simp: log_inv_def)
    from section_writes[OF f this] show ?thesis by (auto simp: log_section_def)
  qed
  with I show ?thesis by (auto simp: log_inv_def)
qed

text \<open>Two threads pass the test before either has the lock.\<close>

theorem threads_log_lines_witness:
  "\<exists>es s. run log_step (log_start (kv_log_new june3 True)) es s \<and>
    map snd (appended (lt_log s)) = [stamp_text 3 june3 @ ''b'' @ [NL]] \<and> lt_pc s 0 = Wants_lock 1 ''a'' june3"
proof -
  let ?l = "kv_log_new june3 True" and ?s0 = "log_start (kv_log_new june3 True)"
  let ?s1 = "log_test 0 1 ''a'' june3 ?s0" let ?s2 = "log_test 1 3 ''b'' june3 ?s1"
  let ?es = "[Test 0 1 ''a'' june3, Test 1 3 ''b'' june3, Section 1 3 ''b'' june3 True]"
  have l: "log_fp ?l = Some f \<Longrightarrow> log_fp ?l \<noteq> None" "\<exists>f. log_fp ?l = Some f" "appended ?l = []" for f
    by (simp_all add: kv_log_new_def log_init_def case_prod_unfold Let_def split: option.splits)
  then obtain f where f: "log_fp ?l = Some f" by blast
  have pc: "lt_pc ?s1 1 = At_rest" "lt_pc ?s2 1 = Wants_lock 3 ''b'' june3" "lt_pc ?s2 0 = Wants_lock 1 ''a'' june3" "lt_log ?s2 = ?l"
    by (simp_all add: log_test_def log_start_def f)
  have "int (length (stamp_text 3 june3 @ ''b'')) + 2 \<le> max_log_buffer_size ?l" using june3_stamp[of 3] by (simp add: june3_log)
  from section_writes[OF f june3_stamp this] obtain l' where l': "write_section 3 ''b'' june3 True ?l = Inr l'" by blast
  let ?s3 = "?s2\<lparr>lt_log := l', lt_pc := (lt_pc ?s2)(1 := At_rest)\<rparr>"
  have "log_step ?s0 (Test 0 1 ''a'' june3) ?s1" "log_step ?s1 (Test 1 3 ''b'' june3) ?s2"
    "log_step ?s2 (Section 1 3 ''b'' june3 True) ?s3"
    using test[of ?s0 0] test[of ?s1 1] pc locked[of ?s2 1] l' by (auto simp: log_section_def log_start_def)
  then have r: "run log_step ?s0 ?es ?s3" by (meson run_Cons run_one)
  have "\<forall>e \<in> set ?es. event_ok (max_log_buffer_size ?l) e"
    using june3_stamp[of 1] june3_stamp[of 3] by (auto simp: event_ok_def june3_log)
  from threads_log_lines[OF l(1)[OF f] r this] l(3) pc(3) r show ?thesis
    by (intro exI[of _ ?es] exI[of _ ?s3]) simp
qed

text \<open>The stream is tested outside the lock. Two threads pass the test; the first to get the lock has to change
  the file and cannot open the new one; the second uses the null stream. One after the other, the same calls return.\<close>

theorem log_test_outside_lock:
  assumes "log_fp l = Some f" and "today l \<noteq> tm_mday t1" and "a \<noteq> b"
  shows "\<exists>s. run log_step (log_start l) [Test a lv1 m1 t1, Test b lv2 m2 t2, Section a lv1 m1 t1 False] s \<and>
      lt_pc s b = Wants_lock lv2 m2 t2 \<and> log_section b lv2 m2 t2 open_ok s = Inl Bad_pointer"
    and "\<exists>l1. write_log lv1 m1 t1 False l = Inr l1 \<and> write_log lv2 m2 t2 open_ok l1 = Inr l1"
proof -
  let ?s0 = "log_start l" let ?s1 = "log_test a lv1 m1 t1 ?s0" let ?s2 = "log_test b lv2 m2 t2 ?s1"
  let ?l1 = "l\<lparr>used_lines := used_lines l + 1, on_disk := appended l, log_fp := None\<rparr>"
  let ?s3 = "?s2\<lparr>lt_log := ?l1, lt_pc := (lt_pc ?s2)(a := At_rest)\<rparr>"
  have w: "write_section lv1 m1 t1 False l = Inr ?l1"
    using assms(1,2) by (simp add: write_section_def rotates_def Let_def)
  have pc: "lt_pc ?s1 b = At_rest" "lt_pc ?s2 a = Wants_lock lv1 m1 t1" "lt_pc ?s2 b = Wants_lock lv2 m2 t2" "lt_log ?s2 = l"
    using assms(1,3) by (simp_all add: log_test_def log_start_def)
  have "log_step ?s0 (Test a lv1 m1 t1) ?s1" "log_step ?s1 (Test b lv2 m2 t2) ?s2" "log_step ?s2 (Section a lv1 m1 t1 False) ?s3"
    using test[of ?s0 a] test[of ?s1 b] locked[of ?s2 a] pc w by (simp_all add: log_section_def log_start_def)
  then have "run log_step ?s0 [Test a lv1 m1 t1, Test b lv2 m2 t2, Section a lv1 m1 t1 False] ?s3" by (meson run_Cons run_one)
  then show "\<exists>s. run log_step ?s0 [Test a lv1 m1 t1, Test b lv2 m2 t2, Section a lv1 m1 t1 False] s \<and>
      lt_pc s b = Wants_lock lv2 m2 t2 \<and> log_section b lv2 m2 t2 open_ok s = Inl Bad_pointer"
    using pc(3) assms(3) by (intro exI[of _ ?s3]) (simp add: log_section_def write_section_def)
  show "\<exists>l1. write_log lv1 m1 t1 False l = Inr l1 \<and> write_log lv2 m2 t2 open_ok l1 = Inr l1"
    using assms(1) w by (simp add: write_log_split)
qed

end
