(* ===== verification/SqlPool.thy ===== *)
theory SqlPool
  imports Prelude "HOL-Library.Multiset"
begin

text \<open>
  The pool of database connections, \<open>CGImysql/sql_connection_pool.{h,cpp}\<close>. The build does not include
  it, and \<open>GetConnection\<close> hands a bare mutex to \<open>condition_variable::wait\<close>, which does not compile; the
  model has the test in front of the wait and the critical section behind it as two steps, and says
  nothing of how long a thread waits between them. A connection is the number of the handle that
  \<open>mysql_real_connect\<close> returned, 0 is null; what the client library answers is an argument.
\<close>

record connection_pool =
  m_MaxConnections :: int
  m_CurrentConnections :: int
  m_FreeConnections :: int
  connection_list :: "nat list"
  m_url :: string
  m_user :: string
  m_password :: string
  m_DataBaseName :: string
  m_port :: int
  m_close_log :: int

section \<open>Operations\<close>

text \<open>The constructor leaves \<open>m_MaxConnections\<close> and the settings as they are; the instance is static, so they are zero.\<close>

definition Connection_Pool_new :: connection_pool where
  "Connection_Pool_new =
     \<lparr>m_MaxConnections = 0, m_CurrentConnections = 0, m_FreeConnections = 0, connection_list = [],
      m_url = [], m_user = [], m_password = [], m_DataBaseName = [], m_port = 0, m_close_log = 0\<rparr>"

text \<open>
  The loop of \<open>init\<close>: for each connection the answers of \<open>mysql_init\<close> and \<open>mysql_real_connect\<close>. A null
  ends the program.
\<close>

fun open_connections :: "(nat \<times> nat) list \<Rightarrow> connection_pool \<Rightarrow> connection_pool res" where
  "open_connections [] p = Inr p"
| "open_connections ((con, connected) # answers) p =
     (if con = 0 then Inl Exits
      else if connected = 0 then Inl Exits
      else open_connections answers
        (p\<lparr>connection_list := connection_list p @ [connected], m_FreeConnections := m_FreeConnections p + 1\<rparr>))"

definition pool_init ::
  "string \<Rightarrow> string \<Rightarrow> string \<Rightarrow> string \<Rightarrow> int \<Rightarrow> int \<Rightarrow> int \<Rightarrow> (nat \<Rightarrow> nat \<times> nat) \<Rightarrow> connection_pool \<Rightarrow>
   connection_pool res" where
  "pool_init url user password db port maxConnections close_log answer p =
     (let p1 = p\<lparr>m_url := url, m_user := user, m_password := password, m_DataBaseName := db,
                 m_port := port, m_close_log := close_log\<rparr>
      in bind_res (open_connections (map answer [0..<nat maxConnections]) p1) (\<lambda>p2.
           Inr (p2\<lparr>m_MaxConnections := m_FreeConnections p2\<rparr>)))"

text \<open>\<open>GetConnection\<close> returns null at once when this holds; it tests without the lock.\<close>

definition no_connection :: "connection_pool \<Rightarrow> bool" where
  "no_connection p = (length (connection_list p) = 0)"

text \<open>The critical section. \<open>front\<close> of an empty list is undefined.\<close>

definition take_connection :: "connection_pool \<Rightarrow> (nat \<times> connection_pool) res" where
  "take_connection p =
     (case connection_list p of
        [] \<Rightarrow> Inl Bad_pointer
      | con # rest \<Rightarrow>
          Inr (con, p\<lparr>connection_list := rest, m_FreeConnections := m_FreeConnections p - 1,
                      m_CurrentConnections := m_CurrentConnections p + 1\<rparr>))"

definition ReleaseConnection :: "nat \<Rightarrow> connection_pool \<Rightarrow> bool \<times> connection_pool" where
  "ReleaseConnection con p =
     (if con = 0 then (False, p)
      else (True, p\<lparr>connection_list := connection_list p @ [con], m_FreeConnections := m_FreeConnections p + 1,
                    m_CurrentConnections := m_CurrentConnections p - 1\<rparr>))"

text \<open>\<open>DestroyPool\<close>: the connections it closes, and the pool.\<close>

definition DestroyPool :: "connection_pool \<Rightarrow> nat list \<times> connection_pool" where
  "DestroyPool p =
     (if 0 < length (connection_list p)
      then (connection_list p, p\<lparr>m_CurrentConnections := 0, m_FreeConnections := 0, connection_list := []\<rparr>)
      else ([], p))"

definition GetFreeConnections :: "connection_pool \<Rightarrow> int" where
  "GetFreeConnections p = m_FreeConnections p"

text \<open>\<open>Connection_RAII\<close> keeps the connection that \<open>GetConnection\<close> returned, and its destructor releases it.\<close>

record connection_raii =
  con_RAII :: nat

definition Connection_RAII_new :: "nat \<Rightarrow> connection_raii" where
  "Connection_RAII_new con = \<lparr>con_RAII = con\<rparr>"

definition Connection_RAII_destroy :: "connection_raii \<Rightarrow> connection_pool \<Rightarrow> connection_pool" where
  "Connection_RAII_destroy r p = snd (ReleaseConnection (con_RAII r) p)"

lemmas sql_defs = take_connection_def ReleaseConnection_def DestroyPool_def GetFreeConnections_def no_connection_def

section \<open>Threads\<close>

text \<open>
  A thread inside \<open>GetConnection\<close> has passed the test and waits; \<open>inside\<close> counts them. The threads may call any
  public operation at any time: releases are of any pointer, whether it is out or not, and \<open>DestroyPool\<close> may run while
  connections are out. The last four fields keep accounts and decide nothing: the connections handed out
  and not released, the releases of connections that were not out, the connections that \<open>DestroyPool\<close> closed, and
  what it took off \<open>m_CurrentConnections\<close>. \<open>Connection_RAII\<close> is a \<open>GetConnection\<close> whose result is released once.
\<close>

record sql_state =
  sq_pool :: connection_pool
  sq_inside :: nat
  sq_out :: "nat multiset"
  sq_extra :: "nat multiset"
  sq_closed :: "nat multiset"
  sq_reset :: int

datatype sql_event = Get_null | Get_enter | Get_take nat | Release_con nat | Destroy_pool

inductive sql_step :: "sql_state \<Rightarrow> sql_event \<Rightarrow> sql_state \<Rightarrow> bool" where
  get_null: "no_connection (sq_pool s) \<Longrightarrow> sql_step s Get_null s"
| get_enter: "\<not> no_connection (sq_pool s) \<Longrightarrow> sql_step s Get_enter (s\<lparr>sq_inside := Suc (sq_inside s)\<rparr>)"
| get_take: "sq_inside s = Suc n \<Longrightarrow> take_connection (sq_pool s) = Inr (con, p) \<Longrightarrow>
    sql_step s (Get_take con) (s\<lparr>sq_pool := p, sq_inside := n, sq_out := add_mset con (sq_out s)\<rparr>)"
| release_con: "ReleaseConnection con (sq_pool s) = (True, p) \<Longrightarrow>
    sql_step s (Release_con con)
      (s\<lparr>sq_pool := p, sq_out := sq_out s - {#con#}, sq_extra := sq_extra s + ({#con#} - sq_out s)\<rparr>)"
| release_null: "ReleaseConnection con (sq_pool s) = (False, p) \<Longrightarrow> sql_step s (Release_con con) (s\<lparr>sq_pool := p\<rparr>)"
| destroy_pool: "DestroyPool (sq_pool s) = (closed, p) \<Longrightarrow>
    sql_step s Destroy_pool
      (s\<lparr>sq_pool := p, sq_closed := sq_closed s + mset closed,
         sq_reset := sq_reset s + (m_CurrentConnections (sq_pool s) - m_CurrentConnections p)\<rparr>)"

text \<open>The destructor of \<open>Connection_RAII\<close> is a release; it does nothing when there was no connection.\<close>

lemma raii_step:
  "sql_step s (Release_con con)
     (if con = 0 then s else s\<lparr>sq_pool := Connection_RAII_destroy (Connection_RAII_new con) (sq_pool s),
        sq_out := sq_out s - {#con#}, sq_extra := sq_extra s + ({#con#} - sq_out s)\<rparr>)"
  "Connection_RAII_destroy (Connection_RAII_new 0) p = p"
  using release_null[of con s] by (auto simp: Connection_RAII_destroy_def Connection_RAII_new_def ReleaseConnection_def intro!: release_con)

inductive_cases sql_stepE: "sql_step s e t"

definition sql_start :: "connection_pool \<Rightarrow> sql_state" where
  "sql_start p = \<lparr>sq_pool = p, sq_inside = 0, sq_out = {#}, sq_extra = {#}, sq_closed = {#}, sq_reset = 0\<rparr>"

text \<open>
  Every connection is in the list, handed out or closed, those released once too often once more, and
  the counters say how many are where.
\<close>

definition sql_inv :: "connection_pool \<Rightarrow> sql_event list \<Rightarrow> sql_state \<Rightarrow> bool" where
  "sql_inv p0 es s =
     (mset (connection_list (sq_pool s)) + sq_out s + sq_closed s = mset (connection_list p0) + sq_extra s \<and>
      m_FreeConnections (sq_pool s) = int (length (connection_list (sq_pool s))) \<and>
      m_CurrentConnections (sq_pool s) + sq_reset s = int (size (sq_out s)) - int (size (sq_extra s)) \<and>
      m_MaxConnections (sq_pool s) = m_MaxConnections p0 \<and>
      (Destroy_pool \<in> set es \<or> sq_closed s = {#} \<and> sq_reset s = 0))"

lemma release_accounts:
  assumes "(l :: nat multiset) + out + closed = all + extra"
  shows "add_mset con l + (out - {#con#}) + closed = all + (extra + ({#con#} - out))"
    and "int (size (out - {#con#})) - int (size (extra + ({#con#} - out))) = int (size out) - int (size extra) - 1"
proof -
  show "add_mset con l + (out - {#con#}) + closed = all + (extra + ({#con#} - out))"
  proof (cases "con \<in># out")
    case True
    then obtain rest where "out = add_mset con rest" by (metis mset_add)
    with assms show ?thesis by simp
  qed (use assms in \<open>simp add: diff_single_trivial minus_add_mset_if_not_in_lhs\<close>)
  show "int (size (out - {#con#})) - int (size (extra + ({#con#} - out))) = int (size out) - int (size extra) - 1"
  proof (cases "con \<in># out")
    case True
    then obtain rest where "out = add_mset con rest" by (metis mset_add)
    then show ?thesis by simp
  qed (simp add: diff_single_trivial minus_add_mset_if_not_in_lhs)
qed

lemma sql_inv_step: "sql_inv p0 es s \<Longrightarrow> sql_step s e t \<Longrightarrow> sql_inv p0 (es @ [e]) t"
proof (erule sql_stepE)
  fix n con p
  assume I: "sql_inv p0 es s" and t: "t = s\<lparr>sq_pool := p, sq_inside := n, sq_out := add_mset con (sq_out s)\<rparr>"
    and take: "take_connection (sq_pool s) = Inr (con, p)"
  then show "sql_inv p0 (es @ [e]) t"
    by (auto simp: sql_inv_def take_connection_def split: list.splits)
next
  fix con p
  assume I: "sql_inv p0 es s"
    and t: "t = s\<lparr>sq_pool := p, sq_out := sq_out s - {#con#}, sq_extra := sq_extra s + ({#con#} - sq_out s)\<rparr>"
    and rel: "ReleaseConnection con (sq_pool s) = (True, p)"
  have "mset (connection_list (sq_pool s)) + sq_out s + sq_closed s = mset (connection_list p0) + sq_extra s"
    using I by (simp add: sql_inv_def)
  note acc = release_accounts[OF this, of con]
  have p: "mset (connection_list p) = add_mset con (mset (connection_list (sq_pool s)))"
    "length (connection_list p) = length (connection_list (sq_pool s)) + 1"
    "m_FreeConnections p = m_FreeConnections (sq_pool s) + 1" "m_CurrentConnections p = m_CurrentConnections (sq_pool s) - 1"
    "m_MaxConnections p = m_MaxConnections (sq_pool s)"
    using rel by (auto simp: ReleaseConnection_def split: if_splits)
  from I acc show "sql_inv p0 (es @ [e]) t" by (auto simp: sql_inv_def t p)
next
  fix closed p
  assume I: "sql_inv p0 es s" and e: "e = Destroy_pool" and d: "DestroyPool (sq_pool s) = (closed, p)"
    and t: "t = s\<lparr>sq_pool := p, sq_closed := sq_closed s + mset closed,
      sq_reset := sq_reset s + (m_CurrentConnections (sq_pool s) - m_CurrentConnections p)\<rparr>"
  from I show "sql_inv p0 (es @ [e]) t" using d
    by (auto simp: sql_inv_def t e DestroyPool_def ac_simps split: if_splits)
qed (auto simp: sql_inv_def ReleaseConnection_def split: if_splits)

text \<open>A pool right after \<open>init\<close>: everything is free.\<close>

definition sql_fresh :: "connection_pool \<Rightarrow> bool" where
  "sql_fresh p = (m_FreeConnections p = int (length (connection_list p)) \<and> m_CurrentConnections p = 0)"

interpretation sql: inductive_invariant sql_step "sql_start p0" "\<lambda>es s. sql_fresh p0 \<longrightarrow> sql_inv p0 es s" for p0
proof unfold_locales
  show "sql_fresh p0 \<longrightarrow> sql_inv p0 [] (sql_start p0)" by (simp add: sql_fresh_def sql_inv_def sql_start_def)
  show "sql_fresh p0 \<longrightarrow> sql_inv p0 (es @ [e]) t" if "sql_fresh p0 \<longrightarrow> sql_inv p0 es s" "sql_step s e t" for es s e t
    using that sql_inv_step by blast
qed

text \<open>What \<open>init\<close> makes: the handles in the order of the connections, all of them free.\<close>

lemma open_connections_ok:
  "open_connections answers p = Inr p' \<Longrightarrow>
   p' = p\<lparr>connection_list := connection_list p @ map snd answers,
          m_FreeConnections := m_FreeConnections p + int (length answers)\<rparr> \<and> 0 \<notin> snd ` set answers"
  by (induction answers p rule: open_connections.induct) (auto split: if_splits)

lemma pool_init_ok:
  assumes "pool_init url user password db port n close_log answer Connection_Pool_new = Inr p" and "0 \<le> n"
  shows "connection_list p = map (snd \<circ> answer) [0..<nat n]" and "m_FreeConnections p = n"
    and "m_MaxConnections p = n" and "m_CurrentConnections p = 0" and "0 \<notin> set (connection_list p)"
proof -
  let ?p1 = "Connection_Pool_new\<lparr>m_url := url, m_user := user, m_password := password, m_DataBaseName := db,
      m_port := port, m_close_log := close_log\<rparr>"
  obtain p2 where p2: "open_connections (map answer [0..<nat n]) ?p1 = Inr p2" "p = p2\<lparr>m_MaxConnections := m_FreeConnections p2\<rparr>"
    using assms(1) by (auto simp: pool_init_def bind_res_eq_Inr)
  from open_connections_ok[OF p2(1)] p2(2) assms(2)
  show "connection_list p = map (snd \<circ> answer) [0..<nat n]" "m_FreeConnections p = n"
    "m_MaxConnections p = n" "m_CurrentConnections p = 0" "0 \<notin> set (connection_list p)"
    by (auto simp: Connection_Pool_new_def)
qed

section \<open>Properties\<close>

text \<open>C34. However calls of \<open>GetConnection\<close>, \<open>ReleaseConnection\<close> of any pointer and \<open>DestroyPool\<close>
  interleave, the connections in the list, handed out and closed are those that \<open>init\<close> opened and, once more each,
  those released without being out. \<open>m_FreeConnections\<close> is the length of the list; it and \<open>m_CurrentConnections\<close>
  add up to the maximum less what \<open>DestroyPool\<close> closed and took off the second counter; without a call of it, to the
  maximum. A thread that passed the test of \<open>GetConnection\<close> may all the same find the list empty: then the next step
  of the pool is undefined.\<close>

theorem sql_pool_accounting:
  assumes "pool_init url user password db port n close_log answer Connection_Pool_new = Inr p0" and "0 \<le> n"
    and "run sql_step (sql_start p0) es s"
  shows "mset (connection_list (sq_pool s)) + sq_out s + sq_closed s = mset (map (snd \<circ> answer) [0..<nat n]) + sq_extra s \<and>
    m_FreeConnections (sq_pool s) = int (length (connection_list (sq_pool s))) \<and>
    m_FreeConnections (sq_pool s) + m_CurrentConnections (sq_pool s) = n - int (size (sq_closed s)) - sq_reset s \<and>
    (Destroy_pool \<in> set es \<or> sq_closed s = {#} \<and> sq_reset s = 0) \<and> m_MaxConnections (sq_pool s) = n \<and>
    (no_connection (sq_pool s) = (take_connection (sq_pool s) = Inl Bad_pointer))"
proof -
  note p0 = pool_init_ok[OF assms(1,2)]
  have "sql_fresh p0" using assms(2) by (simp add: sql_fresh_def p0)
  then have I: "sql_inv p0 es s" using sql.run_I[OF assms(3)] by blast
  then have all: "mset (connection_list (sq_pool s)) + sq_out s + sq_closed s = mset (connection_list p0) + sq_extra s"
    by (simp add: sql_inv_def)
  have "length (connection_list (sq_pool s)) + size (sq_out s) + size (sq_closed s) = nat n + size (sq_extra s)"
    using arg_cong[OF all, of size] by (simp add: p0(1))
  then have "m_FreeConnections (sq_pool s) + m_CurrentConnections (sq_pool s) = n - int (size (sq_closed s)) - sq_reset s"
    using I assms(2) by (auto simp: sql_inv_def)
  moreover have "no_connection (sq_pool s) = (take_connection (sq_pool s) = Inl Bad_pointer)"
    by (simp add: sql_defs split: list.splits)
  ultimately show ?thesis using I p0(1,3) by (simp add: sql_inv_def)
qed

text \<open>One of two connections is out when the pool is destroyed, and comes back afterwards, twice.\<close>

theorem sql_pool_accounting_witness:
  "\<exists>p0 s. pool_init ''localhost'' ''root'' ''pw'' ''db'' 3306 2 0 (\<lambda>i. (1, i + 10)) Connection_Pool_new = Inr p0 \<and>
    run sql_step (sql_start p0) [Get_enter, Get_take 10, Destroy_pool, Release_con 10, Release_con 10] s \<and>
    connection_list (sq_pool s) = [10, 10] \<and> sq_out s = {#} \<and> sq_closed s = {#11#} \<and> sq_extra s = {#10#} \<and>
    m_FreeConnections (sq_pool s) + m_CurrentConnections (sq_pool s) = 0"
proof -
  have two: "[0..<2] = [0, 1 :: nat]" by (simp add: upt_rec)
  obtain p0 where p0: "pool_init ''localhost'' ''root'' ''pw'' ''db'' 3306 2 0 (\<lambda>i. (1, i + 10)) Connection_Pool_new = Inr p0"
    by (simp add: pool_init_def two Connection_Pool_new_def)
  have l: "connection_list p0 = [10, 11]" "m_CurrentConnections p0 = 0"
    using pool_init_ok[OF p0] by (simp_all add: two)
  let ?s1 = "sql_start p0\<lparr>sq_inside := Suc 0\<rparr>"
  have e: "sql_step (sql_start p0) Get_enter ?s1"
    using sql_step.get_enter[of "sql_start p0"] by (simp add: sql_start_def sql_defs l)
  obtain p1 where p1: "take_connection p0 = Inr (10, p1)" "connection_list p1 = [11]" "m_CurrentConnections p1 = 1"
    by (simp add: take_connection_def l)
  let ?s2 = "?s1\<lparr>sq_pool := p1, sq_inside := 0, sq_out := {#10#}\<rparr>"
  have t: "sql_step ?s1 (Get_take 10) ?s2"
    using sql_step.get_take[of ?s1 0 10 p1] p1 by (simp add: sql_start_def)
  obtain p2 where p2: "DestroyPool p1 = ([11], p2)" "connection_list p2 = []" "m_CurrentConnections p2 = 0"
    by (simp add: DestroyPool_def p1)
  let ?s3 = "?s2\<lparr>sq_pool := p2, sq_closed := {#11#}, sq_reset := 1\<rparr>"
  have d: "sql_step ?s2 Destroy_pool ?s3"
    using sql_step.destroy_pool[of ?s2 "[11]" p2] p1 p2 by (simp add: sql_start_def)
  obtain p3 where p3: "ReleaseConnection 10 p2 = (True, p3)" "connection_list p3 = [10]"
    by (simp add: ReleaseConnection_def p2)
  let ?s4 = "?s3\<lparr>sq_pool := p3, sq_out := {#}\<rparr>"
  have r1: "sql_step ?s3 (Release_con 10) ?s4"
    using sql_step.release_con[of 10 ?s3 p3] p3 by (simp add: sql_start_def)
  obtain p4 where p4: "ReleaseConnection 10 p3 = (True, p4)" "connection_list p4 = [10, 10]"
    by (simp add: ReleaseConnection_def p3)
  let ?s5 = "?s4\<lparr>sq_pool := p4, sq_extra := {#10#}\<rparr>"
  have r2: "sql_step ?s4 (Release_con 10) ?s5"
    using sql_step.release_con[of 10 ?s4 p4] p4 by (simp add: sql_start_def)
  have r: "run sql_step (sql_start p0) [Get_enter, Get_take 10, Destroy_pool, Release_con 10, Release_con 10] ?s5"
    by (intro run_Cons[where step = sql_step, OF e] run_Cons[where step = sql_step, OF t]
        run_Cons[where step = sql_step, OF d] run_Cons[where step = sql_step, OF r1] run_one[where step = sql_step, OF r2])
  have "m_FreeConnections (sq_pool ?s5) + m_CurrentConnections (sq_pool ?s5) = 0"
    using sql_pool_accounting[OF p0 _ r] by simp
  with p0 r p4(2) show ?thesis by (intro exI[of _ p0] exI[of _ ?s5]) simp
qed

end
