(* ===== verification/Spec2Isabelle.thy ===== *)
theory Spec2Isabelle
  imports ServerProps CloseRace TimerThread PoolThreads LogThreads SqlPool
begin

text \<open>
  A key-value server: an epoll event loop that accepts connections, reads HTTP requests, hands the body
  of a POST to a small key-value engine and answers. This development models all of it, file by file, and
  proves what it does and where it fails.

  \<^bold>\<open>The program.\<close> \<open>src/src/main.cpp\<close> builds a \<open>Webserver\<close> and runs its event loop. The loop waits for events. A new
  connection gets an object from the connection pool and a timer. Bytes of a client are read into the
  ring buffer of its connection, parsed by the parser registered for the first bytes, and given to the
  handler registered for the method followed by the URL; the handler of \<open>POST/usr/kvstore\<close> calls \<open>kvstore_request\<close>. The timer thread runs
  the callbacks of expired timers, which close idle connections. \<open>SIGINT\<close> and \<open>SIGTERM\<close> come in through a pipe and
  end the loop; the constructor loads the table from a file and the destructor saves it.

  \<^bold>\<open>Where what is modelled.\<close>
    \<^item> \<open>Prelude\<close>: results with faults and exceptions, C integers and strings; the locales \<open>simulation\<close> and
      \<open>inductive_invariant\<close>, the relation \<open>run\<close>.
    \<^item> \<open>CStrings\<close>, \<open>StringView\<close>, \<open>StdMap\<close>: the parts of the C and C++ libraries that the program uses: \<open>strtok\<close>, \<open>fgets\<close>,
      \<open>snprintf\<close>; \<open>std::string_view\<close>, \<open>std::stoul\<close>; \<open>std::map\<close> as a list ordered by the source's own comparison.
    \<^item> \<open>KvHeap\<close>, \<open>HashTable\<close> (\<open>kv_core/hash.cpp\<close>): blocks and pointers, one definition per function. \<open>HashShape\<close> describes a
      well-formed table, \<open>HashRefine\<close> relates it to a partial map, \<open>HashOps\<close> evaluates every operation on it,
      \<open>KvInterface\<close> states the contract \<open>kv_map\<close> and discharges it, \<open>TableLife\<close> is creation and destruction.
    \<^item> \<open>Persist\<close> (\<open>save_to_disk\<close>, \<open>load_from_disk\<close>), \<open>KvStore\<close> (\<open>kv_core/kvstore.cpp\<close>), \<open>KvSpec\<close> (the commands on a map, and that
      \<open>kvstore_request\<close> implements them), \<open>KvProps\<close> (the properties of the engine), \<open>KvSafety\<close> (what arbitrary
      requests and files do to a well-formed table).
    \<^item> \<open>RingBuffer\<close>, \<open>HttpParser\<close>, \<open>RouterMap\<close> (\<open>ring_buffer.cpp\<close>, \<open>protocol_parser.cpp\<close>, \<open>Router.h\<close> and the parser factory);
      \<open>HttpRender\<close> and \<open>HttpProps\<close> say what the parser does on rendered requests; \<open>ConnInfo\<close>, \<open>ConnProps\<close>
      (\<open>connect_info.h\<close>), \<open>HttpTask\<close> (\<open>http_task.h\<close>).
    \<^item> \<open>ConnPool\<close> (\<open>utils/memory.h\<close>) at the level of the bytes of its blocks; \<open>TimerClock\<close> (\<open>timer.cpp\<close>) and \<open>ThreadPool\<close>
      (\<open>threads_pool.cpp\<close>) as critical sections and their interleavings, \<open>TimerThread\<close> (the loop of the timer thread with its
      waits, and the destructor that ends it), \<open>PoolThreads\<close> (the workers, the condition variable and \<open>shutdown\<close> at the grain
      of single wake-ups, a refinement of \<open>ThreadPool\<close>); \<open>KvLog\<close> and \<open>LogThreads\<close> (\<open>log.cpp\<close>, by one thread and by several); \<open>Epoll\<close>, \<open>Tcp\<close>
      (\<open>network/\<close>); \<open>SqlPool\<close> (\<open>CGImysql/\<close>), which stands alone.
    \<^item> \<open>WebServer\<close> (\<open>Webserver.{h,cpp}\<close>, \<open>main.cpp\<close>): the composition. The record \<open>server\<close> has the members of the class and
      the log. \<open>ServerConn\<close> holds the lemmas its properties share, \<open>ServerProps\<close> the properties, \<open>ServerInv\<close> the
      invariant of all components under any order of events, signals and timer callbacks, and \<open>WebRace\<close> cuts \<open>deal_Read\<close>
      into its accesses to the connection and lets callbacks of the timer thread run between them. \<open>ServerThreads\<close> is the
      event loop and the timer thread at that grain, of which the steps of \<open>ServerInv\<close> are runs; \<open>ServerFaults\<close> bounds the
      faults of every handler. \<open>ServerActs\<close> writes every function of the two threads again, cut at each access to the shared
      state, \<open>ServerFine\<close> interleaves these, and \<open>CloseRace\<close> is about two of them that close one connection.

  \<^bold>\<open>How effects are modelled.\<close> State is passed explicitly. An operation that can fault returns \<open>'a res\<close>: \<open>Inl\<close> with
  the undefined behaviour, the exception, the endless loop, the wait or the exit; \<open>Inr\<close> with the value. What the
  world answers is an argument: allocation (\<open>h_fail\<close>), contents of fresh memory (\<open>h_junk\<close>), files, the
  time, and for the server the records \<open>env\<close>, \<open>start_env\<close> and \<open>round\<close>. Threads are step relations
  whose steps are the critical sections of the source; the two threads of the server are resumptions, whose
  steps are their accesses to it.

  \<^bold>\<open>What is shown.\<close>
    \<^item> Engine: any history of well-formed requests behaves as the commands on a map, leaks no memory,
      survives a restart if its pairs fit the file format (\<open>engine_history\<close>, \<open>engine_memory\<close>, \<open>engine_restart\<close>); any
      requests on strings below \<open>2^24\<close> bytes end without an overflow, with one of four faults
      or a well-formed table (\<open>engine_total\<close>); \<open>dest_hashtable\<close> ends but leaks; the bounds of tokens
      and hashes; faults on a refused allocation, uncleared buckets, negative hashes, unknown commands.
    \<^item> Parsing and routing: a request is complete from its last byte on and comes back from the parser; the longest
      registered prefix and the last registration win; a malformed length throws; responses are malformed.
    \<^item> Connections: the ring buffer is a counter modulo its size; which requests are accepted; stale bytes.
    \<^item> Pool: sound when blocks are as large as a connection, and what goes wrong with the default size.
    \<^item> Timers and threads: which timers fire; at most one current timer per identifier, as long as identifiers are not used
      again; tasks run once and in order, and shutdown
      drains; no wake-up of a worker is lost; the joins of \<open>shutdown\<close> and of the timer thread return; the race of \<open>mod_timer\<close>, and timers that a sleeping thread misses.
    \<^item> Log, epoll, socket, database pool: \<open>write_log\<close> on every branch; one line per message, in order and on disk, also when several
      threads write; events within the array; descriptors closed or leaked; where every database connection is, whatever is
      released and when the pool is destroyed.
    \<^item> Server: what holds of every state of a running server, with events and callbacks uninterrupted (\<open>server_invariant\<close>) and
      interleaved access by access (\<open>accesses_keep_invariant\<close>); the only faults it can meet next (\<open>access_faults\<close>, and by kind of
      event \<open>server_faults\<close>), and that signals alone make it exit; one command and sessions of commands that fit the read buffer, from
      the socket to the table, and every other request; callbacks of other connections do not disturb a read, one that closes its connection makes it fault, and
      two threads cannot both close one (\<open>double_close\<close>); a signal ends the loop, and the next
      server starts with the same table; the faults of second, closed and refused connections.

  \<^bold>\<open>Fuel and bounds.\<close> The loops along \<open>next\<close> pointers have as fuel one more than the number of
  addresses handed out; a longer walk visits a cell twice, so running out (\<open>Diverges\<close>) means the C loop does not
  end, and every theorem that an operation returns shows that this fuel is enough; \<open>engine_total\<close> excludes
  \<open>Diverges\<close> for every request. The event loop runs over a given list of
  turns. All other recursion is structural or has a measure. The length field of HTTP is
  computed on 64-bit words; the hash sum is an integer, which \<open>hash_range\<close> shows not to leave \<open>int\<close> for keys below
  \<open>2^24\<close> bytes. The count of keys is an integer too; \<open>checked_request\<close> adds the checks of both, and \<open>engine_total\<close> shows that they
  never fail for strings below that length and fewer than \<open>2^31\<close> keys. (The server's own requests are below
  1024 bytes; that it holds fewer than \<open>2^31\<close> keys is left aside in the theorems about it.) \<open>ring_step\<close> checks the additions of the ring
  buffer likewise. Times, versions, the counters of the log and of the database pool are integers. Among timers with equal expiry times the
  queue of the model has an order, that of \<open>insort_key\<close>, which \<open>std::priority_queue\<close> leaves open.

  \<^bold>\<open>Signals.\<close> They are delivered at any point between two accesses (\<open>deliver\<close>): those with a handler go to the pipe, those
  that Linux ignores or that only suspend the process leave the server as it is, all others end the process with \<open>Exits\<close>.
  SIGPIPE, which \<open>send\<close> raises when the client has closed its end, is one of the last: \<open>send_simple_response\<close> itself always
  returns the text it sends, and the signal is an event of its own, which \<open>access_faults\<close> puts right behind the access.

  \<^bold>\<open>Not modelled.\<close> Console output; the futures of \<open>enqueue\<close>; time within a second; the
  waits inside \<open>Connection_Pool::GetConnection\<close>, which do not compile; interleavings inside one call of the pool, of a handler or of
  \<open>conn->read\<close>, whose racing accesses are undefined in C++; the branch of \<open>deal_Read\<close> under
  \<open>THREAD_POOL_FLAG\<close>, which is false; \<open>set_write\<close> and \<open>http_build_body\<close>,
  whose bodies are empty; the generated file \<open>CMakeCXXCompilerId.cpp\<close>.
\<close>

end
